(* ===== verification/Toad_Prelude.thy ===== *)
theory Toad_Prelude
  imports Main "HOL-Library.Word"
begin

text \<open>
  The vocabulary shared by every component: the integer types of
  \<^verbatim>\<open>include/defs.hpp\<close>, the ways a C++ statement can fail, the small result monad
  in which fallible code is written, and the lemmas on lists and words that the
  component proofs use through the collections \<open>stream_simps\<close>, \<open>word_bounds\<close> and
  \<open>res_simps\<close>.
\<close>

unbundle bit_operations_syntax

named_theorems res_simps \<open>evaluation of the result monad\<close>
named_theorems word_bounds \<open>bounds and conversions of machine words\<close>
named_theorems stream_simps \<open>effect of stream operations on well-formed buffers\<close>

section \<open>Machine integers\<close>

type_synonym u8 = "8 word"
type_synonym u16 = "16 word"
type_synonym u32 = "32 word"
type_synonym u64 = "64 word"
type_synonym sz = "64 word"

section \<open>Failures\<close>

text \<open>
  \<open>Assert_failed\<close> is \<^verbatim>\<open>std::abort\<close>, called by the \<^verbatim>\<open>ASSERT\<close> macro and directly,
  \<open>Undefined_behaviour\<close> an access the C++ standard leaves undefined (outside an
  allocation, through a null pointer), \<open>Length_error\<close> the exception that
  \<^verbatim>\<open>std::vector::resize\<close> throws above \<^verbatim>\<open>max_size\<close>, and
  \<open>Bad_variant_access\<close> the one of \<^verbatim>\<open>std::get\<close>.
\<close>

datatype fault = Assert_failed | Undefined_behaviour | Length_error | Bad_variant_access

type_synonym 'a res = "fault + 'a"

definition rbind :: "'a res \<Rightarrow> ('a \<Rightarrow> 'b res) \<Rightarrow> 'b res" where
  "rbind r f = (case r of Inl e \<Rightarrow> Inl e | Inr x \<Rightarrow> f x)"

text \<open>The \<^verbatim>\<open>ASSERT\<close> macro: carry on when the expression holds, abort when not.\<close>

definition ASSERT :: "bool \<Rightarrow> 'a res \<Rightarrow> 'a res" where
  "ASSERT c k = (if c then k else Inl Assert_failed)"

definition of_access :: "'a option \<Rightarrow> 'a res" where
  "of_access r = (case r of None \<Rightarrow> Inl Undefined_behaviour | Some x \<Rightarrow> Inr x)"

text \<open>Replacing \<open>length xs\<close> bytes from position \<open>i\<close>: what \<^verbatim>\<open>memcpy\<close> does to its target.\<close>

definition overwrite :: "'a list \<Rightarrow> nat \<Rightarrow> 'a list \<Rightarrow> 'a list" where
  "overwrite ys i xs = take i ys @ xs @ drop (i + length xs) ys"

section \<open>The result monad\<close>

lemma rbind_Inl [simp, res_simps]: "rbind (Inl e) f = Inl e"
  by (simp add: rbind_def)

lemma rbind_Inr [simp, res_simps]: "rbind (Inr x) f = f x"
  by (simp add: rbind_def)

lemma rbind_eq_Inr [res_simps]: "rbind r f = Inr y \<longleftrightarrow> (\<exists>x. r = Inr x \<and> f x = Inr y)"
  by (auto simp: rbind_def split: sum.splits)

lemma rbind_eq_Inl: "rbind r f = Inl e \<longleftrightarrow> r = Inl e \<or> (\<exists>x. r = Inr x \<and> f x = Inl e)"
  by (auto simp: rbind_def split: sum.splits)

lemma rbind_assoc: "rbind (rbind r f) g = rbind r (\<lambda>x. rbind (f x) g)"
  by (simp add: rbind_def split: sum.splits)

lemma rbind_cong [fundef_cong]:
  "r = r' \<Longrightarrow> (\<And>x. r' = Inr x \<Longrightarrow> f x = g x) \<Longrightarrow> rbind r f = rbind r' g"
  by (auto simp: rbind_def split: sum.splits)

lemma map_sum_rbind:
  "map_sum id h (rbind r f) = rbind r (\<lambda>x. map_sum id h (f x))"
  by (simp add: rbind_def split: sum.splits)

lemma rbind_map_sum: "rbind (map_sum id h r) f = rbind r (\<lambda>x. f (h x))"
  by (simp add: rbind_def split: sum.splits)

lemma ASSERT_True [simp, res_simps]: "ASSERT True k = k"
  by (simp add: ASSERT_def)

lemma ASSERT_False [simp, res_simps]: "ASSERT False k = Inl Assert_failed"
  by (simp add: ASSERT_def)

lemma ASSERT_eq_Inr [res_simps]: "ASSERT c k = Inr y \<longleftrightarrow> c \<and> k = Inr y"
  by (simp add: ASSERT_def)

lemma of_access_simps [simp, res_simps]:
  "of_access None = Inl Undefined_behaviour" "of_access (Some x) = Inr x"
  by (simp_all add: of_access_def)

section \<open>Lists\<close>

lemma length_overwrite [simp]:
  "i + length xs \<le> length ys \<Longrightarrow> length (overwrite ys i xs) = length ys"
  by (simp add: overwrite_def)

lemma overwrite_Nil [simp]: "overwrite ys i [] = ys"
  by (simp add: overwrite_def)

lemma overwrite_append [simp]:
  "overwrite (pre @ ys) (length pre) xs = pre @ xs @ drop (length xs) ys"
  by (simp add: overwrite_def)

lemma take_drop_overwrite [simp]:
  "i + length xs \<le> length ys \<Longrightarrow> take (length xs) (drop i (overwrite ys i xs)) = xs"
  by (simp add: overwrite_def)

lemma overwrite_overwrite:
  "i + length xs + length zs \<le> length ys \<Longrightarrow>
     overwrite (overwrite ys i xs) (i + length xs) zs = overwrite ys i (xs @ zs)"
  by (simp add: overwrite_def add.assoc) (simp add: ac_simps)

lemma overwrite_next [stream_simps]:
  "j = i + length xs \<Longrightarrow> j + length zs \<le> length ys \<Longrightarrow>
     overwrite (overwrite ys i xs) j zs = overwrite ys i (xs @ zs)"
  by (simp add: overwrite_overwrite)

lemma nth_overwrite:
  "i + length xs \<le> length ys \<Longrightarrow> k < length ys \<Longrightarrow>
     overwrite ys i xs ! k = (if i \<le> k \<and> k < i + length xs then xs ! (k - i) else ys ! k)"
  by (auto simp: overwrite_def nth_append)

lemma take_drop_overwrite_disjoint:
  "j + n \<le> i \<or> i + length xs \<le> j \<Longrightarrow> i + length xs \<le> length ys \<Longrightarrow>
     take n (drop j (overwrite ys i xs)) = take n (drop j ys)"
  by (rule nth_equalityI) (auto simp: nth_overwrite)

section \<open>Words\<close>

text \<open>The masks of the source as \<open>mask\<close>, for reasoning bit by bit.\<close>

lemma mask_literals [word_bounds]:
  "(3 :: 'a::len word) = mask 2" "(7 :: 'a word) = mask 3" "(0xF :: 'a word) = mask 4"
  "(0x1F :: 'a word) = mask 5" "(0x3F :: 'a word) = mask 6" "(0xFF :: 'a word) = mask 8"
  "(0x1FFF :: 'a word) = mask 13" "(0xFFFF :: 'a word) = mask 16"
  by (simp_all add: mask_eq_exp_minus_1)

lemma bit_word_beyond [simp]: "LENGTH('a) \<le> n \<Longrightarrow> \<not> bit (w :: 'a::len word) n"
  using bit_imp_le_length [of w n] by auto

lemma bit_small_word: "(x :: 'a::len word) < 2 ^ n \<Longrightarrow> bit x k \<Longrightarrow> k < n"
  by (metis less_mask_eq bit_and_iff bit_mask_iff)

lemma unat_and_mask [word_bounds]: "unat (x AND mask n :: 'a::len word) = unat x mod 2 ^ n"
  by (simp only: take_bit_eq_mask [symmetric] unsigned_take_bit_eq) (simp add: take_bit_eq_mod)

lemma unat_drop_bit [word_bounds]: "unat (drop_bit n x :: 'a::len word) = unat x div 2 ^ n"
  by (simp only: unat_drop_bit_eq) (simp add: drop_bit_eq_div)

lemma unat_of_nat_64 [word_bounds]: "n < 2 ^ 64 \<Longrightarrow> unat (of_nat n :: sz) = n"
  by (simp add: unat_of_nat take_bit_nat_eq_self)

text \<open>The bound test of every stream operation, without wrap-around.\<close>

lemma sz_add_le_iff [word_bounds]:
  fixes c :: sz
  assumes "unat c + n < 2 ^ 64" and "len < 2 ^ 64"
  shows "c + of_nat n \<le> of_nat len \<longleftrightarrow> unat c + n \<le> len"
proof -
  have "unat (c + of_nat n) = unat c + n"
    using assms(1) by (simp add: unat_word_ariths unat_of_nat take_bit_eq_mod mod_add_right_eq)
  then show ?thesis
    using assms(2) by (simp add: word_le_nat_alt unat_of_nat_64)
qed

lemma unat_sz_add [word_bounds]:
  fixes c :: sz
  assumes "unat c + n < 2 ^ 64"
  shows "unat (c + of_nat n) = unat c + n"
  using assms by (simp add: unat_word_ariths unat_of_nat take_bit_eq_mod mod_add_right_eq)

lemma unat_ucast_u8_sz [word_bounds]: "unat (ucast (w :: u8) :: sz) = unat w"
  using unsigned_less [of w, where 'a = nat] by (simp add: unsigned_ucast_eq take_bit_nat_eq_self)

lemma unat_u8_less [word_bounds]: "unat (w :: u8) < 256"
  using unsigned_less [of w, where 'a = nat] by simp

end
