(* ===== verification/Toad_Buffer.thy ===== *)
theory Toad_Buffer
  imports Toad_Prelude
begin

text \<open>
  \<^verbatim>\<open>include/bytes/buffer.hpp\<close>. A \<open>Buffer\<close> is a window into a shared allocation,
  so copies and slices alias. The store is explicit: \<open>mem\<close> is the list of the
  allocations made so far, an allocation is named by its position, and every access goes
  through \<open>mem_load\<close> and \<open>mem_store\<close>, which fail outside the allocation. The reference
  count of \<^verbatim>\<open>std::shared_ptr\<close> is not kept: an allocation that a live \<open>Buffer\<close>
  names is never freed, so the model keeps all of them.
\<close>

section \<open>The store and the structure\<close>

type_synonym mem = "u8 list list"

record Buffer =
  buf_shared :: "nat option"
  buf_offset :: sz
  buf_size :: sz

definition mem_load :: "mem \<Rightarrow> nat option \<Rightarrow> nat \<Rightarrow> nat \<Rightarrow> u8 list option" where
  "mem_load m p i n =
     (case p of
        None \<Rightarrow> if n = 0 then Some [] else None
      | Some a \<Rightarrow> if a < length m \<and> i + n \<le> length (m ! a) then Some (take n (drop i (m ! a))) else None)"

definition mem_store :: "mem \<Rightarrow> nat option \<Rightarrow> nat \<Rightarrow> u8 list \<Rightarrow> mem option" where
  "mem_store m p i xs =
     (case p of
        None \<Rightarrow> if xs = [] then Some m else None
      | Some a \<Rightarrow> if a < length m \<and> i + length xs \<le> length (m ! a)
                  then Some (m[a := overwrite (m ! a) i xs]) else None)"

section \<open>Operations\<close>

text \<open>\<^verbatim>\<open>Buffer()\<close>\<close>

definition Buffer_default :: Buffer where
  "Buffer_default = \<lparr>buf_shared = None, buf_offset = 0, buf_size = 0\<rparr>"

text \<open>\<^verbatim>\<open>Buffer(std::span<u8, size>)\<close>: a fresh allocation holding a copy.\<close>

definition Buffer_span :: "mem \<Rightarrow> u8 list \<Rightarrow> mem \<times> Buffer" where
  "Buffer_span m span =
     (m @ [span], \<lparr>buf_shared = Some (length m), buf_offset = 0, buf_size = of_nat (length span)\<rparr>)"

text \<open>\<^verbatim>\<open>Buffer(u8 *ptr, sz size)\<close>: takes over an allocation made elsewhere.\<close>

definition Buffer_ptr :: "nat \<Rightarrow> sz \<Rightarrow> Buffer" where
  "Buffer_ptr p n = \<lparr>buf_shared = Some p, buf_offset = 0, buf_size = n\<rparr>"

text \<open>\<^verbatim>\<open>Buffer(sz size)\<close>: a fresh allocation, cleared by \<^verbatim>\<open>memset\<close>.\<close>

definition Buffer_sized :: "mem \<Rightarrow> sz \<Rightarrow> mem \<times> Buffer" where
  "Buffer_sized m n =
     (m @ [replicate (unat n) 0], \<lparr>buf_shared = Some (length m), buf_offset = 0, buf_size = n\<rparr>)"

text \<open>
  \<^verbatim>\<open>Buffer(const std::vector<u8> &, std::optional<sz>)\<close>: copies as many bytes as it was
  told to, whatever the length of the vector.
\<close>

definition Buffer_vector :: "mem \<Rightarrow> u8 list \<Rightarrow> sz option \<Rightarrow> (mem \<times> Buffer) res" where
  "Buffer_vector m vec n =
     (let k = (case n of Some k \<Rightarrow> k | None \<Rightarrow> of_nat (length vec))
      in if unat k \<le> length vec
         then Inr (m @ [take (unat k) vec], \<lparr>buf_shared = Some (length m), buf_offset = 0, buf_size = k\<rparr>)
         else Inl Undefined_behaviour)"

text \<open>\<^verbatim>\<open>data()[idx]\<close> read and written through \<^verbatim>\<open>operator[]\<close>: no test against \<^verbatim>\<open>_size\<close>.\<close>

definition buffer_at :: "mem \<Rightarrow> Buffer \<Rightarrow> sz \<Rightarrow> u8 res" where
  "buffer_at m b idx =
     rbind (of_access (mem_load m (buf_shared b) (unat (buf_offset b) + unat idx) 1)) (\<lambda>xs. Inr (hd xs))"

definition buffer_put :: "mem \<Rightarrow> Buffer \<Rightarrow> sz \<Rightarrow> u8 \<Rightarrow> mem res" where
  "buffer_put m b idx v =
     of_access (mem_store m (buf_shared b) (unat (buf_offset b) + unat idx) [v])"

definition slice :: "Buffer \<Rightarrow> sz \<Rightarrow> sz \<Rightarrow> Buffer" where
  "slice b from to = b\<lparr>buf_offset := buf_offset b + from, buf_size := to - from\<rparr>"

definition slice_to :: "Buffer \<Rightarrow> sz \<Rightarrow> Buffer" where
  "slice_to b len = slice b 0 len"

section \<open>Well-formed buffers and their contents\<close>

text \<open>
  The window lies inside its allocation. No C++ object is larger than \<^verbatim>\<open>PTRDIFF_MAX\<close>,
  which bounds every allocation.
\<close>

fun buffer_ok :: "mem \<times> Buffer \<Rightarrow> bool" where
  "buffer_ok (m, b) =
     (case buf_shared b of
        None \<Rightarrow> buf_size b = 0
      | Some a \<Rightarrow> a < length m \<and> length (m ! a) < 2 ^ 63 \<and>
                  unat (buf_offset b) + unat (buf_size b) \<le> length (m ! a))"

fun buffer_bytes :: "mem \<times> Buffer \<Rightarrow> u8 list" where
  "buffer_bytes (m, b) =
     (case buf_shared b of
        None \<Rightarrow> []
      | Some a \<Rightarrow> take (unat (buf_size b)) (drop (unat (buf_offset b)) (m ! a)))"

lemma length_buffer_bytes [simp]:
  "buffer_ok (m, b) \<Longrightarrow> length (buffer_bytes (m, b)) = unat (buf_size b)"
  by (auto split: option.splits)

lemma buffer_ok_small: "buffer_ok (m, b) \<Longrightarrow> unat (buf_size b) < 2 ^ 63"
  by (auto split: option.splits)

lemma Buffer_default_ok [simp]: "buffer_ok (m, Buffer_default)" "buffer_bytes (m, Buffer_default) = []"
  by (simp_all add: Buffer_default_def)

lemma Buffer_span_ok:
  "length span < 2 ^ 63 \<Longrightarrow> buffer_ok (Buffer_span m span) \<and> buffer_bytes (Buffer_span m span) = span"
  by (simp add: Buffer_span_def word_bounds)

lemma Buffer_sized_ok:
  "unat n < 2 ^ 63 \<Longrightarrow>
     buffer_ok (Buffer_sized m n) \<and> buffer_bytes (Buffer_sized m n) = replicate (unat n) 0"
  by (simp add: Buffer_sized_def)

lemma Buffer_vector_ok:
  assumes "length vec < 2 ^ 63" and "Buffer_vector m vec n = Inr r"
  shows "buffer_ok r \<and> buffer_bytes r = take (case n of Some k \<Rightarrow> unat k | None \<Rightarrow> length vec) vec"
  using assms by (auto simp: Buffer_vector_def Let_def word_bounds split: option.splits if_splits)

text \<open>Allocating never disturbs a buffer that was well formed before.\<close>

lemma buffer_frame_alloc:
  "buffer_ok (m, b) \<Longrightarrow> buffer_ok (m @ m', b) \<and> buffer_bytes (m @ m', b) = buffer_bytes (m, b)"
  by (auto simp: nth_append split: option.splits)

section \<open>Slices\<close>

lemma unat_add_small:
  fixes a b :: sz
  shows "unat a + unat b < 2 ^ 64 \<Longrightarrow> unat (a + b) = unat a + unat b"
  by (simp add: unat_word_ariths)

lemma slice_window:
  assumes "buffer_ok (m, b)" and "from \<le> to" and "to \<le> buf_size b"
  shows "unat (to - from) = unat to - unat from"
    and "buf_shared b = Some a \<Longrightarrow> unat (buf_offset b + from) = unat (buf_offset b) + unat from"
    and "unat from \<le> unat to" and "unat to \<le> unat (buf_size b)"
proof -
  show le: "unat from \<le> unat to" "unat to \<le> unat (buf_size b)"
    using assms(2,3) by (simp_all add: word_le_nat_alt)
  show "unat (to - from) = unat to - unat from"
    using assms(2) by (simp add: unat_sub)
  assume "buf_shared b = Some a"
  with assms(1) le have "unat (buf_offset b) + unat from < 2 ^ 64" by simp
  then show "unat (buf_offset b + from) = unat (buf_offset b) + unat from"
    by (rule unat_add_small)
qed

lemma slice_ok:
  assumes "buffer_ok (m, b)" and "from \<le> to" and "to \<le> buf_size b"
  shows "buffer_ok (m, slice b from to)"
  using assms slice_window [OF assms] by (auto simp: slice_def split: option.splits)

lemma slice_bytes:
  assumes "buffer_ok (m, b)" and "from \<le> to" and "to \<le> buf_size b"
  shows "buffer_bytes (m, slice b from to) =
           take (unat to - unat from) (drop (unat from) (buffer_bytes (m, b)))"
proof (cases "buf_shared b")
  case None
  then show ?thesis by (simp add: slice_def)
next
  case (Some a)
  note w = slice_window [OF assms]
  have "min (unat to - unat from) (unat (buf_size b) - unat from) = unat to - unat from"
    using w(3,4) by simp
  with Some w(1) w(2) [OF Some] show ?thesis
    by (simp add: slice_def drop_take add.commute)
qed

lemma slice_slice:
  "slice (slice b i j) k l = slice b (i + k) (i + l)"
  by (simp add: slice_def algebra_simps)

lemmas buffer_defs = buffer_ok.simps buffer_bytes.simps

text \<open>Loads and stores inside the window of a well-formed buffer.\<close>

lemma buffer_load:
  assumes "buffer_ok (m, b)" and "i + n \<le> unat (buf_size b)"
  shows "mem_load m (buf_shared b) (unat (buf_offset b) + i) n = Some (take n (drop i (buffer_bytes (m, b))))"
proof (cases "buf_shared b")
  case None
  with assms show ?thesis by (simp add: mem_load_def)
next
  case (Some a)
  have "min n (unat (buf_size b) - i) = n" using assms(2) by simp
  with assms Some show ?thesis
    by (simp add: mem_load_def drop_take add.commute)
qed

lemma buffer_load_all:
  "buffer_ok (m, b) \<Longrightarrow>
     mem_load m (buf_shared b) (unat (buf_offset b)) (unat (buf_size b)) = Some (buffer_bytes (m, b))"
  using buffer_load [of m b 0 "unat (buf_size b)"] by (simp del: buffer_defs)

lemma buffer_store:
  assumes "buffer_ok (m, b)" and "i + length xs \<le> unat (buf_size b)"
  shows "\<exists>m'. mem_store m (buf_shared b) (unat (buf_offset b) + i) xs = Some m' \<and> buffer_ok (m', b) \<and>
           buffer_bytes (m', b) = overwrite (buffer_bytes (m, b)) i xs"
proof (cases "buf_shared b")
  case None
  with assms show ?thesis by (simp add: mem_store_def)
next
  case (Some a)
  let ?o = "unat (buf_offset b)"
  let ?n = "unat (buf_size b)"
  have fit: "?o + i + length xs \<le> length (m ! a)" and a: "a < length m"
    using assms Some by auto
  have "take ?n (drop ?o (overwrite (m ! a) (?o + i) xs)) = overwrite (take ?n (drop ?o (m ! a))) i xs"
    using fit assms Some by (intro nth_equalityI) (auto simp: nth_overwrite)
  then show ?thesis
    using fit a assms Some by (simp add: mem_store_def add.assoc)
qed

declare buffer_defs [simp del]

section \<open>Properties\<close>

text \<open>
  C20: a slice inside a buffer is a window on the same bytes. It reads the bytes \<open>from\<close> to \<open>to\<close> of
  the parent, a byte stored through it is seen through the parent at the shifted position,
  every other byte of the parent and every buffer of another allocation stay as they were.
\<close>

theorem slice_aliases:
  assumes "buffer_ok (m, b)" and "from \<le> to" and "to \<le> buf_size b" and "idx < to - from"
  shows "buffer_bytes (m, slice b from to) = take (unat to - unat from) (drop (unat from) (buffer_bytes (m, b))) \<and>
     (\<exists>m'. buffer_put m (slice b from to) idx v = Inr m' \<and> buffer_ok (m', b) \<and>
        buffer_bytes (m', b) = (buffer_bytes (m, b))[unat from + unat idx := v] \<and>
        buffer_at m' b (from + idx) = Inr v \<and>
        (buf_shared c \<noteq> buf_shared b \<longrightarrow> buffer_bytes (m', c) = buffer_bytes (m, c)))"
proof -
  note w = slice_window [OF assms(1-3)]
  have idx: "unat from + unat idx < unat (buf_size b)"
    using w(1,3,4) assms(4) by (simp add: word_less_nat_alt)
  then have sum: "unat (from + idx) = unat from + unat idx"
    using buffer_ok_small [OF assms(1)] by (intro unat_add_small) simp
  obtain a where a: "buf_shared b = Some a"
    using assms(1) idx by (cases "buf_shared b") (simp_all add: buffer_ok.simps)
  have put: "buffer_put m (slice b from to) idx v = of_access (mem_store m (buf_shared b) (unat (buf_offset b) + (unat from + unat idx)) [v])"
    using w(2) [OF a] by (simp add: buffer_put_def slice_def add.assoc)
  obtain m' where m': "mem_store m (buf_shared b) (unat (buf_offset b) + (unat from + unat idx)) [v] = Some m'"
    "buffer_ok (m', b)" "buffer_bytes (m', b) = overwrite (buffer_bytes (m, b)) (unat from + unat idx) [v]"
    using buffer_store [OF assms(1), of "unat from + unat idx" "[v]"] idx by auto
  have bytes: "buffer_bytes (m', b) = (buffer_bytes (m, b))[unat from + unat idx := v]"
    using m'(3) idx assms(1) by (simp add: overwrite_def upd_conv_take_nth_drop)
  have "buffer_at m' b (from + idx) = Inr v"
    using buffer_load [OF m'(2), of "unat from + unat idx" 1] idx assms(1)
    by (simp add: buffer_at_def sum bytes hd_drop_conv_nth)
  moreover have "buffer_bytes (m', c) = buffer_bytes (m, c)" if "buf_shared c \<noteq> buf_shared b"
    using m'(1) that a by (auto simp: mem_store_def buffer_bytes.simps split: if_splits option.splits)
  ultimately show ?thesis
    using put m' bytes slice_bytes [OF assms(1-3)] by simp
qed

theorem slice_aliases_witness:
  "\<exists>m'. buffer_put [[1, 2, 3, 4]] (slice \<lparr>buf_shared = Some 0, buf_offset = 0, buf_size = 4\<rparr> 1 3) 1 9 = Inr m' \<and>
     buffer_bytes (m', \<lparr>buf_shared = Some 0, buf_offset = 0, buf_size = 4\<rparr>) = [1, 2, 9, 4]"
proof -
  let ?b = "\<lparr>buf_shared = Some 0, buf_offset = 0, buf_size = 4\<rparr> :: Buffer"
  have "buffer_ok ([[1, 2, 3, 4]], ?b)" "buffer_bytes ([[1, 2, 3, 4]], ?b) = [1, 2, 3, 4]"
    by (simp_all add: buffer_defs)
  with slice_aliases [of "[[1, 2, 3, 4]]" ?b 1 3 1 9] show ?thesis by auto
qed

text \<open>
  A buffer made from a vector holds a copy of its first bytes in a fresh allocation, as
  many as asked for, and the buffers that were there are untouched. Asking for more than the
  vector holds reads past its end; nothing tests for it.
\<close>

theorem Buffer_vector_spec:
  assumes "length vec < 2 ^ 63"
  shows "case Buffer_vector m vec n of
       Inr (m', b) \<Rightarrow> buffer_ok (m', b) \<and> buf_shared b = Some (length m) \<and>
         buffer_bytes (m', b) = take (case n of Some k \<Rightarrow> unat k | None \<Rightarrow> length vec) vec \<and>
         (buffer_ok (m, c) \<longrightarrow> buffer_ok (m', c) \<and> buffer_bytes (m', c) = buffer_bytes (m, c))
     | Inl e \<Rightarrow> e = Undefined_behaviour \<and> (\<exists>k. n = Some k \<and> unat k > length vec)"
proof (cases "Buffer_vector m vec n")
  case (Inl e)
  then show ?thesis
    using assms by (auto simp: Buffer_vector_def Let_def word_bounds split: option.splits if_splits)
next
  case (Inr r)
  obtain m' b where r: "r = (m', b)" by (cases r)
  have "\<exists>xs. m' = m @ [xs]" "buf_shared b = Some (length m)"
    using Inr r by (auto simp: Buffer_vector_def Let_def split: option.splits if_splits)
  then show ?thesis
    using Inr r Buffer_vector_ok [OF assms Inr] buffer_frame_alloc [of m c] by auto
qed

theorem Buffer_vector_spec_witness:
  "case Buffer_vector [] [1, 2, 3] (Some 2) of Inr (m', b) \<Rightarrow> buffer_bytes (m', b) = [1, 2] | Inl e \<Rightarrow> False"
  using Buffer_vector_spec [where vec = "[1, 2, 3]" and m = "[]" and n = "Some 2"]
  by (auto split: sum.splits)

end
