(* ===== verification/Toad_Bytestream.thy ===== *)
theory Toad_Bytestream
  imports Toad_Buffer
begin

text \<open>
  \<^verbatim>\<open>include/bytes/bytestream.hpp\<close>. The streams are templates over the concept
  \<^verbatim>\<open>ByteBuffer\<close>, so every operation takes the concept's operations as a record
  \<open>'b byte_buffer\<close>; \<open>vector_ops\<close> and \<open>buffer_ops\<close> are its two models in the
  code, \<^verbatim>\<open>std::vector<u8>\<close> and \<^verbatim>\<open>Buffer\<close>. A stream holds a reference to its
  buffer, which other code may grow meanwhile, so the buffer is an argument of each operation
  and not a field of the stream. An output parameter is passed in and returned: a read that
  fails leaves it as it was.

  The locale \<open>byte_buffer_laws\<close> is the contract of the concept. Its lemmas show that a
  stream over any such buffer behaves as the stream over the list of its bytes, and the two
  interpretations discharge the contract for the code's own buffers.
\<close>

section \<open>The concept ByteBuffer and its models\<close>

record 'b byte_buffer =
  bb_size :: "'b \<Rightarrow> sz"
  bb_load :: "'b \<Rightarrow> nat \<Rightarrow> nat \<Rightarrow> u8 list option"
  bb_store :: "'b \<Rightarrow> nat \<Rightarrow> u8 list \<Rightarrow> 'b option"

definition vector_ops :: "u8 list byte_buffer" where
  "vector_ops =
     \<lparr>bb_size = (\<lambda>v. of_nat (length v)),
      bb_load = (\<lambda>v i n. if i + n \<le> length v then Some (take n (drop i v)) else None),
      bb_store = (\<lambda>v i xs. if i + length xs \<le> length v then Some (overwrite v i xs) else None)\<rparr>"

definition buffer_ops :: "(mem \<times> Buffer) byte_buffer" where
  "buffer_ops =
     \<lparr>bb_size = (\<lambda>(m, b). buf_size b),
      bb_load = (\<lambda>(m, b) i n. mem_load m (buf_shared b) (unat (buf_offset b) + i) n),
      bb_store = (\<lambda>(m, b) i xs.
        map_option (\<lambda>m'. (m', b)) (mem_store m (buf_shared b) (unat (buf_offset b) + i) xs))\<rparr>"

section \<open>ByteIStream\<close>

datatype ByteStreamErrorCode = Ok | NotEnoughData

record istream =
  is_cursor :: sz
  is_last_size :: sz
  is_errc :: ByteStreamErrorCode

definition ByteIStream :: istream where
  "ByteIStream = \<lparr>is_cursor = 0, is_last_size = 0, is_errc = Ok\<rparr>"

definition remaining :: "'b byte_buffer \<Rightarrow> 'b \<Rightarrow> istream \<Rightarrow> sz" where
  "remaining ops buf s = bb_size ops buf - is_cursor s"

text \<open>The \<^verbatim>\<open>else\<close> branch that all the reads share.\<close>

definition read_fail :: "istream \<Rightarrow> sz \<Rightarrow> istream" where
  "read_fail s n = s\<lparr>is_errc := NotEnoughData, is_last_size := n\<rparr>"

text \<open>\<^verbatim>\<open>buffer.data()[cursor++]\<close>\<close>

definition next_byte :: "'b byte_buffer \<Rightarrow> 'b \<Rightarrow> istream \<Rightarrow> (istream \<times> u8) res" where
  "next_byte ops buf s =
     rbind (of_access (bb_load ops buf (unat (is_cursor s)) 1))
       (\<lambda>xs. Inr (s\<lparr>is_cursor := is_cursor s + 1\<rparr>, hd xs))"

definition read_u8 :: "'b byte_buffer \<Rightarrow> 'b \<Rightarrow> istream \<Rightarrow> u8 \<Rightarrow> (istream \<times> u8) res" where
  "read_u8 ops buf s out =
     (if is_cursor s + 1 \<le> bb_size ops buf then next_byte ops buf s
      else Inr (read_fail s 1, out))"

definition read_u16 :: "'b byte_buffer \<Rightarrow> 'b \<Rightarrow> istream \<Rightarrow> u16 \<Rightarrow> (istream \<times> u16) res" where
  "read_u16 ops buf s out =
     (if is_cursor s + 2 \<le> bb_size ops buf then
        rbind (next_byte ops buf s) (\<lambda>(s, hi).
        rbind (next_byte ops buf s) (\<lambda>(s, lo).
        Inr (s, push_bit 8 (ucast hi) OR ucast lo)))
      else Inr (read_fail s 2, out))"

text \<open>The length of the array is a template argument.\<close>

definition read_array :: "'b byte_buffer \<Rightarrow> 'b \<Rightarrow> istream \<Rightarrow> sz \<Rightarrow> u8 list \<Rightarrow> (istream \<times> u8 list) res" where
  "read_array ops buf s n out =
     (if is_cursor s + n \<le> bb_size ops buf then
        rbind (of_access (bb_load ops buf (unat (is_cursor s)) (unat n))) (\<lambda>xs.
        Inr (s\<lparr>is_cursor := is_cursor s + n\<rparr>, xs))
      else Inr (read_fail s n, out))"

text \<open>\<^verbatim>\<open>vec->resize(size)\<close> throws above \<^verbatim>\<open>max_size()\<close>, which is \<^verbatim>\<open>PTRDIFF_MAX\<close> for bytes.\<close>

definition vector_max_size :: nat where
  "vector_max_size = 2 ^ 63 - 1"

definition vector_resize :: "u8 list \<Rightarrow> sz \<Rightarrow> u8 list res" where
  "vector_resize v n =
     (if unat n > vector_max_size then Inl Length_error
      else Inr (take (unat n) v @ replicate (unat n - length v) 0))"

definition read_vector :: "'b byte_buffer \<Rightarrow> 'b \<Rightarrow> istream \<Rightarrow> u8 list \<Rightarrow> sz option \<Rightarrow> (istream \<times> u8 list) res" where
  "read_vector ops buf s vec count =
     (let n = (case count of Some k \<Rightarrow> k | None \<Rightarrow> of_nat (length vec)) in
      if is_cursor s + n \<le> bb_size ops buf then
        rbind (vector_resize vec n) (\<lambda>vec.
        rbind (of_access (bb_load ops buf (unat (is_cursor s)) (unat n))) (\<lambda>xs.
        Inr (s\<lparr>is_cursor := is_cursor s + n\<rparr>, overwrite vec 0 xs)))
      else Inr (read_fail s n, vec))"

text \<open>\<^verbatim>\<open>read_buffer\<close> has no implementation: it asserts \<^verbatim>\<open>false\<close>.\<close>

definition read_buffer :: "istream \<Rightarrow> Buffer \<Rightarrow> (istream \<times> Buffer) res" where
  "read_buffer s out = ASSERT False (Inr (s, out))"

section \<open>ByteOStream\<close>

record ostream =
  os_cursor :: sz
  os_errc :: ByteStreamErrorCode

definition ByteOStream :: ostream where
  "ByteOStream = \<lparr>os_cursor = 0, os_errc = Ok\<rparr>"

text \<open>\<^verbatim>\<open>buffer.data()[cursor++] = value\<close>\<close>

definition put_byte :: "'b byte_buffer \<Rightarrow> 'b \<times> ostream \<Rightarrow> u8 \<Rightarrow> ('b \<times> ostream) res" where
  "put_byte ops = (\<lambda>(buf, s) v.
     rbind (of_access (bb_store ops buf (unat (os_cursor s)) [v])) (\<lambda>buf.
     Inr (buf, s\<lparr>os_cursor := os_cursor s + 1\<rparr>)))"

definition write_u8 :: "'b byte_buffer \<Rightarrow> 'b \<times> ostream \<Rightarrow> u8 \<Rightarrow> ('b \<times> ostream) res" where
  "write_u8 ops = (\<lambda>(buf, s) v.
     if os_cursor s + 1 \<le> bb_size ops buf then put_byte ops (buf, s) v
     else Inr (buf, s\<lparr>os_errc := NotEnoughData\<rparr>))"

definition write_u16 :: "'b byte_buffer \<Rightarrow> 'b \<times> ostream \<Rightarrow> u16 \<Rightarrow> ('b \<times> ostream) res" where
  "write_u16 ops = (\<lambda>(buf, s) v.
     if os_cursor s + 2 \<le> bb_size ops buf then
       rbind (put_byte ops (buf, s) (ucast (drop_bit 8 v AND 0xFF))) (\<lambda>bs.
       put_byte ops bs (ucast (v AND 0xFF)))
     else Inr (buf, s\<lparr>os_errc := NotEnoughData\<rparr>))"

text \<open>\<^verbatim>\<open>memcpy\<close> to the cursor, then the cursor moves: the body of the three bulk writes.\<close>

definition put_bytes :: "'b byte_buffer \<Rightarrow> 'b \<times> ostream \<Rightarrow> sz \<Rightarrow> u8 list \<Rightarrow> ('b \<times> ostream) res" where
  "put_bytes ops = (\<lambda>(buf, s) n xs.
     rbind (of_access (bb_store ops buf (unat (os_cursor s)) xs)) (\<lambda>buf.
     Inr (buf, s\<lparr>os_cursor := os_cursor s + n\<rparr>)))"

definition write_array :: "'b byte_buffer \<Rightarrow> 'b \<times> ostream \<Rightarrow> u8 list \<Rightarrow> ('b \<times> ostream) res" where
  "write_array ops = (\<lambda>(buf, s) arr.
     if os_cursor s + of_nat (length arr) \<le> bb_size ops buf
     then put_bytes ops (buf, s) (of_nat (length arr)) arr
     else Inr (buf, s\<lparr>os_errc := NotEnoughData\<rparr>))"

definition write_vector :: "'b byte_buffer \<Rightarrow> 'b \<times> ostream \<Rightarrow> u8 list \<Rightarrow> ('b \<times> ostream) res" where
  "write_vector ops = (\<lambda>(buf, s) vec.
     if os_cursor s + of_nat (length vec) \<le> bb_size ops buf
     then put_bytes ops (buf, s) (of_nat (length vec)) vec
     else Inr (buf, s\<lparr>os_errc := NotEnoughData\<rparr>))"

text \<open>\<open>m\<close> is the store the source buffer lives in.\<close>

definition write_buffer :: "'b byte_buffer \<Rightarrow> 'b \<times> ostream \<Rightarrow> mem \<Rightarrow> Buffer \<Rightarrow> ('b \<times> ostream) res" where
  "write_buffer ops = (\<lambda>(buf, s) m src.
     if os_cursor s + buf_size src \<le> bb_size ops buf then
       rbind (of_access (mem_load m (buf_shared src) (unat (buf_offset src)) (unat (buf_size src)))) (\<lambda>xs.
       put_bytes ops (buf, s) (buf_size src) xs)
     else Inr (buf, s\<lparr>os_errc := NotEnoughData\<rparr>))"

section \<open>Positions\<close>

text \<open>
  A stream whose cursor stands at byte \<open>p\<close>. The cursor invariant of both streams is that
  it never passes the end of a well-formed buffer; these forms make it visible to the
  simplifier, so a chain of reads or writes evaluates position by position.
\<close>

definition istream_at :: "nat \<Rightarrow> istream \<Rightarrow> istream" where
  "istream_at p s = s\<lparr>is_cursor := of_nat p\<rparr>"

definition ostream_at :: "nat \<Rightarrow> ostream \<Rightarrow> ostream" where
  "ostream_at p s = s\<lparr>os_cursor := of_nat p\<rparr>"

definition be16 :: "u8 \<Rightarrow> u8 \<Rightarrow> u16" where
  "be16 hi lo = push_bit 8 (ucast hi) OR ucast lo"

definition hi8 :: "u16 \<Rightarrow> u8" where
  "hi8 v = ucast (drop_bit 8 v AND 0xFF)"

definition lo8 :: "u16 \<Rightarrow> u8" where
  "lo8 v = ucast (v AND 0xFF)"

lemma istream_at_simps [simp]:
  "istream_at q (istream_at p s) = istream_at q s"
  "is_errc (istream_at p s) = is_errc s"
  "is_cursor (istream_at p s) = of_nat p"
  "(istream_at p s)\<lparr>is_cursor := c\<rparr> = s\<lparr>is_cursor := c\<rparr>"
  "read_fail (istream_at p s) n = istream_at p (read_fail s n)"
  "is_errc (read_fail s n) = NotEnoughData"
  by (simp_all add: istream_at_def read_fail_def)

lemma ostream_at_simps [simp]:
  "ostream_at q (ostream_at p s) = ostream_at q s"
  "os_errc (ostream_at p s) = os_errc s"
  "os_cursor (ostream_at p s) = of_nat p"
  "(ostream_at p s)\<lparr>os_cursor := c\<rparr> = s\<lparr>os_cursor := c\<rparr>"
  "(ostream_at p s)\<lparr>os_errc := e\<rparr> = ostream_at p (s\<lparr>os_errc := e\<rparr>)"
  by (simp_all add: ostream_at_def)

lemma stream_advance:
  "s\<lparr>is_cursor := of_nat p + n\<rparr> = istream_at (p + unat n) s"
  "t\<lparr>os_cursor := of_nat p + n\<rparr> = ostream_at (p + unat n) t"
  by (simp_all add: istream_at_def ostream_at_def)

lemma istream_at_cursor: "istream_at (unat (is_cursor s)) s = s"
  by (simp add: istream_at_def)

lemma ostream_at_cursor: "ostream_at (unat (os_cursor s)) s = s"
  by (simp add: ostream_at_def)

lemma stream_start:
  "ByteIStream = istream_at 0 ByteIStream" "ByteOStream = ostream_at 0 ByteOStream"
  by (simp_all add: istream_at_def ostream_at_def ByteIStream_def ByteOStream_def)

lemma hi_lo_be16 [simp]: "hi8 (be16 a b) = a" "lo8 (be16 a b) = b"
  by (rule bit_word_eqI, auto simp: hi8_def lo8_def be16_def bit_simps mask_literals)+

lemma be16_hi_lo [simp]: "be16 (hi8 v) (lo8 v) = v"
  by (rule bit_word_eqI) (auto simp: hi8_def lo8_def be16_def bit_simps mask_literals)

section \<open>Simulation of writers\<close>

text \<open>
  A writer over some buffer and the same writer over the list of its bytes: they fail
  together or end in states that agree, with the cursor inside the buffer.
\<close>

definition wrel :: "('b \<Rightarrow> bool) \<Rightarrow> ('b \<Rightarrow> u8 list) \<Rightarrow> ('b \<times> ostream) res \<Rightarrow> (u8 list \<times> ostream) res \<Rightarrow> bool" where
  "wrel ok bytes = rel_sum (=)
     (\<lambda>(b, s) (v, t). ok b \<and> v = bytes b \<and> t = s \<and> unat (os_cursor s) \<le> length v)"

named_theorems writer_sim \<open>simulation rules of the stream writers\<close>

lemma wrel_InrI [intro]:
  "ok b \<Longrightarrow> v = bytes b \<Longrightarrow> unat (os_cursor s) \<le> length v \<Longrightarrow> wrel ok bytes (Inr (b, s)) (Inr (v, s))"
  by (simp add: wrel_def)

lemma wrel_bind [writer_sim]:
  assumes "wrel ok bytes r r'"
    and "\<And>b s. ok b \<Longrightarrow> unat (os_cursor s) \<le> length (bytes b) \<Longrightarrow> wrel ok bytes (f (b, s)) (g (bytes b, s))"
  shows "wrel ok bytes (rbind r f) (rbind r' g)"
  using assms by (cases r; cases r') (auto simp: wrel_def)

lemma wrel_InrD:
  assumes "wrel ok bytes r (Inr (v, t))"
  shows "\<exists>b. r = Inr (b, t) \<and> ok b \<and> bytes b = v"
  using assms by (cases r) (auto simp: wrel_def)

section \<open>What a chain of reads or writes needs\<close>

text \<open>
  \<open>consumes len n s r\<close>: the read \<open>r\<close>, started in stream state \<open>s\<close> on a buffer of
  \<open>len\<close> bytes, does not fault, leaves the cursor inside the buffer, and ends with the error
  code \<open>Ok\<close> exactly when it was \<open>Ok\<close> before and \<open>n\<close> more bytes were there. The error code is
  sticky, so the costs of a chain of reads add up; \<open>produces\<close> says the same of writes.
\<close>

definition consumes :: "nat \<Rightarrow> nat \<Rightarrow> istream \<Rightarrow> (istream \<times> 'a) res \<Rightarrow> bool" where
  "consumes len n s r \<longleftrightarrow>
     (\<exists>s' x. r = Inr (s', x) \<and> unat (is_cursor s') \<le> len \<and>
        (is_errc s' = Ok \<longleftrightarrow> is_errc s = Ok \<and> unat (is_cursor s) + n \<le> len) \<and>
        (is_errc s' = Ok \<longrightarrow> unat (is_cursor s') = unat (is_cursor s) + n))"

definition produces :: "nat \<Rightarrow> ostream \<Rightarrow> (u8 list \<times> ostream) res \<Rightarrow> nat \<Rightarrow> bool" where
  "produces len s r n \<longleftrightarrow>
     (\<exists>v' s'. r = Inr (v', s') \<and> length v' = len \<and> unat (os_cursor s') \<le> len \<and>
        (os_errc s' = Ok \<longleftrightarrow> os_errc s = Ok \<and> unat (os_cursor s) + n \<le> len) \<and>
        (os_errc s' = Ok \<longrightarrow> unat (os_cursor s') = unat (os_cursor s) + n))"

named_theorems stream_cost \<open>how many bytes a stream operation needs\<close>

lemma consumes_bind:
  assumes "consumes len n s r"
    and "\<And>s' x. unat (is_cursor s') \<le> len \<Longrightarrow> consumes len m s' (f (s', x))"
  shows "consumes len (n + m) s (rbind r f)"
proof -
  obtain s' x where r: "r = Inr (s', x)" and le: "unat (is_cursor s') \<le> len"
    and a: "is_errc s' = Ok \<longleftrightarrow> is_errc s = Ok \<and> unat (is_cursor s) + n \<le> len"
      "is_errc s' = Ok \<longrightarrow> unat (is_cursor s') = unat (is_cursor s) + n"
    using assms(1) by (auto simp: consumes_def)
  from assms(2) [OF le] a show ?thesis
    unfolding consumes_def r rbind_Inr by (fastforce simp: add.assoc)
qed

lemma consumes_bind_split:
  assumes "consumes len n s r"
    and "\<And>s' x. unat (is_cursor s') \<le> len \<Longrightarrow> consumes len m s' (f s' x)"
  shows "consumes len (n + m) s (rbind r (\<lambda>(s', x). f s' x))"
  using assms by (intro consumes_bind) auto

lemma consumes_return: "unat (is_cursor s) \<le> len \<Longrightarrow> consumes len 0 s (Inr (s, x))"
  by (simp add: consumes_def)

lemma produces_bind:
  assumes "produces len s r n"
    and "\<And>v s'. length v = len \<Longrightarrow> unat (os_cursor s') \<le> len \<Longrightarrow> produces len s' (f (v, s')) m"
  shows "produces len s (rbind r f) (n + m)"
proof -
  obtain v s' where r: "r = Inr (v, s')" and le: "length v = len" "unat (os_cursor s') \<le> len"
    and a: "os_errc s' = Ok \<longleftrightarrow> os_errc s = Ok \<and> unat (os_cursor s) + n \<le> len"
      "os_errc s' = Ok \<longrightarrow> unat (os_cursor s') = unat (os_cursor s) + n"
    using assms(1) by (auto simp: produces_def)
  from assms(2) [OF le] a show ?thesis
    unfolding produces_def r rbind_Inr by (fastforce simp: add.assoc)
qed

section \<open>Composing encoders and decoders\<close>

text \<open>
  \<open>writer w xs\<close>: on a byte list, \<open>w\<close> stores \<open>xs\<close> at the cursor when it fits and needs
  \<open>length xs\<close> bytes. \<open>parses v r xs x\<close>: wherever \<open>xs\<close> stands in \<open>v\<close>, the read \<open>r\<close> started there
  takes it and returns \<open>x\<close>. Both compose along the chains of the code.
\<close>

definition writer :: "(u8 list \<times> ostream \<Rightarrow> (u8 list \<times> ostream) res) \<Rightarrow> u8 list \<Rightarrow> bool" where
  "writer w xs \<longleftrightarrow>
     (\<forall>v s. length v < 2 ^ 63 \<longrightarrow> unat (os_cursor s) \<le> length v \<longrightarrow>
        produces (length v) s (w (v, s)) (length xs) \<and>
        (unat (os_cursor s) + length xs \<le> length v \<longrightarrow>
           w (v, s) = Inr (overwrite v (unat (os_cursor s)) xs, ostream_at (unat (os_cursor s) + length xs) s)))"

definition parses :: "u8 list \<Rightarrow> (istream \<Rightarrow> (istream \<times> 'a) res) \<Rightarrow> u8 list \<Rightarrow> 'a \<Rightarrow> bool" where
  "parses v r xs x \<longleftrightarrow>
     (\<forall>p s. is_errc s = Ok \<longrightarrow> p + length xs \<le> length v \<longrightarrow> take (length xs) (drop p v) = xs \<longrightarrow>
        r (istream_at p s) = Inr (istream_at (p + length xs) s, x))"

named_theorems codec \<open>encoding and decoding rules\<close>

lemma writer_bind [codec]:
  assumes "writer w xs" and "writer w' ys"
  shows "writer (\<lambda>st. rbind (w st) w') (xs @ ys)"
  unfolding writer_def
proof (intro allI impI conjI)
  fix v :: "u8 list" and s :: ostream
  assume v: "length v < 2 ^ 63" and c: "unat (os_cursor s) \<le> length v"
  show "produces (length v) s (rbind (w (v, s)) w') (length (xs @ ys))"
    unfolding length_append
  proof (rule produces_bind)
    show "produces (length v) s (w (v, s)) (length xs)"
      using assms(1) v c by (simp add: writer_def)
    show "produces (length v) s' (w' (v', s')) (length ys)"
      if "length v' = length v" "unat (os_cursor s') \<le> length v" for v' s'
      using assms(2) v that unfolding writer_def by metis
  qed
  assume fit: "unat (os_cursor s) + length (xs @ ys) \<le> length v"
  let ?p = "unat (os_cursor s) + length xs"
  have p: "unat (of_nat ?p :: sz) = ?p"
    using fit v by (intro unat_of_nat_64) simp
  have "w (v, s) = Inr (overwrite v (unat (os_cursor s)) xs, ostream_at ?p s)"
    using assms(1) v c fit by (simp add: writer_def)
  moreover have "w' (overwrite v (unat (os_cursor s)) xs, ostream_at ?p s) =
      Inr (overwrite (overwrite v (unat (os_cursor s)) xs) ?p ys, ostream_at (?p + length ys) s)"
    using assms(2) v fit p unfolding writer_def
    by (metis (no_types, lifting) add_leD1 length_append length_overwrite ostream_at_simps(1,3) add.assoc)
  ultimately show "rbind (w (v, s)) w' =
      Inr (overwrite v (unat (os_cursor s)) (xs @ ys), ostream_at (unat (os_cursor s) + length (xs @ ys)) s)"
    using fit by (simp add: overwrite_overwrite add.assoc)
qed

lemma parses_bind [codec]:
  assumes "parses v r xs x" and "parses v (f x) ys y"
  shows "parses v (\<lambda>s. rbind (r s) (\<lambda>(s, x). f x s)) (xs @ ys) y"
  unfolding parses_def
proof (intro allI impI)
  fix p and s :: istream
  assume e: "is_errc s = Ok" and fit: "p + length (xs @ ys) \<le> length v"
    and at: "take (length (xs @ ys)) (drop p v) = xs @ ys"
  have "take (length xs) (drop p v) = xs" "take (length ys) (drop (p + length xs) v) = ys"
    using at fit by (simp_all add: take_add add.commute)
  then show "rbind (r (istream_at p s)) (\<lambda>(s, x). f x s) = Inr (istream_at (p + length (xs @ ys)) s, y)"
    using assms e fit by (simp add: parses_def add.assoc)
qed

lemma parses_return [codec]: "parses v (\<lambda>s. Inr (s, x)) [] x"
  by (simp add: parses_def)

lemma parses_assert [codec]: "parses v (\<lambda>s. ASSERT (is_errc s = Ok) (Inr (s, x))) [] x"
  by (simp add: parses_def)

section \<open>The contract of the concept\<close>

locale byte_buffer_laws =
  fixes ops :: "'b byte_buffer"
    and ok :: "'b \<Rightarrow> bool"
    and bytes :: "'b \<Rightarrow> u8 list"
  assumes small: "ok b \<Longrightarrow> length (bytes b) < 2 ^ 63"
    and size_law: "ok b \<Longrightarrow> bb_size ops b = of_nat (length (bytes b))"
    and load_law: "ok b \<Longrightarrow> i + n \<le> length (bytes b) \<Longrightarrow> bb_load ops b i n = Some (take n (drop i (bytes b)))"
    and store_defined: "ok b \<Longrightarrow> i + length xs \<le> length (bytes b) \<Longrightarrow> bb_store ops b i xs \<noteq> None"
    and store_ok: "ok b \<Longrightarrow> i + length xs \<le> length (bytes b) \<Longrightarrow> bb_store ops b i xs = Some b' \<Longrightarrow> ok b'"
    and store_bytes: "ok b \<Longrightarrow> i + length xs \<le> length (bytes b) \<Longrightarrow> bb_store ops b i xs = Some b' \<Longrightarrow>
                        bytes b' = overwrite (bytes b) i xs"
begin

lemma size_len: "ok b \<Longrightarrow> unat (bb_size ops b) = length (bytes b)"
  using small [of b] by (simp add: size_law word_bounds)

lemma fits_iff:
  assumes "ok b" and "unat c \<le> length (bytes b)" and "unat n < 2 ^ 63"
  shows "c + n \<le> bb_size ops b \<longleftrightarrow> unat c + unat n \<le> length (bytes b)"
  using assms small [of b] sz_add_le_iff [of c "unat n" "length (bytes b)"]
  by (simp add: size_law)

lemma fits_at:
  assumes "ok b" and "p \<le> length (bytes b)" and "unat n < 2 ^ 63"
  shows "of_nat p + n \<le> bb_size ops b \<longleftrightarrow> p + unat n \<le> length (bytes b)"
  using fits_iff [of b "of_nat p" n] assms small [of b] by (simp add: word_bounds)

lemma next_byte_at:
  "ok b \<Longrightarrow> p + 1 \<le> length (bytes b) \<Longrightarrow>
     next_byte ops b (istream_at p s) = Inr (istream_at (p + 1) s, bytes b ! p)"
  using small [of b]
  by (simp add: next_byte_def load_law word_bounds hd_drop_conv_nth istream_at_def add.commute)

lemma read_u8_at [stream_simps]:
  assumes "ok b" and "p \<le> length (bytes b)"
  shows "read_u8 ops b (istream_at p s) out =
     Inr (if p + 1 \<le> length (bytes b) then (istream_at (p + 1) s, bytes b ! p)
          else (istream_at p (read_fail s 1), out))"
  using fits_at [OF assms, of 1] assms next_byte_at [of b p s] by (simp add: read_u8_def)

lemma read_u16_at [stream_simps]:
  assumes "ok b" and "p \<le> length (bytes b)"
  shows "read_u16 ops b (istream_at p s) out =
     Inr (if p + 2 \<le> length (bytes b) then (istream_at (p + 2) s, be16 (bytes b ! p) (bytes b ! (p + 1)))
          else (istream_at p (read_fail s 2), out))"
  using fits_at [OF assms, of 2] assms next_byte_at [of b p s] next_byte_at [of b "p + 1" s]
  by (simp add: read_u16_def be16_def)

lemma read_array_at [stream_simps]:
  assumes "ok b" and "p \<le> length (bytes b)" and "unat n < 2 ^ 63"
  shows "read_array ops b (istream_at p s) n out =
     Inr (if p + unat n \<le> length (bytes b) then (istream_at (p + unat n) s, take (unat n) (drop p (bytes b)))
          else (istream_at p (read_fail s n), out))"
  using fits_at [OF assms] assms small [of b]
  by (simp add: read_array_def load_law word_bounds stream_advance)

lemma read_vector_at [stream_simps]:
  assumes "ok b" and "p \<le> length (bytes b)"
    and "n = (case count of Some k \<Rightarrow> k | None \<Rightarrow> of_nat (length vec))" and "unat n < 2 ^ 63"
  shows "read_vector ops b (istream_at p s) vec count =
     Inr (if p + unat n \<le> length (bytes b) then (istream_at (p + unat n) s, take (unat n) (drop p (bytes b)))
          else (istream_at p (read_fail s n), vec))"
proof -
  obtain w where w: "vector_resize vec n = Inr w" "length w = unat n"
    using assms(4) by (auto simp: vector_resize_def vector_max_size_def)
  have p: "unat (of_nat p :: sz) = p"
    using assms(2) small [OF assms(1)] by (simp add: unat_of_nat_64)
  show ?thesis
    unfolding read_vector_def Let_def assms(3) [symmetric] istream_at_simps
      fits_at [OF assms(1,2,4)] p w rbind_Inr stream_advance
    by (simp add: load_law [OF assms(1)] w overwrite_def)
qed

lemma remaining_at [stream_simps]:
  "ok b \<Longrightarrow> p \<le> length (bytes b) \<Longrightarrow> remaining ops b (istream_at p s) = of_nat (length (bytes b) - p)"
  by (simp add: remaining_def size_law of_nat_diff)

lemma read_u8_parses [codec]: "ok b \<Longrightarrow> parses (bytes b) (\<lambda>s. read_u8 ops b s out) [x] x"
  by (auto simp: parses_def read_u8_at take_Suc_conv_app_nth hd_drop_conv_nth take_Suc)

lemma read_u16_parses [codec]: "ok b \<Longrightarrow> parses (bytes b) (\<lambda>s. read_u16 ops b s out) [hi8 x, lo8 x] x"
proof -
  assume ok: "ok b"
  have "bytes b ! p = hi8 x \<and> bytes b ! (p + 1) = lo8 x"
    if "p + 2 \<le> length (bytes b)" "take 2 (drop p (bytes b)) = [hi8 x, lo8 x]" for p
    using that nth_take [of 0 2 "drop p (bytes b)"] nth_take [of 1 2 "drop p (bytes b)"] by simp
  with ok show ?thesis
    by (auto simp: parses_def read_u16_at numeral_2_eq_2)
qed

lemma read_array_parses [codec]:
  "ok b \<Longrightarrow> unat n = length xs \<Longrightarrow> parses (bytes b) (\<lambda>s. read_array ops b s n out) xs xs"
  using small [of b] by (auto simp: parses_def read_array_at)

lemma consumesI:
  assumes "ok b" and "unat (is_cursor s) \<le> length (bytes b)"
    and "\<And>p t. p \<le> length (bytes b) \<Longrightarrow> r (istream_at p t) =
       Inr (if p + n \<le> length (bytes b) then (istream_at (p + n) t, x p)
            else (istream_at p (read_fail t k), y))"
  shows "consumes (length (bytes b)) n s (r s)"
proof -
  have "unat (of_nat (unat (is_cursor s) + n) :: sz) = unat (is_cursor s) + n"
    if "unat (is_cursor s) + n \<le> length (bytes b)"
    using that small [OF assms(1)] by (intro unat_of_nat_64) simp
  then show ?thesis
    using assms(3) [OF assms(2), of s] assms(2) by (simp add: consumes_def istream_at_cursor)
qed

lemma read_u8_cost [stream_cost]:
  "ok b \<Longrightarrow> unat (is_cursor s) \<le> length (bytes b) \<Longrightarrow> consumes (length (bytes b)) 1 s (read_u8 ops b s out)"
  by (rule consumesI) (auto simp: read_u8_at)

lemma read_u16_cost [stream_cost]:
  "ok b \<Longrightarrow> unat (is_cursor s) \<le> length (bytes b) \<Longrightarrow> consumes (length (bytes b)) 2 s (read_u16 ops b s out)"
  by (rule consumesI) (auto simp: read_u16_at)

lemma read_array_cost [stream_cost]:
  "ok b \<Longrightarrow> unat (is_cursor s) \<le> length (bytes b) \<Longrightarrow> k = unat n \<Longrightarrow> unat n < 2 ^ 63 \<Longrightarrow>
     consumes (length (bytes b)) k s (read_array ops b s n out)"
  by (hypsubst, rule consumesI) (auto simp: read_array_at)

lemma put_bytes_sim:
  assumes "ok b" and "unat (os_cursor s) + length xs \<le> length (bytes b)" and "n = of_nat (length xs)"
  shows "wrel ok bytes (put_bytes ops (b, s) n xs) (put_bytes vector_ops (bytes b, s) n xs)"
proof -
  obtain b' where b': "bb_store ops b (unat (os_cursor s)) xs = Some b'"
    using store_defined [OF assms(1,2)] by blast
  have "unat (os_cursor s + n) = unat (os_cursor s) + length xs"
    using assms(2,3) small [OF assms(1)] by (simp add: unat_sz_add)
  then show ?thesis
    using assms b' store_ok [OF assms(1,2) b'] store_bytes [OF assms(1,2) b']
    by (auto simp: put_bytes_def vector_ops_def)
qed

lemma put_byte_sim:
  "ok b \<Longrightarrow> unat (os_cursor s) + 1 \<le> length (bytes b) \<Longrightarrow>
     wrel ok bytes (put_byte ops (b, s) x) (put_byte vector_ops (bytes b, s) x)"
  using put_bytes_sim [of b s "[x]" 1] by (simp add: put_byte_def put_bytes_def)

lemma vector_fits_iff:
  assumes "ok b" and "unat c \<le> length (bytes b)" and "unat n < 2 ^ 63"
  shows "c + n \<le> bb_size vector_ops (bytes b) \<longleftrightarrow> unat c + unat n \<le> length (bytes b)"
  using fits_iff [OF assms] assms(1) by (simp add: size_law vector_ops_def)

lemma write_u8_sim [writer_sim]:
  assumes "ok b" and "unat (os_cursor s) \<le> length (bytes b)"
  shows "wrel ok bytes (write_u8 ops (b, s) x) (write_u8 vector_ops (bytes b, s) x)"
  using assms fits_iff [OF assms, of 1] vector_fits_iff [OF assms, of 1] put_byte_sim [of b s x]
  by (auto simp: write_u8_def)

lemma write_u16_sim [writer_sim]:
  assumes "ok b" and "unat (os_cursor s) \<le> length (bytes b)"
  shows "wrel ok bytes (write_u16 ops (b, s) x) (write_u16 vector_ops (bytes b, s) x)"
proof (cases "unat (os_cursor s) + 2 \<le> length (bytes b)")
  case True
  let ?hi = "ucast (drop_bit 8 x AND 0xFF) :: u8"
  have v: "put_byte vector_ops (bytes b, s) ?hi =
      Inr (overwrite (bytes b) (unat (os_cursor s)) [?hi], s\<lparr>os_cursor := os_cursor s + 1\<rparr>)"
    using True by (simp add: put_byte_def vector_ops_def)
  with put_byte_sim [of b s ?hi] assms True obtain b' where b': "put_byte ops (b, s) ?hi = Inr (b', s\<lparr>os_cursor := os_cursor s + 1\<rparr>)" "ok b'"
      "bytes b' = overwrite (bytes b) (unat (os_cursor s)) [?hi]"
    by (auto dest: wrel_InrD)
  have "unat (os_cursor s + 1) = unat (os_cursor s) + 1"
    using True small [OF assms(1)] unat_sz_add [of "os_cursor s" 1] by simp
  then show ?thesis
    using True assms b' fits_iff [OF assms, of 2] vector_fits_iff [OF assms, of 2]
      put_byte_sim [of b' "s\<lparr>os_cursor := os_cursor s + 1\<rparr>" "ucast (x AND 0xFF)"]
    by (simp add: write_u16_def v)
next
  case False
  then show ?thesis
    using assms fits_iff [OF assms, of 2] vector_fits_iff [OF assms, of 2] by (auto simp: write_u16_def)
qed

lemma bulk_sim:
  assumes "ok b" and "unat (os_cursor s) \<le> length (bytes b)" and "length xs < 2 ^ 63"
  shows "wrel ok bytes
     (if os_cursor s + of_nat (length xs) \<le> bb_size ops b then put_bytes ops (b, s) (of_nat (length xs)) xs
      else Inr (b, s\<lparr>os_errc := NotEnoughData\<rparr>))
     (if os_cursor s + of_nat (length xs) \<le> bb_size vector_ops (bytes b)
      then put_bytes vector_ops (bytes b, s) (of_nat (length xs)) xs
      else Inr (bytes b, s\<lparr>os_errc := NotEnoughData\<rparr>))"
  using assms fits_iff [OF assms(1,2), of "of_nat (length xs)"]
    vector_fits_iff [OF assms(1,2), of "of_nat (length xs)"] put_bytes_sim [of b s xs]
  by (auto simp: unat_of_nat_64)

lemma write_array_sim [writer_sim]:
  "ok b \<Longrightarrow> unat (os_cursor s) \<le> length (bytes b) \<Longrightarrow> length xs < 2 ^ 63 \<Longrightarrow>
     wrel ok bytes (write_array ops (b, s) xs) (write_array vector_ops (bytes b, s) xs)"
  using bulk_sim [of b s xs] by (simp add: write_array_def)

lemma write_vector_sim [writer_sim]:
  "ok b \<Longrightarrow> unat (os_cursor s) \<le> length (bytes b) \<Longrightarrow> length xs < 2 ^ 63 \<Longrightarrow>
     wrel ok bytes (write_vector ops (b, s) xs) (write_vector vector_ops (bytes b, s) xs)"
  using bulk_sim [of b s xs] by (simp add: write_vector_def)

lemma write_buffer_sim [writer_sim]:
  assumes "ok b" and "unat (os_cursor s) \<le> length (bytes b)" and "buffer_ok (m, src)"
  shows "wrel ok bytes (write_buffer ops (b, s) m src) (write_buffer vector_ops (bytes b, s) m src)"
proof -
  let ?xs = "buffer_bytes (m, src)"
  have "mem_load m (buf_shared src) (unat (buf_offset src)) (unat (buf_size src)) = Some ?xs"
    using assms(3) by (rule buffer_load_all)
  moreover have "buf_size src = of_nat (length ?xs)" "length ?xs < 2 ^ 63"
    using assms(3) buffer_ok_small [OF assms(3)] by simp_all
  ultimately show ?thesis
    using bulk_sim [OF assms(1,2), of ?xs] by (simp add: write_buffer_def unat_of_nat_64 split del: if_split cong: if_cong)
qed

end

section \<open>The buffers of the code meet the contract\<close>

interpretation vec: byte_buffer_laws vector_ops "\<lambda>v. length v < 2 ^ 63" "\<lambda>v. v"
  by unfold_locales (auto simp: vector_ops_def)

interpretation buf: byte_buffer_laws buffer_ops buffer_ok buffer_bytes
proof unfold_locales
  fix b :: "mem \<times> Buffer" and i n :: nat and xs :: "u8 list" and b'
  assume ok: "buffer_ok b"
  obtain m c where b: "b = (m, c)" by (cases b)
  show "length (buffer_bytes b) < 2 ^ 63"
    using ok b buffer_ok_small [of m c] by simp
  show "bb_size buffer_ops b = of_nat (length (buffer_bytes b))"
    using ok b by (simp add: buffer_ops_def)
  show "bb_load buffer_ops b i n = Some (take n (drop i (buffer_bytes b)))"
    if "i + n \<le> length (buffer_bytes b)"
    using ok b that buffer_load [of m c i n] by (simp add: buffer_ops_def)
  assume le: "i + length xs \<le> length (buffer_bytes b)"
  from buffer_store [of m c i xs] ok b le obtain m' where
    st: "bb_store buffer_ops b i xs = Some (m', c)" "buffer_ok (m', c)"
      "buffer_bytes (m', c) = overwrite (buffer_bytes b) i xs"
    by (auto simp: buffer_ops_def)
  then show "bb_store buffer_ops b i xs \<noteq> None" by simp
  assume "bb_store buffer_ops b i xs = Some b'"
  with st show "buffer_ok b'" "buffer_bytes b' = overwrite (buffer_bytes b) i xs"
    by simp_all
qed

text \<open>
  The same contract with a frame: a stream over the buffer \<open>b0\<close> changes the allocation
  \<open>b0\<close> points into and nothing else of the store \<open>m0\<close>.
\<close>

definition buffer_window :: "mem \<Rightarrow> Buffer \<Rightarrow> mem \<times> Buffer \<Rightarrow> bool" where
  "buffer_window m0 b0 x \<longleftrightarrow> buffer_ok x \<and> snd x = b0 \<and> length (fst x) = length m0 \<and>
     (\<forall>a. buf_shared b0 \<noteq> Some a \<longrightarrow> fst x ! a = m0 ! a)"

lemma mem_store_frame:
  "mem_store m p i xs = Some m' \<Longrightarrow> length m' = length m \<and> (\<forall>a. p \<noteq> Some a \<longrightarrow> m' ! a = m ! a)"
  by (auto simp: mem_store_def split: option.splits if_splits)

lemma buffer_window_start: "buffer_ok (m, b) \<Longrightarrow> buffer_window m b (m, b)"
  by (simp add: buffer_window_def)

lemma buffer_window_frame:
  assumes "buffer_window m0 b0 x" and "buffer_ok (m0, c)" and "buf_shared c \<noteq> buf_shared b0"
  shows "buffer_ok (fst x, c) \<and> buffer_bytes (fst x, c) = buffer_bytes (m0, c)"
  using assms by (auto simp: buffer_window_def buffer_defs split: option.splits)

interpretation win: byte_buffer_laws buffer_ops "buffer_window m0 b0" buffer_bytes for m0 b0
proof unfold_locales
  fix b :: "mem \<times> Buffer" and i n :: nat and xs :: "u8 list" and b'
  assume w: "buffer_window m0 b0 b"
  then have ok: "buffer_ok b" by (simp add: buffer_window_def)
  show "length (buffer_bytes b) < 2 ^ 63" "bb_size buffer_ops b = of_nat (length (buffer_bytes b))"
    using ok by (rule buf.small, rule buf.size_law)
  show "bb_load buffer_ops b i n = Some (take n (drop i (buffer_bytes b)))"
    if "i + n \<le> length (buffer_bytes b)"
    using ok that by (rule buf.load_law)
  assume le: "i + length xs \<le> length (buffer_bytes b)"
  show "bb_store buffer_ops b i xs \<noteq> None"
    using ok le by (rule buf.store_defined)
  assume st: "bb_store buffer_ops b i xs = Some b'"
  show "buffer_bytes b' = overwrite (buffer_bytes b) i xs"
    using ok le st by (rule buf.store_bytes)
  have "buffer_ok b'" using ok le st by (rule buf.store_ok)
  then show "buffer_window m0 b0 b'"
    using w st by (cases b) (auto simp: buffer_ops_def buffer_window_def dest!: mem_store_frame)
qed

section \<open>Writers on byte lists\<close>

lemma put_bytes_vec:
  assumes "p + length xs \<le> length v" and "length v < 2 ^ 63" and "unat n = length xs"
  shows "put_bytes vector_ops (v, ostream_at p s) n xs = Inr (overwrite v p xs, ostream_at (p + length xs) s)"
  using assms stream_advance(2) [where t = s and p = p and n = n]
  by (simp add: put_bytes_def vector_ops_def unat_of_nat_64)

lemma write_array_vec [stream_simps]:
  assumes "p \<le> length v" and "length v < 2 ^ 63" and "length xs < 2 ^ 63"
  shows "write_array vector_ops (v, ostream_at p s) xs =
     Inr (if p + length xs \<le> length v then (overwrite v p xs, ostream_at (p + length xs) s)
          else (v, ostream_at p (s\<lparr>os_errc := NotEnoughData\<rparr>)))"
  using assms vec.fits_at [of v p "of_nat (length xs)"] put_bytes_vec [of p xs v "of_nat (length xs)" s]
  by (simp add: write_array_def unat_of_nat_64)

lemma write_vector_vec [stream_simps]:
  assumes "p \<le> length v" and "length v < 2 ^ 63" and "length xs < 2 ^ 63"
  shows "write_vector vector_ops (v, ostream_at p s) xs =
     Inr (if p + length xs \<le> length v then (overwrite v p xs, ostream_at (p + length xs) s)
          else (v, ostream_at p (s\<lparr>os_errc := NotEnoughData\<rparr>)))"
  using write_array_vec [OF assms, of s] by (simp add: write_vector_def write_array_def)

lemma write_u8_vec [stream_simps]:
  assumes "p \<le> length v" and "length v < 2 ^ 63"
  shows "write_u8 vector_ops (v, ostream_at p s) x =
     Inr (if p + 1 \<le> length v then (overwrite v p [x], ostream_at (p + 1) s)
          else (v, ostream_at p (s\<lparr>os_errc := NotEnoughData\<rparr>)))"
  using assms vec.fits_at [of v p 1] put_bytes_vec [of p "[x]" v 1 s]
  by (simp add: write_u8_def put_byte_def put_bytes_def)

lemma write_u16_vec [stream_simps]:
  assumes "p \<le> length v" and "length v < 2 ^ 63"
  shows "write_u16 vector_ops (v, ostream_at p s) x =
     Inr (if p + 2 \<le> length v then (overwrite v p [hi8 x, lo8 x], ostream_at (p + 2) s)
          else (v, ostream_at p (s\<lparr>os_errc := NotEnoughData\<rparr>)))"
proof (cases "p + 2 \<le> length v")
  case True
  then have "overwrite (overwrite v p [hi8 x]) (p + 1) [lo8 x] = overwrite v p [hi8 x, lo8 x]"
    using overwrite_overwrite [of p "[hi8 x]" "[lo8 x]" v] by simp
  then show ?thesis
    using True assms vec.fits_at [of v p 2] put_bytes_vec [of p "[hi8 x]" v 1 s]
      put_bytes_vec [of "p + 1" "[lo8 x]" "overwrite v p [hi8 x]" 1 s]
    by (simp add: write_u16_def put_byte_def put_bytes_def hi8_def lo8_def)
next
  case False
  then show ?thesis
    using assms vec.fits_at [of v p 2] by (simp add: write_u16_def)
qed

lemma write_buffer_vec [stream_simps]:
  assumes "p \<le> length v" and "length v < 2 ^ 63" and "buffer_ok (m, src)"
  shows "write_buffer vector_ops (v, ostream_at p s) m src =
     Inr (if p + unat (buf_size src) \<le> length v
          then (overwrite v p (buffer_bytes (m, src)), ostream_at (p + unat (buf_size src)) s)
          else (v, ostream_at p (s\<lparr>os_errc := NotEnoughData\<rparr>)))"
proof -
  have fits: "of_nat p + buf_size src \<le> bb_size vector_ops v \<longleftrightarrow> p + unat (buf_size src) \<le> length v"
    using assms(2,1) buffer_ok_small [OF assms(3)] by (rule vec.fits_at)
  have put: "put_bytes vector_ops (v, ostream_at p s) (buf_size src) (buffer_bytes (m, src)) =
      Inr (overwrite v p (buffer_bytes (m, src)), ostream_at (p + unat (buf_size src)) s)"
    if "p + unat (buf_size src) \<le> length v"
    using put_bytes_vec [of p "buffer_bytes (m, src)" v "buf_size src" s,
        unfolded length_buffer_bytes [OF assms(3)], OF that assms(2) refl] .
  show ?thesis
    unfolding write_buffer_def prod.case ostream_at_simps fits
    using put by (simp add: buffer_load_all [OF assms(3)])
qed

lemma producesI:
  assumes "length v < 2 ^ 63" and "unat (os_cursor s) \<le> length v" and "n = length xs"
    and "\<And>p t. p \<le> length v \<Longrightarrow> r (v, ostream_at p t) =
       Inr (if p + n \<le> length v then (overwrite v p xs, ostream_at (p + n) t)
            else (v, ostream_at p (t\<lparr>os_errc := NotEnoughData\<rparr>)))"
  shows "produces (length v) s (r (v, s)) n"
proof -
  have "unat (of_nat (unat (os_cursor s) + n) :: sz) = unat (os_cursor s) + n"
    if "unat (os_cursor s) + n \<le> length v"
    using that assms(1) by (intro unat_of_nat_64) simp
  then show ?thesis
    using assms(4) [OF assms(2), of s] assms(2,3) by (simp add: produces_def ostream_at_cursor)
qed

lemma writerI:
  assumes "\<And>v p s. length v < 2 ^ 63 \<Longrightarrow> p \<le> length v \<Longrightarrow> w (v, ostream_at p s) =
       Inr (if p + length xs \<le> length v then (overwrite v p xs, ostream_at (p + length xs) s)
            else (v, ostream_at p (s\<lparr>os_errc := NotEnoughData\<rparr>)))"
  shows "writer w xs"
  unfolding writer_def
proof (intro allI impI conjI)
  fix v :: "u8 list" and s :: ostream
  assume v: "length v < 2 ^ 63" "unat (os_cursor s) \<le> length v"
  show "produces (length v) s (w (v, s)) (length xs)"
    using v by (rule producesI) (use assms [OF v(1)] in auto)
  show "w (v, s) = Inr (overwrite v (unat (os_cursor s)) xs, ostream_at (unat (os_cursor s) + length xs) s)"
    if "unat (os_cursor s) + length xs \<le> length v"
    using assms [OF v, of s] that by (simp add: ostream_at_cursor)
qed

lemma write_u8_writer [codec]: "writer (\<lambda>st. write_u8 vector_ops st x) [x]"
  by (rule writerI) (simp add: write_u8_vec)

lemma write_u16_writer [codec]: "writer (\<lambda>st. write_u16 vector_ops st x) [hi8 x, lo8 x]"
  by (rule writerI) (simp add: write_u16_vec)

lemma write_array_writer [codec]: "length xs < 2 ^ 63 \<Longrightarrow> writer (\<lambda>st. write_array vector_ops st xs) xs"
  by (rule writerI) (simp add: write_array_vec)

lemma write_buffer_writer [codec]:
  "buffer_ok (m, src) \<Longrightarrow> writer (\<lambda>st. write_buffer vector_ops st m src) (buffer_bytes (m, src))"
  by (rule writerI) (simp add: write_buffer_vec)

end
