(* ===== verification/Toad_Stream_Runs.thy ===== *)
theory Toad_Stream_Runs
  imports Toad_Bytestream
begin

text \<open>
  Whole sequences of stream operations. Every parser and writer of the code is a chain of the
  calls of \<^verbatim>\<open>ByteIStream\<close> and \<^verbatim>\<open>ByteOStream\<close>; here a chain is a list of such calls, and the
  theorems hold for every list: no access leaves the buffer, and the error code at the end says
  exactly whether all of the data was there.
\<close>

section \<open>Chains of calls\<close>

datatype stream_read = Read_u8 | Read_u16 | Read_array sz | Read_vector sz

fun read_need :: "stream_read \<Rightarrow> nat" where
  "read_need Read_u8 = 1"
| "read_need Read_u16 = 2"
| "read_need (Read_array n) = unat n"
| "read_need (Read_vector n) = unat n"

text \<open>One call on zero-initialised outputs, with the bytes it delivers.\<close>

fun run_read :: "'b byte_buffer \<Rightarrow> 'b \<Rightarrow> istream \<Rightarrow> stream_read \<Rightarrow> (istream \<times> u8 list) res" where
  "run_read ops b s Read_u8 = rbind (read_u8 ops b s 0) (\<lambda>(s, x). Inr (s, [x]))"
| "run_read ops b s Read_u16 = rbind (read_u16 ops b s 0) (\<lambda>(s, x). Inr (s, [hi8 x, lo8 x]))"
| "run_read ops b s (Read_array n) = read_array ops b s n (replicate (unat n) 0)"
| "run_read ops b s (Read_vector n) = read_vector ops b s [] (Some n)"

fun run_reads :: "'b byte_buffer \<Rightarrow> 'b \<Rightarrow> istream \<Rightarrow> stream_read list \<Rightarrow> (istream \<times> u8 list) res" where
  "run_reads ops b s [] = Inr (s, [])"
| "run_reads ops b s (c # cs) =
     rbind (run_read ops b s c) (\<lambda>(s, xs). rbind (run_reads ops b s cs) (\<lambda>(s, ys). Inr (s, xs @ ys)))"

datatype stream_write = Write_u8 u8 | Write_u16 u16 | Write_array "u8 list" | Write_vector "u8 list"
  | Write_buffer Buffer

fun run_write :: "'b byte_buffer \<Rightarrow> mem \<Rightarrow> stream_write \<Rightarrow> 'b \<times> ostream \<Rightarrow> ('b \<times> ostream) res" where
  "run_write ops m (Write_u8 x) st = write_u8 ops st x"
| "run_write ops m (Write_u16 x) st = write_u16 ops st x"
| "run_write ops m (Write_array xs) st = write_array ops st xs"
| "run_write ops m (Write_vector xs) st = write_vector ops st xs"
| "run_write ops m (Write_buffer src) st = write_buffer ops st m src"

fun run_writes :: "'b byte_buffer \<Rightarrow> mem \<Rightarrow> stream_write list \<Rightarrow> 'b \<times> ostream \<Rightarrow> ('b \<times> ostream) res" where
  "run_writes ops m [] st = Inr st"
| "run_writes ops m (c # cs) st = rbind (run_write ops m c st) (run_writes ops m cs)"

fun write_data :: "mem \<Rightarrow> stream_write \<Rightarrow> u8 list" where
  "write_data m (Write_u8 x) = [x]"
| "write_data m (Write_u16 x) = [hi8 x, lo8 x]"
| "write_data m (Write_array xs) = xs"
| "write_data m (Write_vector xs) = xs"
| "write_data m (Write_buffer src) = buffer_bytes (m, src)"

fun write_ok :: "mem \<Rightarrow> stream_write \<Rightarrow> bool" where
  "write_ok m (Write_array xs) = (length xs < 2 ^ 63)"
| "write_ok m (Write_vector xs) = (length xs < 2 ^ 63)"
| "write_ok m (Write_buffer src) = buffer_ok (m, src)"
| "write_ok m _ = True"

section \<open>Reads\<close>

context byte_buffer_laws
begin

lemma run_read_at:
  assumes "ok b" and "p \<le> length (bytes b)" and "read_need c < 2 ^ 63"
  shows "\<exists>k y. \<forall>s. run_read ops b (istream_at p s) c =
     Inr (if p + read_need c \<le> length (bytes b) then (istream_at (p + read_need c) s, take (read_need c) (drop p (bytes b)))
          else (istream_at p (read_fail s k), y))"
proof (cases c)
  case Read_u8
  then show ?thesis
    using assms by (auto simp: read_u8_at take_Suc hd_drop_conv_nth)
next
  case Read_u16
  have "take 2 (drop p (bytes b)) = [bytes b ! p, bytes b ! (p + 1)]" if "p + 2 \<le> length (bytes b)"
    using that by (intro nth_equalityI) (auto simp: less_2_cases_iff)
  then show ?thesis
    using assms Read_u16 by (auto simp: read_u16_at)
next
  case (Read_array n)
  then show ?thesis
    using assms by (auto simp: read_array_at)
next
  case (Read_vector n)
  then show ?thesis
    using assms read_vector_at [where b = b and p = p and n = n and count = "Some n" and vec = "[]"] by auto
qed

lemma run_read_cost [stream_cost]:
  assumes "ok b" and "unat (is_cursor s) \<le> length (bytes b)" and "read_need c < 2 ^ 63"
  shows "consumes (length (bytes b)) (read_need c) s (run_read ops b s c)"
proof -
  obtain k y where "run_read ops b (istream_at (unat (is_cursor s)) s) c =
     Inr (if unat (is_cursor s) + read_need c \<le> length (bytes b)
          then (istream_at (unat (is_cursor s) + read_need c) s, take (read_need c) (drop (unat (is_cursor s)) (bytes b)))
          else (istream_at (unat (is_cursor s)) (read_fail s k), y))"
    using run_read_at [OF assms] by blast
  moreover have "unat (of_nat (unat (is_cursor s) + read_need c) :: sz) = unat (is_cursor s) + read_need c"
    if "unat (is_cursor s) + read_need c \<le> length (bytes b)"
    using that small [OF assms(1)] by (intro unat_of_nat_64) simp
  ultimately show ?thesis
    using assms(2) by (simp add: consumes_def istream_at_cursor)
qed

lemma run_reads_cost:
  assumes "ok b" and "unat (is_cursor s) \<le> length (bytes b)" and "\<forall>c\<in>set cs. read_need c < 2 ^ 63"
  shows "consumes (length (bytes b)) (sum_list (map read_need cs)) s (run_reads ops b s cs)"
  using assms(2,3)
proof (induction cs arbitrary: s)
  case Nil
  then show ?case by (simp add: consumes_return)
next
  case (Cons c cs)
  have "consumes (length (bytes b)) (read_need c + (sum_list (map read_need cs) + 0)) s (run_reads ops b s (c # cs))"
    unfolding run_reads.simps
    using Cons assms(1) by (intro consumes_bind_split consumes_return stream_cost Cons.IH) simp_all
  then show ?case by simp
qed

lemma run_reads_at:
  assumes "ok b" and "\<forall>c\<in>set cs. read_need c < 2 ^ 63" and "p + sum_list (map read_need cs) \<le> length (bytes b)"
  shows "run_reads ops b (istream_at p s) cs =
     Inr (istream_at (p + sum_list (map read_need cs)) s, take (sum_list (map read_need cs)) (drop p (bytes b)))"
  using assms(2,3)
proof (induction cs arbitrary: p)
  case (Cons c cs)
  have "run_read ops b (istream_at p s) c =
      Inr (istream_at (p + read_need c) s, take (read_need c) (drop p (bytes b)))"
    using run_read_at [OF assms(1), of p c] Cons.prems by fastforce
  moreover have "run_reads ops b (istream_at (p + read_need c) s) cs =
      Inr (istream_at (p + read_need c + sum_list (map read_need cs)) s,
           take (sum_list (map read_need cs)) (drop (p + read_need c) (bytes b)))"
    using Cons by auto
  ultimately show ?case
    by (simp add: take_add add.assoc) (simp add: add.commute)
qed simp

text \<open>Writes over any buffer do what they do to the list of its bytes.\<close>

lemma run_write_sim [writer_sim]:
  "ok b \<Longrightarrow> unat (os_cursor s) \<le> length (bytes b) \<Longrightarrow> write_ok m c \<Longrightarrow>
     wrel ok bytes (run_write ops m c (b, s)) (run_write vector_ops m c (bytes b, s))"
  by (cases c) (simp_all add: writer_sim)

lemma run_writes_sim:
  "ok b \<Longrightarrow> unat (os_cursor s) \<le> length (bytes b) \<Longrightarrow> \<forall>c\<in>set cs. write_ok m c \<Longrightarrow>
     wrel ok bytes (run_writes ops m cs (b, s)) (run_writes vector_ops m cs (bytes b, s))"
  by (induction cs arbitrary: b s) (auto intro!: writer_sim)

end

section \<open>Writes\<close>

lemma run_write_writer [codec]:
  "write_ok m c \<Longrightarrow> writer (run_write vector_ops m c) (write_data m c)"
  by (rule writerI, cases c)
    (simp_all add: write_u8_vec write_u16_vec write_array_vec write_vector_vec write_buffer_vec)

lemma run_writes_writer:
  "\<forall>c\<in>set cs. write_ok m c \<Longrightarrow> writer (run_writes vector_ops m cs) (concat (map (write_data m) cs))"
proof (induction cs)
  case Nil
  show ?case
    by (rule writerI) simp
next
  case (Cons c cs)
  then have "writer (\<lambda>st. rbind (run_write vector_ops m c st) (run_writes vector_ops m cs))
      (write_data m c @ concat (map (write_data m) cs))"
    by (intro writer_bind run_write_writer) simp_all
  then show ?case by simp
qed

section \<open>Properties\<close>

text \<open>
  C5: any sequence of reads on a fresh \<^verbatim>\<open>ByteIStream\<close> over a well-formed \<^verbatim>\<open>Buffer\<close> stays inside the
  buffer. The error code ends as \<^verbatim>\<open>Ok\<close> exactly when the buffer holds as many bytes as the reads
  ask for, and then they delivered its first bytes in order and the cursor stands behind them.
\<close>

theorem istream_reads_spec:
  assumes "buffer_ok b" and "\<forall>c\<in>set cs. read_need c < 2 ^ 63"
  shows "\<exists>s xs. run_reads buffer_ops b ByteIStream cs = Inr (s, xs) \<and>
     unat (is_cursor s) \<le> length (buffer_bytes b) \<and>
     (is_errc s = Ok \<longleftrightarrow> sum_list (map read_need cs) \<le> length (buffer_bytes b)) \<and>
     (is_errc s = Ok \<longrightarrow> xs = take (sum_list (map read_need cs)) (buffer_bytes b) \<and>
        unat (is_cursor s) = sum_list (map read_need cs))"
proof -
  have start: "unat (is_cursor ByteIStream) = 0" "is_errc ByteIStream = Ok"
    by (simp_all add: ByteIStream_def)
  then obtain s xs where r: "run_reads buffer_ops b ByteIStream cs = Inr (s, xs)" "unat (is_cursor s) \<le> length (buffer_bytes b)"
    "is_errc s = Ok \<longleftrightarrow> sum_list (map read_need cs) \<le> length (buffer_bytes b)"
    "is_errc s = Ok \<longrightarrow> unat (is_cursor s) = sum_list (map read_need cs)"
    using buf.run_reads_cost [OF assms(1) _ assms(2), of ByteIStream] by (auto simp: consumes_def)
  moreover have "xs = take (sum_list (map read_need cs)) (buffer_bytes b)" if "is_errc s = Ok"
    using buf.run_reads_at [OF assms, of 0 ByteIStream] r(1,3) that by (simp flip: stream_start)
  ultimately show ?thesis by auto
qed

theorem istream_reads_spec_witness:
  "\<exists>s. run_reads buffer_ops ([[1, 2, 3, 4]], \<lparr>buf_shared = Some 0, buf_offset = 1, buf_size = 3\<rparr>) ByteIStream
     [Read_u8, Read_u16] = Inr (s, [2, 3, 4])"
proof -
  let ?b = "([[1, 2, 3, 4]], \<lparr>buf_shared = Some 0, buf_offset = 1, buf_size = 3\<rparr>) :: mem \<times> Buffer"
  have "buffer_ok ?b" "buffer_bytes ?b = [2, 3, 4]"
    by (simp_all add: buffer_defs)
  with istream_reads_spec [of ?b "[Read_u8, Read_u16]"] show ?thesis by auto
qed



end
