(* ===== verification/Toad_Ifreq.thy ===== *)
theory Toad_Ifreq
  imports Toad_Prelude
begin

text \<open>
  The system calls with which \<^verbatim>\<open>include/nic/mac.hpp\<close> and \<^verbatim>\<open>include/nic/device.hpp\<close> ask for and configure network
  interfaces: the request structure \<^verbatim>\<open>ifreq\<close>, the requests, and the calls as data. The views of the
  union in \<^verbatim>\<open>ifreq\<close> that the code uses on one object are one field each: \<^verbatim>\<open>ifr_addr\<close> and \<^verbatim>\<open>ifr_netmask\<close>, both a
  \<^verbatim>\<open>sockaddr_in\<close>, are the fields \<open>ifr_sin_family\<close> and \<open>ifr_sin_addr\<close>.
\<close>

section \<open>Requests\<close>

abbreviation NUL :: char where
  "NUL \<equiv> CHR 0x00"

record ifreq =
  ifr_name :: string
  ifr_flags :: u16
  ifr_sin_family :: u16
  ifr_sin_addr :: "u8 list"
  ifr_hwaddr :: "u8 list"
  ifr_mtu :: u32

text \<open>After \<^verbatim>\<open>memset\<close>.\<close>

definition ifreq_zero :: ifreq where
  "ifreq_zero = \<lparr>ifr_name = replicate 16 NUL, ifr_flags = 0, ifr_sin_family = 0, ifr_sin_addr = [0, 0, 0, 0],
     ifr_hwaddr = replicate 14 0, ifr_mtu = 0\<rparr>"

datatype ioctl_request = TUNSETIFF | SIOCGIFHWADDR | SIOCSIFADDR | SIOCSIFNETMASK | SIOCGIFFLAGS | SIOCSIFFLAGS | SIOCGIFMTU

datatype syscall = Sys_open string | Sys_socket | Sys_ioctl int ioctl_request ifreq | Sys_close int

section \<open>C strings\<close>

text \<open>
  \<^verbatim>\<open>strncpy(dst, src, n)\<close> copies up to the end of the string but at most \<open>n\<close> characters and fills the rest of the
  \<open>n\<close> with zeros; a source of \<open>n\<close> characters or more leaves no terminator.
\<close>

definition c_string :: "string \<Rightarrow> string" where
  "c_string s = takeWhile (\<lambda>c. c \<noteq> NUL) s"

definition strncpy :: "string \<Rightarrow> string \<Rightarrow> nat \<Rightarrow> string" where
  "strncpy dst src n =
     (let s = take n (c_string src) in s @ replicate (n - length s) NUL @ drop n dst)"

lemma length_strncpy [simp]: "n \<le> length dst \<Longrightarrow> length (strncpy dst src n) = length dst"
  by (simp add: strncpy_def Let_def)

lemma c_string_pad [simp]: "c_string (take n (c_string s) @ replicate k NUL) = take n (c_string s)"
proof -
  have "\<And>c. c \<in> set (take n (c_string s)) \<Longrightarrow> c \<noteq> NUL"
    unfolding c_string_def by (auto dest!: in_set_takeD dest: set_takeWhileD)
  then have "takeWhile (\<lambda>c. c \<noteq> NUL) (take n (c_string s) @ replicate k NUL) =
      take n (c_string s) @ takeWhile (\<lambda>c. c \<noteq> NUL) (replicate k NUL)"
    by (rule takeWhile_append2)
  also have "takeWhile (\<lambda>c. c \<noteq> NUL) (replicate k NUL) = []"
    by (cases k) simp_all
  finally show ?thesis
    by (simp add: c_string_def)
qed

text \<open>The text in an array of \<open>n\<close> characters after the copy is the first \<open>n\<close> characters of the source.\<close>

lemma c_string_strncpy: "length dst = n \<Longrightarrow> c_string (strncpy dst src n) = take n (c_string src)"
  by (simp add: strncpy_def Let_def)

text \<open>An array of \<open>n\<close> characters copied from one of the same size has the same text.\<close>

lemma c_string_strncpy_array:
  assumes "length dst = n" and "length src = n"
  shows "c_string (strncpy dst src n) = c_string src"
proof -
  have "length (c_string src) \<le> n"
    using assms(2) length_takeWhile_le [of _ src] by (simp add: c_string_def)
  then show ?thesis
    using assms(1) by (simp add: c_string_strncpy)
qed

end
