(* ===== verification/Toad_Addr.thy ===== *)
theory Toad_Addr
  imports Toad_Bytestream Toad_Ifreq
begin

text \<open>
  The small types of the packet layer: \<^verbatim>\<open>include/nic/typestate.hpp\<close>, the address types of
  \<^verbatim>\<open>include/nic/mac.hpp\<close> and \<^verbatim>\<open>include/nic/ipv4.hpp\<close> (arrays of 6 and of 4 bytes), and
  the concept \<^verbatim>\<open>Packet\<close> of \<^verbatim>\<open>include/nic/packet.hpp\<close>, stated as the locale that every
  packet type of the code is shown to meet.
\<close>

section \<open>Typestate\<close>

datatype TypestateDirection = DirectionIn | DirectionOut

definition reverse_direction :: "TypestateDirection \<Rightarrow> TypestateDirection" where
  "reverse_direction d = (if d = DirectionIn then DirectionOut else DirectionIn)"

section \<open>Addresses\<close>

type_synonym MAC = "u8 list"
type_synonym IPv4 = "u8 list"

definition mac_ok :: "MAC \<Rightarrow> bool" where
  "mac_ok a \<longleftrightarrow> length a = 6"

definition ipv4_ok :: "IPv4 \<Rightarrow> bool" where
  "ipv4_ok a \<longleftrightarrow> length a = 4"

text \<open>\<^verbatim>\<open>MAC::is_default\<close>: the loop over the six bytes.\<close>

fun is_default_loop :: "MAC \<Rightarrow> nat \<Rightarrow> bool \<Rightarrow> bool" where
  "is_default_loop a 0 z = z"
| "is_default_loop a (Suc k) z = is_default_loop a k (z \<and> a ! (6 - Suc k) = 0)"

definition is_default :: "MAC \<Rightarrow> bool" where
  "is_default a = is_default_loop a 6 True"

text \<open>
  \<^verbatim>\<open>MAC::system_addr\<close>: \<open>sock\<close> is the answer of \<^verbatim>\<open>socket\<close>, \<open>ioctl\<close> that of \<^verbatim>\<open>ioctl\<close>, and \<open>ret\<close> the array as it was
  before any byte was written. The second component lists the system calls in order.
\<close>

definition system_addr ::
  "MAC \<Rightarrow> int \<Rightarrow> (int \<Rightarrow> ioctl_request \<Rightarrow> ifreq \<Rightarrow> int \<times> ifreq) \<Rightarrow> string \<Rightarrow> MAC \<times> syscall list" where
  "system_addr ret sock ioctl device_name =
     (let calls = [Sys_socket] in
      if sock < 0 then (ret, calls)
      else
        let ifr = ifreq_zero\<lparr>ifr_name := strncpy (replicate 16 NUL) device_name 16\<rparr>;
            (res, ifr') = ioctl sock SIOCGIFHWADDR ifr;
            calls = calls @ [Sys_ioctl sock SIOCGIFHWADDR ifr]
        in if res < 0 then (ret, calls @ [Sys_close sock])
           else (take 6 (ifr_hwaddr ifr'), calls @ [Sys_close sock]))"

lemma reverse_direction_involution: "reverse_direction (reverse_direction d) = d"
  by (cases d) (simp_all add: reverse_direction_def)

lemma is_default_iff: "mac_ok a \<Longrightarrow> is_default a \<longleftrightarrow> a = replicate 6 0"
  by (auto simp: is_default_def mac_ok_def numeral_eq_Suc length_Suc_conv)

section \<open>The concept Packet\<close>

text \<open>
  What the code relies on when it puts a packet into a buffer of \<^verbatim>\<open>size()\<close> bytes. \<open>enc\<close> is
  the wire form of a packet, \<open>wr\<close> is \<^verbatim>\<open>try_to_stream\<close> on a byte list and \<open>sz\<close> is
  \<^verbatim>\<open>size()\<close>: the writer produces exactly the wire form at the cursor, and reports failure
  by the error code of the stream when it does not fit.
\<close>

locale packet =
  fixes valid :: "'p \<Rightarrow> bool"
    and enc :: "'p \<Rightarrow> u8 list"
    and wr :: "'p \<Rightarrow> u8 list \<times> ostream \<Rightarrow> (u8 list \<times> ostream) res"
    and pkt_size :: "'p \<Rightarrow> nat"
  assumes enc_size: "valid x \<Longrightarrow> length (enc x) = pkt_size x"
    and wr_writer: "valid x \<Longrightarrow> writer (wr x) (enc x)"
begin

lemma wr_fits:
  assumes "valid x" and "length v < 2 ^ 63" and "p + pkt_size x \<le> length v"
  shows "wr x (v, ostream_at p s) = Inr (overwrite v p (enc x), ostream_at (p + pkt_size x) s)"
proof -
  have p: "unat (of_nat p :: sz) = p"
    using assms(2,3) by (intro unat_of_nat_64) simp
  from wr_writer [OF assms(1)] show ?thesis
    unfolding writer_def using assms enc_size [OF assms(1)] p
    by (metis add_leD1 ostream_at_simps(1,3))
qed

lemma wr_cost:
  "valid x \<Longrightarrow> length v < 2 ^ 63 \<Longrightarrow> unat (os_cursor s) \<le> length v \<Longrightarrow>
     produces (length v) s (wr x (v, s)) (pkt_size x)"
  using wr_writer [of x] enc_size [of x] by (auto simp: writer_def)

lemma wr_exact:
  "valid x \<Longrightarrow> pkt_size x < 2 ^ 63 \<Longrightarrow>
     wr x (replicate (pkt_size x) 0, ByteOStream) = Inr (enc x, ostream_at (pkt_size x) ByteOStream)"
  using wr_fits [of x "replicate (pkt_size x) 0" 0 ByteOStream]
  by (simp add: overwrite_def enc_size flip: stream_start)

lemma wr_overflow:
  assumes "valid x" and "length v < 2 ^ 63" and "length v < pkt_size x"
  shows "\<exists>v' s'. wr x (v, ByteOStream) = Inr (v', s') \<and> os_errc s' = NotEnoughData"
proof -
  have "produces (length v) ByteOStream (wr x (v, ByteOStream)) (pkt_size x)"
    using assms by (intro wr_cost) (simp_all add: ByteOStream_def)
  with assms(3) show ?thesis
    by (auto simp: produces_def ByteOStream_def) (metis ByteStreamErrorCode.exhaust)
qed

end

end
