(* ===== verification/Toad_Arp.thy ===== *)
theory Toad_Arp
  imports Toad_Addr
begin

text \<open>
  \<^verbatim>\<open>include/nic/arp.hpp\<close>: the ARP packet, a template over the hardware and protocol types
  and the lengths of their addresses. The template arguments are the record \<open>arp_type\<close>;
  \<open>ArpIPv4\<close> is the instance the code uses.
\<close>

section \<open>The code\<close>

definition ETHERTYPE_ARP :: u16 where
  [simp]: "ETHERTYPE_ARP = 0x0806"

record arp_type =
  at_htype :: u16
  at_ptype :: u16
  at_hlen :: u8
  at_plen :: u8

definition ArpIPv4 :: arp_type where
  "ArpIPv4 = \<lparr>at_htype = 0x0001, at_ptype = 0x0800, at_hlen = 6, at_plen = 4\<rparr>"

record Arp =
  arp_oper :: u16
  arp_sha :: "u8 list"
  arp_tha :: "u8 list"
  arp_spa :: "u8 list"
  arp_tpa :: "u8 list"

text \<open>The constructor takes the addresses in the order of the wire.\<close>

definition Arp_new :: "u16 \<Rightarrow> u8 list \<Rightarrow> u8 list \<Rightarrow> u8 list \<Rightarrow> u8 list \<Rightarrow> Arp" where
  "Arp_new oper sha spa tha tpa =
     \<lparr>arp_oper = oper, arp_sha = sha, arp_tha = tha, arp_spa = spa, arp_tpa = tpa\<rparr>"

definition arp_header_size :: sz where
  "arp_header_size = 28"

definition arp_size :: "Arp \<Rightarrow> sz" where
  "arp_size a = arp_header_size + 0 + 0"

definition arp_EXPECTED_BUFFER_LENGTH :: "arp_type \<Rightarrow> sz" where
  "arp_EXPECTED_BUFFER_LENGTH t =
     2 + 2 + 2 + 1 + 1 + 2 * ucast (at_plen t) + 2 * ucast (at_hlen t)"

text \<open>
  The two chains of reads of \<^verbatim>\<open>try_from_stream\<close>. \<open>ret\<close> is the packet as the empty constructor
  left it and \<open>u\<close> holds the uninitialised locals; what is parsed of the two types and the two
  lengths is dropped.
\<close>

definition arp_read_fields ::
  "arp_type \<Rightarrow> 'b byte_buffer \<Rightarrow> 'b \<Rightarrow> istream \<Rightarrow> arp_type \<Rightarrow> Arp \<Rightarrow> (istream \<times> Arp) res" where
  "arp_read_fields t ops bytes s u ret =
     rbind (read_u16 ops bytes s (at_htype u)) (\<lambda>(s, parsed_htype).
     rbind (read_u16 ops bytes s (at_ptype u)) (\<lambda>(s, parsed_ptype).
     rbind (read_u8 ops bytes s (at_hlen u)) (\<lambda>(s, parsed_hlen).
     rbind (read_u8 ops bytes s (at_plen u)) (\<lambda>(s, parsed_plen).
     rbind (read_u16 ops bytes s (arp_oper ret)) (\<lambda>(s, oper).
     rbind (read_array ops bytes s (ucast (at_hlen t)) (arp_sha ret)) (\<lambda>(s, sha).
     rbind (read_array ops bytes s (ucast (at_plen t)) (arp_spa ret)) (\<lambda>(s, spa).
     rbind (read_array ops bytes s (ucast (at_hlen t)) (arp_tha ret)) (\<lambda>(s, tha).
     rbind (read_array ops bytes s (ucast (at_plen t)) (arp_tpa ret)) (\<lambda>(s, tpa).
     Inr (s, \<lparr>arp_oper = oper, arp_sha = sha, arp_tha = tha, arp_spa = spa, arp_tpa = tpa\<rparr>))))))))))"

definition arp_try_from_stream ::
  "arp_type \<Rightarrow> 'b byte_buffer \<Rightarrow> 'b \<Rightarrow> istream \<Rightarrow> arp_type \<Rightarrow> Arp \<Rightarrow> (istream \<times> Arp) res" where
  "arp_try_from_stream t ops bytes s u ret =
     rbind (arp_read_fields t ops bytes s u ret) (\<lambda>(s, ret). ASSERT (is_errc s = Ok) (Inr (s, ret)))"

definition arp_try_to_stream :: "arp_type \<Rightarrow> 'b byte_buffer \<Rightarrow> Arp \<Rightarrow> 'b \<times> ostream \<Rightarrow> ('b \<times> ostream) res" where
  "arp_try_to_stream t ops a bytes =
     rbind (write_u16 ops bytes (at_htype t)) (\<lambda>bytes.
     rbind (write_u16 ops bytes (at_ptype t)) (\<lambda>bytes.
     rbind (write_u8 ops bytes (at_hlen t)) (\<lambda>bytes.
     rbind (write_u8 ops bytes (at_plen t)) (\<lambda>bytes.
     rbind (write_u16 ops bytes (arp_oper a)) (\<lambda>bytes.
     rbind (write_array ops bytes (arp_sha a)) (\<lambda>bytes.
     rbind (write_array ops bytes (arp_spa a)) (\<lambda>bytes.
     rbind (write_array ops bytes (arp_tha a)) (\<lambda>bytes.
     write_array ops bytes (arp_tpa a)))))))))"

definition arp_copy_as_response :: "Arp \<Rightarrow> u8 list \<Rightarrow> Arp" where
  "arp_copy_as_response this respond_with_hardware_addr =
     (let oper = 0x0002;
          tha = arp_sha this;
          tpa = arp_spa this;
          sha = respond_with_hardware_addr;
          spa = arp_tpa this
      in Arp_new oper sha spa tha tpa)"

section \<open>The wire form\<close>

definition arp_ok :: "arp_type \<Rightarrow> Arp \<Rightarrow> bool" where
  "arp_ok t a \<longleftrightarrow> length (arp_sha a) = unat (at_hlen t) \<and> length (arp_tha a) = unat (at_hlen t) \<and>
     length (arp_spa a) = unat (at_plen t) \<and> length (arp_tpa a) = unat (at_plen t)"

definition arp_encode :: "arp_type \<Rightarrow> Arp \<Rightarrow> u8 list" where
  "arp_encode t a =
     [hi8 (at_htype t), lo8 (at_htype t)] @ [hi8 (at_ptype t), lo8 (at_ptype t)] @
     [at_hlen t] @ [at_plen t] @ [hi8 (arp_oper a), lo8 (arp_oper a)] @
     arp_sha a @ arp_spa a @ arp_tha a @ arp_tpa a"

definition arp_wire_size :: "arp_type \<Rightarrow> nat" where
  "arp_wire_size t = 8 + 2 * unat (at_hlen t) + 2 * unat (at_plen t)"

lemma arp_expected_length: "unat (arp_EXPECTED_BUFFER_LENGTH t) = arp_wire_size t"
  using unat_u8_less [of "at_hlen t"] unat_u8_less [of "at_plen t"]
  by (simp add: arp_EXPECTED_BUFFER_LENGTH_def arp_wire_size_def unat_word_ariths unat_ucast_u8_sz)

lemma arp_ipv4_sizes: "arp_wire_size ArpIPv4 = 28" "unat (arp_size a) = 28"
  by (simp_all add: arp_wire_size_def ArpIPv4_def arp_size_def arp_header_size_def)

interpretation arp: packet "arp_ok t" "arp_encode t" "arp_try_to_stream t vector_ops" "\<lambda>_. arp_wire_size t"
proof unfold_locales
  fix a
  assume ok: "arp_ok t a"
  then show "length (arp_encode t a) = arp_wire_size t"
    by (simp add: arp_ok_def arp_encode_def arp_wire_size_def)
  have "length (arp_sha a) < 2 ^ 63" "length (arp_tha a) < 2 ^ 63"
    "length (arp_spa a) < 2 ^ 63" "length (arp_tpa a) < 2 ^ 63"
    using ok unat_u8_less [of "at_hlen t"] unat_u8_less [of "at_plen t"] by (simp_all add: arp_ok_def)
  then show "writer (arp_try_to_stream t vector_ops a) (arp_encode t a)"
    unfolding arp_try_to_stream_def arp_encode_def by (intro codec)
qed

section \<open>ARP on any byte buffer\<close>

context byte_buffer_laws
begin

lemma arp_try_to_stream_sim [writer_sim]:
  assumes "ok b" and "unat (os_cursor s) \<le> length (bytes b)" and "arp_ok t a"
  shows "wrel ok bytes (arp_try_to_stream t ops a (b, s)) (arp_try_to_stream t vector_ops a (bytes b, s))"
proof -
  have "length (arp_sha a) < 2 ^ 63" "length (arp_tha a) < 2 ^ 63"
    "length (arp_spa a) < 2 ^ 63" "length (arp_tpa a) < 2 ^ 63"
    using assms(3) unat_u8_less [of "at_hlen t"] unat_u8_less [of "at_plen t"] by (simp_all add: arp_ok_def)
  with assms show ?thesis
    unfolding arp_try_to_stream_def by (intro writer_sim)
qed

lemma arp_read_fields_parses [codec]:
  assumes "ok b" and "arp_ok t a"
  shows "parses (bytes b) (\<lambda>s. arp_read_fields t ops b s u ret) (arp_encode t a) a"
proof -
  have a: "\<lparr>arp_oper = arp_oper a, arp_sha = arp_sha a, arp_tha = arp_tha a, arp_spa = arp_spa a, arp_tpa = arp_tpa a\<rparr> = a"
    by simp
  have "parses (bytes b) (\<lambda>s. arp_read_fields t ops b s u ret) (arp_encode t a @ [])
     \<lparr>arp_oper = arp_oper a, arp_sha = arp_sha a, arp_tha = arp_tha a, arp_spa = arp_spa a, arp_tpa = arp_tpa a\<rparr>"
    unfolding arp_read_fields_def arp_encode_def append_assoc
    by (rule codec | simp add: assms(1) assms(2) [unfolded arp_ok_def] unat_ucast_u8_sz)+
  then show ?thesis unfolding a by simp
qed

lemma arp_try_from_stream_parses:
  assumes "ok b" and "arp_ok t a"
  shows "parses (bytes b) (\<lambda>s. arp_try_from_stream t ops b s u ret) (arp_encode t a) a"
proof -
  have "parses (bytes b) (\<lambda>s. arp_try_from_stream t ops b s u ret) (arp_encode t a @ []) a"
    unfolding arp_try_from_stream_def
    by (rule parses_bind [OF arp_read_fields_parses [OF assms] parses_assert])
  then show ?thesis by simp
qed

lemma arp_read_fields_cost [stream_cost]:
  assumes "ok b" and "unat (is_cursor s) \<le> length (bytes b)"
  shows "consumes (length (bytes b)) (arp_wire_size t) s (arp_read_fields t ops b s u ret)"
proof -
  have small: "unat (at_hlen t) < 2 ^ 63" "unat (at_plen t) < 2 ^ 63"
    using unat_u8_less [of "at_hlen t"] unat_u8_less [of "at_plen t"] by simp_all
  have "consumes (length (bytes b)) (2 + (2 + (1 + (1 + (2 + (unat (at_hlen t) + (unat (at_plen t) +
      (unat (at_hlen t) + (unat (at_plen t) + 0))))))))) s (arp_read_fields t ops b s u ret)"
    unfolding arp_read_fields_def
    by (rule consumes_bind_split consumes_return stream_cost assms
        | assumption | simp only: unat_ucast_u8_sz small)+
  moreover have "(2 + (2 + (1 + (1 + (2 + (unat (at_hlen t) + (unat (at_plen t) +
      (unat (at_hlen t) + (unat (at_plen t) + 0))))))))) = arp_wire_size t"
    by (simp add: arp_wire_size_def)
  ultimately show ?thesis by (simp only:)
qed

lemma arp_too_short:
  assumes "ok b" and "unat (is_cursor s) \<le> length (bytes b)"
    and "length (bytes b) < unat (is_cursor s) + arp_wire_size t"
  shows "arp_try_from_stream t ops b s u ret = Inl Assert_failed"
  using arp_read_fields_cost [OF assms(1,2), of t u ret] assms(3)
  by (auto simp: consumes_def arp_try_from_stream_def)

lemma arp_write:
  assumes "ok b" and "arp_ok t a" and "arp_wire_size t \<le> length (bytes b)"
  shows "\<exists>b'. arp_try_to_stream t ops a (b, ByteOStream) = Inr (b', ostream_at (arp_wire_size t) ByteOStream) \<and>
           ok b' \<and> bytes b' = overwrite (bytes b) 0 (arp_encode t a)"
  using arp_try_to_stream_sim [of b ByteOStream t a] arp.wr_fits [of t a "bytes b" 0 ByteOStream]
    assms small [OF assms(1)]
  by (intro wrel_InrD) (simp add: ByteOStream_def ostream_at_def)

end

lemma arp_parse_ipv4:
  assumes "buffer_ok b" and "is_errc s = Ok" and "p + 28 \<le> length (buffer_bytes b)"
  shows "arp_try_from_stream ArpIPv4 buffer_ops b (istream_at p s) u ret =
     (let bs = drop p (buffer_bytes b) in
        Inr (istream_at (p + 28) s,
             \<lparr>arp_oper = be16 (bs ! 6) (bs ! 7), arp_sha = take 6 (drop 8 bs), arp_tha = take 6 (drop 18 bs),
              arp_spa = take 4 (drop 14 bs), arp_tpa = take 4 (drop 24 bs)\<rparr>))"
  using assms
  by (simp add: arp_try_from_stream_def arp_read_fields_def ArpIPv4_def buf.read_u8_at buf.read_u16_at
        buf.read_array_at Let_def) (simp add: numeral_eq_Suc)

section \<open>Properties\<close>

text \<open>
  C4: an ARP packet of any hardware and protocol type, written into a large enough
  \<^verbatim>\<open>Buffer\<close>, is parsed back from it unchanged, using exactly its wire length.
\<close>

theorem arp_roundtrip:
  assumes "arp_ok t a" and "buffer_ok (m, b)" and "arp_wire_size t \<le> unat (buf_size b)"
  shows "\<exists>out. arp_try_to_stream t buffer_ops a ((m, b), ByteOStream) =
             Inr (out, ostream_at (arp_wire_size t) ByteOStream) \<and>
           arp_try_from_stream t buffer_ops out ByteIStream u ret =
             Inr (istream_at (arp_wire_size t) ByteIStream, a)"
proof -
  from buf.arp_write [OF assms(2,1)] assms(2,3) obtain out where
    w: "arp_try_to_stream t buffer_ops a ((m, b), ByteOStream) = Inr (out, ostream_at (arp_wire_size t) ByteOStream)"
      "buffer_ok out" "buffer_bytes out = overwrite (buffer_bytes (m, b)) 0 (arp_encode t a)"
    by auto
  have n: "length (arp_encode t a) = arp_wire_size t"
    using assms(1) by (rule arp.enc_size)
  have "arp_try_from_stream t buffer_ops out (istream_at 0 ByteIStream) u ret =
      Inr (istream_at (0 + length (arp_encode t a)) ByteIStream, a)"
    using buf.arp_try_from_stream_parses [OF w(2) assms(1), of u ret] w(3) n assms(2,3)
    unfolding parses_def by (simp add: overwrite_def ByteIStream_def)
  with w n show ?thesis by (auto simp flip: stream_start)
qed

theorem arp_roundtrip_witness:
  "\<exists>out. arp_try_to_stream ArpIPv4 buffer_ops
       (Arp_new 1 [1, 2, 3, 4, 5, 6] [10, 0, 0, 1] [0, 0, 0, 0, 0, 0] [10, 0, 0, 2])
       (Buffer_sized [] 28, ByteOStream) = Inr (out, ostream_at 28 ByteOStream) \<and>
     arp_try_from_stream ArpIPv4 buffer_ops out ByteIStream ArpIPv4 (Arp_new 0 [] [] [] []) =
       Inr (istream_at 28 ByteIStream, Arp_new 1 [1, 2, 3, 4, 5, 6] [10, 0, 0, 1] [0, 0, 0, 0, 0, 0] [10, 0, 0, 2])"
  using arp_roundtrip [of ArpIPv4 "Arp_new 1 [1, 2, 3, 4, 5, 6] [10, 0, 0, 1] [0, 0, 0, 0, 0, 0] [10, 0, 0, 2]"
      "fst (Buffer_sized [] 28)" "snd (Buffer_sized [] 28)" ArpIPv4 "Arp_new 0 [] [] [] []"]
    Buffer_sized_ok [of 28 "[]"]
  by (simp add: arp_ok_def Arp_new_def ArpIPv4_def arp_wire_size_def Buffer_sized_def)

text \<open>
  C38: parsing an IPv4-over-Ethernet ARP packet aborts exactly when fewer than 28 bytes remain;
  otherwise it takes 28 bytes and returns the operation and the four addresses at their offsets.
  The hardware and protocol types and lengths in the packet are not looked at.
\<close>

theorem arp_try_from_stream_ipv4:
  assumes "buffer_ok b" and "p \<le> length (buffer_bytes b)" and "is_errc s = Ok"
  shows "arp_try_from_stream ArpIPv4 buffer_ops b (istream_at p s) u ret =
     (let bs = drop p (buffer_bytes b) in
      if 28 \<le> length bs then
        Inr (istream_at (p + 28) s,
             \<lparr>arp_oper = be16 (bs ! 6) (bs ! 7), arp_sha = take 6 (drop 8 bs), arp_tha = take 6 (drop 18 bs),
              arp_spa = take 4 (drop 14 bs), arp_tpa = take 4 (drop 24 bs)\<rparr>)
      else Inl Assert_failed)"
proof (cases "28 \<le> length (drop p (buffer_bytes b))")
  case True
  with arp_parse_ipv4 [OF assms(1,3), of p] show ?thesis
    by (simp add: Let_def)
next
  case False
  have "unat (of_nat p :: sz) = p"
    using assms(2) buf.small [OF assms(1)] by (intro unat_of_nat_64) simp
  with False assms show ?thesis
    using buf.arp_too_short [OF assms(1), of "istream_at p s" ArpIPv4 u ret]
    by (simp add: arp_ipv4_sizes Let_def)
qed

theorem arp_try_from_stream_ipv4_witness:
  "arp_try_from_stream ArpIPv4 buffer_ops (Buffer_sized [] 27) (istream_at 0 ByteIStream) ArpIPv4 (Arp_new 0 [] [] [] []) =
     Inl Assert_failed"
  using arp_try_from_stream_ipv4 [of "Buffer_sized [] 27" 0 ByteIStream ArpIPv4 "Arp_new 0 [] [] [] []"]
    Buffer_sized_ok [of 27 "[]"]
  by (simp add: ByteIStream_def)

text \<open>
  The response to an ARP request is a well-formed reply (operation 2) that sends the
  requested hardware address to the requester: the protocol addresses are exchanged, the target
  is the sender, and answering a response with the original target's address gives the
  request's address pairs back.
\<close>

theorem arp_copy_as_response_spec:
  assumes "arp_ok t a" and "length hw = unat (at_hlen t)"
  shows "arp_ok t (arp_copy_as_response a hw) \<and> arp_oper (arp_copy_as_response a hw) = 2 \<and>
     arp_sha (arp_copy_as_response a hw) = hw \<and> arp_spa (arp_copy_as_response a hw) = arp_tpa a \<and>
     arp_tha (arp_copy_as_response a hw) = arp_sha a \<and> arp_tpa (arp_copy_as_response a hw) = arp_spa a \<and>
     arp_copy_as_response (arp_copy_as_response a hw) (arp_sha a) = a\<lparr>arp_oper := 2, arp_tha := hw\<rparr>"
  using assms by (simp add: arp_copy_as_response_def Arp_new_def arp_ok_def)

theorem arp_copy_as_response_spec_witness:
  "arp_copy_as_response (arp_copy_as_response
      (Arp_new 1 [1, 2, 3, 4, 5, 6] [10, 0, 0, 1] [0, 0, 0, 0, 0, 0] [10, 0, 0, 2]) [9, 9, 9, 9, 9, 9]) [1, 2, 3, 4, 5, 6] =
    Arp_new 2 [1, 2, 3, 4, 5, 6] [10, 0, 0, 1] [9, 9, 9, 9, 9, 9] [10, 0, 0, 2]"
  using arp_copy_as_response_spec [of ArpIPv4
      "Arp_new 1 [1, 2, 3, 4, 5, 6] [10, 0, 0, 1] [0, 0, 0, 0, 0, 0] [10, 0, 0, 2]" "[9, 9, 9, 9, 9, 9]"]
  by (simp add: Arp_new_def arp_ok_def ArpIPv4_def)

end
