(* ===== verification/Toad_Checksum.thy ===== *)
theory Toad_Checksum
  imports Toad_Bytestream
begin

text \<open>
  \<^verbatim>\<open>include/nic/checksum.hpp\<close>: the Internet checksum. The code accumulates big-endian
  16-bit words in a \<^verbatim>\<open>u32\<close> and folds the carry back after each addition. The reference
  is the sum of the words in ones' complement, \<open>ones_sum\<close>, a function of the plain sum
  alone; from it follow that the checksum does not depend on the order of the words, that a
  packet carrying its own checksum sums to zero, and what corruption is detected.
\<close>

section \<open>The code\<close>

record checksum =
  ck_n :: u16

definition checksum_default :: checksum where
  "checksum_default = \<lparr>ck_n = 0\<rparr>"

text \<open>One turn of the loop of \<^verbatim>\<open>checksum(std::span<u8>)\<close>: add the word, carry the overflow.\<close>

definition checksum_step :: "u32 \<Rightarrow> u16 \<Rightarrow> u32" where
  "checksum_step acc word =
     (let acc = acc + ucast word in if acc > 0xFFFF then (acc AND 0xFFFF) + 1 else acc)"

fun checksum_loop :: "u8 list \<Rightarrow> u32 \<Rightarrow> u32" where
  "checksum_loop (hi # lo # span) acc = checksum_loop span (checksum_step acc (be16 hi lo))"
| "checksum_loop _ acc = acc"

definition checksum_span :: "u8 list \<Rightarrow> checksum res" where
  "checksum_span span =
     ASSERT (length span mod 2 = 0) (ASSERT (length span > 0)
       (let acc = checksum_loop span 0;
            acc = (acc AND 0xFFFF) + drop_bit 16 acc
        in Inr \<lparr>ck_n = ucast (NOT acc AND 0xFFFF)\<rparr>))"

text \<open>\<^verbatim>\<open>operator+\<close> and \<^verbatim>\<open>operator+=\<close>\<close>

definition checksum_add :: "checksum \<Rightarrow> checksum \<Rightarrow> checksum" where
  "checksum_add l r =
     (let sum = (ucast (ck_n l) + ucast (ck_n r) :: u32)
      in \<lparr>ck_n = ucast ((sum AND 0xFFFF) + drop_bit 16 sum)\<rparr>)"

definition checksum_add_assign :: "checksum \<Rightarrow> checksum \<Rightarrow> checksum" where
  "checksum_add_assign this rhs = checksum_add this rhs"

text \<open>\<^verbatim>\<open>operator*\<close> and the conversion to \<^verbatim>\<open>u16\<close>\<close>

definition checksum_u16 :: "checksum \<Rightarrow> u16" where
  "checksum_u16 c = ck_n c"

section \<open>The reference: sums in ones' complement\<close>

fun words_of :: "u8 list \<Rightarrow> nat list" where
  "words_of (hi # lo # span) = unat (be16 hi lo) # words_of span"
| "words_of _ = []"

text \<open>
  The representative of a sum in ones' complement of 16 bits: 0 only for the sum 0, and
  otherwise the residue modulo 65535 taken in \<open>1 .. 65535\<close>.
\<close>

definition ones_norm :: "nat \<Rightarrow> nat" where
  "ones_norm s = (if s = 0 then 0 else Suc ((s - 1) mod 65535))"

definition ones_sum :: "nat list \<Rightarrow> nat" where
  "ones_sum ws = ones_norm (sum_list ws)"

lemma ones_norm_le: "ones_norm s \<le> 65535"
  by (simp add: ones_norm_def Suc_le_eq)

lemma ones_norm_id: "s \<le> 65535 \<Longrightarrow> ones_norm s = s"
  by (simp add: ones_norm_def)

lemma ones_norm_add: "ones_norm (ones_norm x + y) = ones_norm (x + y)"
  by (cases x) (simp_all add: ones_norm_def mod_simps)

lemma ones_norm_add_right: "ones_norm (x + ones_norm y) = ones_norm (x + y)"
  using ones_norm_add [of y x] by (simp add: add.commute)

lemma ones_norm_cong: "ones_norm x mod 65535 = x mod 65535"
  by (cases x) (simp_all add: ones_norm_def mod_Suc_eq)

lemma ones_norm_carry:
  "x \<le> 65535 \<Longrightarrow> y \<le> 65535 \<Longrightarrow> ones_norm (x + y) = (if 65535 < x + y then x + y - 65535 else x + y)"
  by (auto simp: ones_norm_def le_mod_geq)

lemma unat_u16_le: "unat (w :: u16) \<le> 65535"
  using unsigned_less [of w, where 'a = nat] by simp

lemma unat_ucast_u32: "unat (ucast (w :: u16) :: u32) = unat w"
  using unat_u16_le [of w] by (simp add: unsigned_ucast_eq take_bit_nat_eq_self)

lemma length_words_of: "length (words_of bs) = length bs div 2"
  by (induction bs rule: words_of.induct) auto

lemma words_of_append:
  "even (length xs) \<Longrightarrow> words_of (xs @ ys) = words_of xs @ words_of ys"
  by (induction xs rule: words_of.induct) auto

section \<open>The loop computes the reference\<close>

lemma checksum_step_eq:
  assumes "unat acc \<le> 65535"
  shows "unat (checksum_step acc w) = ones_norm (unat acc + unat w)"
proof -
  have w: "unat (ucast w :: u32) = unat w" by (rule unat_ucast_u32)
  have s: "unat (acc + ucast w) = unat acc + unat w"
    using assms unat_u16_le [of w] by (simp add: unat_word_ariths w)
  show ?thesis
  proof (cases "65535 < unat acc + unat w")
    case True
    have "unat ((acc + ucast w) AND 0xFFFF) = (unat acc + unat w) mod 65536"
      by (simp only: mask_literals(8) unat_and_mask s) simp
    with True assms unat_u16_le [of w] have "unat ((acc + ucast w) AND 0xFFFF) + 1 = unat acc + unat w - 65535"
      by (simp add: le_mod_geq)
    then have "unat (((acc + ucast w) AND 0xFFFF) + 1) = unat acc + unat w - 65535"
      using assms unat_u16_le [of w] by (simp add: unat_word_ariths)
    with True assms unat_u16_le [of w] s show ?thesis
      by (simp add: checksum_step_def Let_def word_less_nat_alt ones_norm_carry)
  next
    case False
    with assms unat_u16_le [of w] s show ?thesis
      by (simp add: checksum_step_def Let_def word_less_nat_alt ones_norm_carry)
  qed
qed

lemma checksum_loop_eq:
  "unat acc \<le> 65535 \<Longrightarrow> unat (checksum_loop bs acc) = ones_norm (unat acc + sum_list (words_of bs))"
proof (induction bs acc rule: checksum_loop.induct)
  case (1 hi lo span acc)
  then have "unat (checksum_step acc (be16 hi lo)) = ones_norm (unat acc + unat (be16 hi lo))"
    by (simp add: checksum_step_eq)
  with 1 show ?case
    by (simp add: ones_norm_le ones_norm_add add.assoc)
qed (simp_all add: ones_norm_id)

text \<open>The last fold is a no-op: the accumulator already fits 16 bits.\<close>

lemma fold_small:
  assumes "unat (acc :: u32) \<le> 65535"
  shows "(acc AND 0xFFFF) + drop_bit 16 acc = acc"
proof -
  have "unat (drop_bit 16 acc) = 0" "unat (acc AND mask 16) = unat acc"
    using assms by (simp_all only: unat_drop_bit unat_and_mask) simp_all
  then have "drop_bit 16 acc = 0" "acc AND mask 16 = acc"
    by (simp_all only: unsigned_word_eqI unat_0_iff)
  then show ?thesis by (simp add: mask_literals(8))
qed

lemma complement_u16:
  assumes "unat (acc :: u32) \<le> 65535"
  shows "unat (ucast (NOT acc AND 0xFFFF) :: u16) = 65535 - unat acc"
proof -
  have "(ucast (NOT acc AND 0xFFFF) :: u16) = NOT (ucast acc)"
    unfolding mask_literals(8) by (rule bit_word_eqI) (auto simp: bit_simps)
  then have "(ucast (NOT acc AND 0xFFFF) :: u16) = - 1 - ucast acc"
    by (simp add: not_eq_complement)
  moreover have "unat (ucast acc :: u16) = unat acc"
    using assms by (simp add: unsigned_ucast_eq take_bit_nat_eq_self)
  moreover have "unat (- 1 - w :: u16) = 65535 - unat w" for w :: u16
  proof -
    have "unat (- 1 :: u16) = 65535" by (simp add: unsigned_minus_1_eq_mask mask_eq_exp_minus_1)
    then show ?thesis using unat_sub [of w "- 1"] by simp
  qed
  ultimately show ?thesis by simp
qed

lemma checksum_span_ok:
  assumes "even (length bs)" and "bs \<noteq> []"
  shows "\<exists>c. checksum_span bs = Inr c \<and> unat (ck_n c) = 65535 - ones_sum (words_of bs)"
proof -
  have loop: "unat (checksum_loop bs 0) = ones_sum (words_of bs)"
    using checksum_loop_eq [of 0 bs] by (simp add: ones_sum_def)
  then have "unat (checksum_loop bs 0) \<le> 65535"
    by (simp add: ones_sum_def ones_norm_le)
  then show ?thesis
    using assms complement_u16 [of "checksum_loop bs 0"] loop
    by (simp add: checksum_span_def fold_small even_iff_mod_2_eq_zero)
qed

lemma checksum_span_Inr_iff: "(\<exists>c. checksum_span bs = Inr c) \<longleftrightarrow> even (length bs) \<and> bs \<noteq> []"
  using checksum_span_ok [of bs] by (auto simp: checksum_span_def ASSERT_def even_iff_mod_2_eq_zero)

lemma checksum_span_value:
  "checksum_span bs = Inr c \<Longrightarrow> unat (ck_n c) + ones_sum (words_of bs) = 65535"
  using checksum_span_ok [of bs] checksum_span_Inr_iff [of bs] ones_norm_le [of "sum_list (words_of bs)"]
  by (fastforce simp: ones_sum_def)

lemma checksum_eqI: "unat (ck_n c) = unat (ck_n d) \<Longrightarrow> c = (d :: checksum)"
  by (simp add: unsigned_word_eqI)

lemma checksum_add_value: "unat (ck_n (checksum_add a b)) = ones_norm (unat (ck_n a) + unat (ck_n b))"
proof -
  let ?s = "ucast (ck_n a) + ucast (ck_n b) :: u32"
  let ?n = "unat (ck_n a) + unat (ck_n b)"
  note le = unat_u16_le [of "ck_n a"] unat_u16_le [of "ck_n b"]
  have s: "unat ?s = ?n"
    using le by (simp add: unat_word_ariths unat_ucast_u32)
  have m: "unat (?s AND 0xFFFF) = ?n mod 65536" and d: "unat (drop_bit 16 ?s) = ?n div 65536"
    by (simp_all only: mask_literals(8) unat_and_mask unat_drop_bit s) simp_all
  have "unat ((?s AND 0xFFFF) + drop_bit 16 ?s) = ?n mod 65536 + ?n div 65536"
    using le by (simp only: unat_word_ariths m d) (simp add: div_less_dividend)
  also have "\<dots> = ones_norm ?n"
    using le by (auto simp: ones_norm_carry le_mod_geq le_div_geq)
  finally show ?thesis
    using ones_norm_le [of ?n]
    by (simp add: checksum_add_def Let_def unsigned_ucast_eq take_bit_nat_eq_self)
qed

lemma checksum_span_eq:
  "checksum_span bs =
     (if even (length bs) \<and> bs \<noteq> [] then Inr \<lparr>ck_n = of_nat (65535 - ones_sum (words_of bs))\<rparr>
      else Inl Assert_failed)"
proof (cases "even (length bs) \<and> bs \<noteq> []")
  case True
  then obtain c where c: "checksum_span bs = Inr c" "unat (ck_n c) = 65535 - ones_sum (words_of bs)"
    using checksum_span_ok by blast
  then have "c = \<lparr>ck_n = of_nat (65535 - ones_sum (words_of bs))\<rparr>"
    by (simp add: checksum.equality flip: c(2))
  with c True show ?thesis by simp
next
  case False
  then show ?thesis
    by (auto simp: checksum_span_def ASSERT_def even_iff_mod_2_eq_zero)
qed

lemma checksum_field_zero:
  assumes "even (length pre)"
    and "checksum_span (pre @ [0, 0] @ post) = Inr c"
  shows "checksum_span (pre @ [hi8 (ck_n c), lo8 (ck_n c)] @ post) = Inr \<lparr>ck_n = 0\<rparr>"
proof -
  let ?S = "sum_list (words_of pre) + sum_list (words_of post)"
  let ?bs = "pre @ [hi8 (ck_n c), lo8 (ck_n c)] @ post"
  have zero: "be16 0 0 = 0"
    by (simp add: be16_def)
  have c: "unat (ck_n c) + ones_norm ?S = 65535"
    using checksum_span_value [OF assms(2)] assms(1) by (simp add: words_of_append zero ones_sum_def)
  have "ones_sum (words_of ?bs) = ones_norm (unat (ck_n c) + ?S)"
    using assms(1) by (simp add: words_of_append ones_sum_def ac_simps)
  also have "\<dots> = ones_norm (unat (ck_n c) + ones_norm ?S)"
    by (simp add: ones_norm_add_right)
  finally have sum: "ones_sum (words_of ?bs) = 65535"
    using c by (simp add: ones_norm_id)
  have "even (length ?bs) \<and> ?bs \<noteq> []"
    using checksum_span_Inr_iff [of "pre @ [0, 0] @ post"] assms(2) by auto
  with sum show ?thesis by (auto simp: checksum_span_eq)
qed

section \<open>Properties\<close>

text \<open>
  C1: the checksum constructor computes the ones' complement of the ones' complement sum of
  the big-endian words of the span, and aborts exactly on an odd or empty span.
\<close>

theorem checksum_span_correct:
  "checksum_span bs =
     (if even (length bs) \<and> bs \<noteq> [] then Inr \<lparr>ck_n = of_nat (65535 - ones_sum (words_of bs))\<rparr>
      else Inl Assert_failed)"
  by (rule checksum_span_eq)

text \<open>
  A packet that carries its own checksum verifies. Computing the checksum with the field
  zeroed and then storing it big-endian in that field gives a span whose checksum is 0,
  wherever the 16-bit aligned field stands.
\<close>

theorem checksum_verifies:
  assumes "even (length pre)"
    and "checksum_span (pre @ [0, 0] @ post) = Inr c"
  shows "checksum_span (pre @ [hi8 (ck_n c), lo8 (ck_n c)] @ post) = Inr \<lparr>ck_n = 0\<rparr>"
  using assms by (rule checksum_field_zero)

theorem checksum_verifies_witness:
  "checksum_span ([0x45, 0x00] @ [hi8 0xBAFF, lo8 0xBAFF] @ []) = Inr \<lparr>ck_n = 0\<rparr>"
proof -
  have "checksum_span ([0x45, 0x00] @ [0, 0] @ []) = Inr \<lparr>ck_n = 0xBAFF\<rparr>"
    by (simp add: checksum_span_def checksum_step_def be16_def ASSERT_def)
  from checksum_verifies [OF _ this] show ?thesis by simp
qed

text \<open>
  Corruption of a single 16-bit word is detected, unless it turns 0x0000 into 0xFFFF or
  back, which are both zero in ones' complement.
\<close>

theorem checksum_detects:
  assumes "even (length pre)"
    and "checksum_span (pre @ [a, b] @ post) = Inr c"
    and "checksum_span (pre @ [a', b'] @ post) = Inr c"
  shows "be16 a b = be16 a' b' \<or> {be16 a b, be16 a' b'} = {0, 0xFFFF}"
proof -
  let ?S = "sum_list (words_of pre) + sum_list (words_of post)"
  let ?x = "unat (be16 a b)" and ?y = "unat (be16 a' b')"
  have "ones_norm (?S + ?x) = ones_norm (?S + ?y)"
    using checksum_span_value [OF assms(2)] checksum_span_value [OF assms(3)] assms(1)
    by (simp add: words_of_append ones_sum_def ac_simps)
  then have "(?S + ?x) mod 65535 = (?S + ?y) mod 65535"
    by (metis ones_norm_cong)
  then have "?x mod 65535 = ?y mod 65535"
    by (simp add: nat_mod_eq_iff)
  then have "?x = ?y \<or> (?x = 0 \<and> ?y = 65535) \<or> (?x = 65535 \<and> ?y = 0)"
    using unat_u16_le [of "be16 a b"] unat_u16_le [of "be16 a' b'"] by (auto simp: mod_if split: if_splits)
  then show ?thesis
    by (auto simp: word_unat_eq_iff)
qed

theorem checksum_detects_witness:
  "(be16 0 0 = be16 0xFF 0xFF \<or> {be16 0 0, be16 0xFF 0xFF} = {0, 0xFFFF}) \<and>
   checksum_span ([0x45, 0x00] @ [0, 0] @ []) = checksum_span ([0x45, 0x00] @ [0xFF, 0xFF] @ [])"
proof -
  have *: "checksum_span ([0x45, 0x00] @ [0, 0] @ []) = Inr \<lparr>ck_n = 0xBAFF\<rparr>"
    "checksum_span ([0x45, 0x00] @ [0xFF, 0xFF] @ []) = Inr \<lparr>ck_n = 0xBAFF\<rparr>"
    by (simp_all add: checksum_span_def checksum_step_def be16_def ASSERT_def)
  from checksum_detects [OF _ *] * show ?thesis by simp
qed

text \<open>
  \<^verbatim>\<open>operator+\<close> is addition in ones' complement: associative, commutative, and the sum of
  a concatenation is the sum of the parts.
\<close>

theorem checksum_add_laws:
  "checksum_add (checksum_add a b) c = checksum_add a (checksum_add b c) \<and>
   checksum_add a b = checksum_add b a \<and>
   unat (ck_n (checksum_add \<lparr>ck_n = of_nat (ones_sum xs)\<rparr> \<lparr>ck_n = of_nat (ones_sum ys)\<rparr>)) = ones_sum (xs @ ys)"
proof (intro conjI)
  show "checksum_add (checksum_add a b) c = checksum_add a (checksum_add b c)"
    by (rule checksum_eqI) (simp add: checksum_add_value ones_norm_add ones_norm_add_right add.assoc)
  show "checksum_add a b = checksum_add b a"
    by (rule checksum_eqI) (simp add: checksum_add_value add.commute)
  have "unat (of_nat (ones_sum ws) :: u16) = ones_sum ws" for ws
    using ones_norm_le [of "sum_list ws"]
    by (simp add: ones_sum_def unsigned_of_nat take_bit_nat_eq_self)
  then show "unat (ck_n (checksum_add \<lparr>ck_n = of_nat (ones_sum xs)\<rparr> \<lparr>ck_n = of_nat (ones_sum ys)\<rparr>)) = ones_sum (xs @ ys)"
    by (simp add: checksum_add_value) (simp add: ones_sum_def ones_norm_add ones_norm_add_right)
qed

end
