(* ===== verification/Toad_Packet_Checksum.thy ===== *)
theory Toad_Packet_Checksum
  imports Toad_Checksum Toad_Addr
begin

text \<open>
  The body that \<^verbatim>\<open>Ip::calculate_checksum\<close> and \<^verbatim>\<open>Icmp::calculate_checksum\<close> share: write
  the packet into a fresh zeroed buffer rounded up to an even size, clear the two bytes of the
  checksum field, and take the Internet checksum of the whole buffer.
\<close>

section \<open>The code\<close>

definition padded_size :: "sz \<Rightarrow> sz" where
  "padded_size n = (n + 1) AND NOT 1"

text \<open>
  \<open>wr\<close> is the packet's \<^verbatim>\<open>try_to_stream\<close> in a given store, \<open>n\<close> its \<^verbatim>\<open>buffer_size()\<close> and \<open>k\<close>
  the position of the field. The buffer is local, so the store is not returned.
\<close>

definition zeroed_checksum ::
  "mem \<Rightarrow> (mem \<Rightarrow> (mem \<times> Buffer) \<times> ostream \<Rightarrow> ((mem \<times> Buffer) \<times> ostream) res) \<Rightarrow> sz \<Rightarrow> sz \<Rightarrow> checksum res" where
  "zeroed_checksum m wr n k =
     (let (m, buffer) = Buffer_sized m (padded_size n) in
      rbind (wr m ((m, buffer), ByteOStream)) (\<lambda>((m, buffer), ostream).
      rbind (buffer_put m buffer k 0) (\<lambda>m.
      rbind (buffer_put m buffer (k + 1) 0) (\<lambda>m.
      rbind (of_access (mem_load m (buf_shared buffer) (unat (buf_offset buffer)) (unat (buf_size buffer))))
        checksum_span))))"

lemma checksum_eta: "\<lparr>ck_n = ck_n c\<rparr> = (c :: checksum)"
  by (cases c) simp

section \<open>Padding\<close>

definition pad_even :: "u8 list \<Rightarrow> u8 list" where
  "pad_even xs = xs @ replicate (length xs mod 2) 0"

lemma even_pad_even [simp]: "even (length (pad_even xs))"
  by (simp add: pad_even_def)

lemma unat_padded_size:
  assumes "unat n + 1 < 2 ^ 64"
  shows "unat (padded_size n) = unat n + unat n mod 2"
proof -
  have n1: "unat (n + 1) = unat n + 1"
    using assms unat_sz_add [of n 1] by simp
  have "((n + 1) AND NOT 1) + ((n + 1) AND 1) = ((n + 1) AND NOT 1) OR ((n + 1) AND 1)"
    by (rule disjunctive_add_eq_or) (rule bit_word_eqI, auto simp: bit_simps)
  also have "\<dots> = n + 1"
    by (rule bit_word_eqI) (auto simp: bit_simps)
  finally have "(n + 1) AND NOT 1 = (n + 1) - ((n + 1) AND 1)"
    by (simp add: eq_diff_eq)
  moreover have "unat ((n + 1) AND 1) = (unat n + 1) mod 2"
    using unat_and_mask [of "n + 1" 1] n1 by (simp add: mask_eq_exp_minus_1)
  moreover have "((n + 1) AND 1) \<le> n + 1"
    by (simp add: word_and_le1 word_and_le2)
  ultimately have "unat (padded_size n) = unat n + 1 - (unat n + 1) mod 2"
    using n1 by (simp add: padded_size_def unat_sub)
  then show ?thesis by presburger
qed

lemma pad_even_overwrite:
  "k + length ys \<le> length xs \<Longrightarrow> pad_even (overwrite xs k ys) = overwrite (pad_even xs) k ys"
  by (simp add: pad_even_def overwrite_def)

lemma overwrite_zero_replicate:
  "length xs \<le> n \<Longrightarrow> overwrite (replicate n 0) 0 xs = xs @ replicate (n - length xs) 0"
  by (simp add: overwrite_def)

section \<open>What it computes\<close>

lemma buffer_put_ok:
  assumes "buffer_ok (m, b)" and "unat k < unat (buf_size b)"
  shows "\<exists>m'. buffer_put m b k v = Inr m' \<and> buffer_ok (m', b) \<and>
           buffer_bytes (m', b) = overwrite (buffer_bytes (m, b)) (unat k) [v]"
  using buffer_store [OF assms(1), of "unat k" "[v]"] assms(2) by (auto simp: buffer_put_def)

lemma zeroed_checksum_eq:
  fixes m :: mem and n k :: sz
  defines "m1 \<equiv> fst (Buffer_sized m (padded_size n))" and "b1 \<equiv> snd (Buffer_sized m (padded_size n))"
  assumes n: "unat n + 1 < 2 ^ 63" and len: "length enc = unat n" and k: "unat k + 2 \<le> unat n"
    and wr: "\<exists>b'. wr m1 ((m1, b1), ByteOStream) = Inr (b', ostream_at (length enc) ByteOStream) \<and>
       buffer_window m1 b1 b' \<and> buffer_bytes b' = overwrite (buffer_bytes (m1, b1)) 0 enc"
  shows "zeroed_checksum m wr n k = checksum_span (pad_even (overwrite enc (unat k) [0, 0]))"
proof -
  have pad: "unat (padded_size n) = unat n + unat n mod 2"
    using n by (intro unat_padded_size) simp
  then have small: "unat (padded_size n) < 2 ^ 63"
    using n by (simp add: mod_2_eq_odd split: if_splits)
  obtain m2 where w: "wr m1 ((m1, b1), ByteOStream) = Inr ((m2, b1), ostream_at (length enc) ByteOStream)"
    and ok2: "buffer_ok (m2, b1)" and by2: "buffer_bytes (m2, b1) = overwrite (buffer_bytes (m1, b1)) 0 enc"
    using wr unfolding buffer_window_def by (metis prod.collapse)
  have by1: "buffer_bytes (m1, b1) = replicate (unat (padded_size n)) 0" and size: "buf_size b1 = padded_size n"
    using Buffer_sized_ok [OF small, of m] by (simp_all add: m1_def b1_def Buffer_sized_def)
  have enc2: "buffer_bytes (m2, b1) = pad_even enc"
    using by2 by1 pad len by (simp add: overwrite_zero_replicate pad_even_def)
  have k1: "unat (k + 1) = unat k + 1"
    using k n unat_sz_add [of k 1] by simp
  obtain m3 where m3: "buffer_put m2 b1 k 0 = Inr m3" "buffer_ok (m3, b1)"
      "buffer_bytes (m3, b1) = overwrite (pad_even enc) (unat k) [0]"
    using buffer_put_ok [OF ok2, of k 0] k pad size enc2 by auto
  obtain m4 where m4: "buffer_put m3 b1 (k + 1) 0 = Inr m4" "buffer_ok (m4, b1)"
      "buffer_bytes (m4, b1) = overwrite (overwrite (pad_even enc) (unat k) [0]) (unat k + 1) [0]"
    using buffer_put_ok [OF m3(2), of "k + 1" 0] k pad size m3(3) k1 by auto
  have "buffer_bytes (m4, b1) = pad_even (overwrite enc (unat k) [0, 0])"
    using m4(3) k len by (simp add: pad_even_overwrite overwrite_next pad_even_def [of enc])
  with w m3(1) m4(1) buffer_load_all [OF m4(2)] show ?thesis
    by (simp add: zeroed_checksum_def m1_def b1_def case_prod_beta)
qed

text \<open>The checksum so computed makes the packet verify, once stored in the field.\<close>

lemma checksum_field_verifies:
  assumes "even k" and "k + 2 \<le> length enc"
    and "checksum_span (pad_even (overwrite enc k [0, 0])) = Inr c"
  shows "checksum_span (pad_even (overwrite enc k [hi8 (ck_n c), lo8 (ck_n c)])) = Inr \<lparr>ck_n = 0\<rparr>"
proof -
  obtain r where r: "length enc = k + 2 + r"
    using assms(2) le_Suc_ex by blast
  have "(k + 2 + r) mod 2 = r mod 2"
    using assms(1) by presburger
  then have "(length enc - (k + 2)) mod 2 = length enc mod 2"
    by (simp only: r) simp
  then have split: "pad_even (overwrite enc k ys) = take k enc @ ys @ pad_even (drop (k + 2) enc)"
    if "length ys = 2" for ys :: "u8 list"
    using assms(2) that by (simp only: pad_even_def length_overwrite length_drop) (simp add: overwrite_def)
  have "checksum_span (take k enc @ [0, 0] @ pad_even (drop (k + 2) enc)) = Inr c"
    using assms(3) split [of "[0, 0]"] by simp
  then have "checksum_span (take k enc @ [hi8 (ck_n c), lo8 (ck_n c)] @ pad_even (drop (k + 2) enc)) = Inr \<lparr>ck_n = 0\<rparr>"
    by (rule checksum_field_zero [rotated]) (use assms(1,2) in simp)
  then show ?thesis by (simp add: split)
qed

section \<open>Packets with a checksum field\<close>

text \<open>
  What the two checksummed packets promise: their wire form in a store, which allocation does
  not change; a writer that puts it into a buffer; and a field at an even position \<open>k\<close> that
  holds the checksum.
\<close>

locale checksum_packet =
  fixes valid :: "mem \<Rightarrow> 'p \<Rightarrow> bool"
    and enc :: "mem \<Rightarrow> 'p \<Rightarrow> u8 list"
    and wr :: "mem \<Rightarrow> 'p \<Rightarrow> (mem \<times> Buffer) \<times> ostream \<Rightarrow> ((mem \<times> Buffer) \<times> ostream) res"
    and bsize :: "'p \<Rightarrow> sz"
    and set_checksum :: "checksum \<Rightarrow> 'p \<Rightarrow> 'p"
    and k :: sz
  assumes size: "valid m p \<Longrightarrow> unat (bsize p) = length (enc m p)"
    and alloc: "valid m p \<Longrightarrow> valid (m @ m') p \<and> enc (m @ m') p = enc m p"
    and writes: "buffer_window m0 b0 b \<Longrightarrow> valid m p \<Longrightarrow> length (enc m p) \<le> length (buffer_bytes b) \<Longrightarrow>
       \<exists>b'. wr m p (b, ByteOStream) = Inr (b', ostream_at (length (enc m p)) ByteOStream) \<and>
          buffer_window m0 b0 b' \<and> buffer_bytes b' = overwrite (buffer_bytes b) 0 (enc m p)"
    and field: "valid m p \<Longrightarrow>
       enc m (set_checksum c p) = overwrite (enc m p) (unat k) [hi8 (ck_n c), lo8 (ck_n c)]"
    and field_fits: "valid m p \<Longrightarrow> unat k + 2 \<le> length (enc m p)"
    and field_even: "even (unat k)"
begin

definition calculate :: "mem \<Rightarrow> 'p \<Rightarrow> checksum res" where
  "calculate m p = zeroed_checksum m (\<lambda>m. wr m p) (bsize p) k"

lemma calculate_eq:
  assumes ok: "valid m p" and n: "length (enc m p) + 1 < 2 ^ 63"
  shows "calculate m p = checksum_span (pad_even (enc m (set_checksum \<lparr>ck_n = 0\<rparr> p)))"
proof -
  let ?B = "Buffer_sized m (padded_size (bsize p))"
  have pad: "unat (padded_size (bsize p)) = length (enc m p) + length (enc m p) mod 2"
    using unat_padded_size [of "bsize p"] size [OF ok] n by simp
  then have small: "unat (padded_size (bsize p)) < 2 ^ 63"
    using n by (simp add: mod_2_eq_odd split: if_splits)
  have ok1: "valid (fst ?B) p" and enc1: "enc (fst ?B) p = enc m p"
    using alloc [OF ok] by (simp_all add: Buffer_sized_def)
  have b1: "buffer_window (fst ?B) (snd ?B) (fst ?B, snd ?B)"
    and len: "length (enc m p) \<le> length (buffer_bytes (fst ?B, snd ?B))"
    using Buffer_sized_ok [OF small, of m] pad by (simp_all add: buffer_window_def)
  have "calculate m p = checksum_span (pad_even (overwrite (enc m p) (unat k) [0, 0]))"
    unfolding calculate_def
    using n size [OF ok] field_fits [OF ok] writes [OF b1 ok1] len enc1
    by (intro zeroed_checksum_eq) simp_all
  moreover have "hi8 0 = 0" "lo8 0 = 0"
    by (simp_all add: hi8_def lo8_def)
  ultimately show ?thesis
    by (simp add: field [OF ok])
qed

text \<open>Storing the computed checksum makes the packet sum to zero.\<close>

lemma calculate_verifies:
  assumes ok: "valid m p" and n: "length (enc m p) + 1 < 2 ^ 63"
  shows "\<exists>c. calculate m p = Inr c \<and> checksum_span (pad_even (enc m (set_checksum c p))) = Inr \<lparr>ck_n = 0\<rparr>"
proof -
  let ?e = "pad_even (overwrite (enc m p) (unat k) [0, 0])"
  have "hi8 0 = 0" "lo8 0 = 0"
    by (simp_all add: hi8_def lo8_def)
  then have calc: "calculate m p = checksum_span ?e"
    using calculate_eq [OF assms] by (simp add: field [OF ok])
  have "?e \<noteq> []"
    using field_fits [OF ok] by (auto simp: pad_even_def overwrite_def)
  then obtain c where c: "checksum_span ?e = Inr c"
    using checksum_span_Inr_iff [of ?e] by auto
  with checksum_field_verifies [OF field_even field_fits [OF ok] c] calc show ?thesis
    by (auto simp: field [OF ok])
qed

end

end
