(* ===== verification/Toad_Ipv4.thy ===== *)
theory Toad_Ipv4
  imports Toad_Packet_Checksum
begin

text \<open>
  \<^verbatim>\<open>include/nic/ipv4.hpp\<close>: the IP header with its packed fields, the writer, the parser
  (which ends in the unimplemented \<^verbatim>\<open>read_buffer\<close>), the checksum, and the response to a
  packet. Shifts and masks are computed as C++ does, after promotion to 32 bits, and truncated
  where the code stores them.
\<close>

section \<open>The code\<close>

definition ETHERTYPE_IPV4 :: u16 where
  [simp]: "ETHERTYPE_IPV4 = 0x0800"

record Ip =
  ip_version :: u8
  ip_ihl :: u8
  ip_dscp :: u8
  ip_ecn :: u8
  ip_total_length :: u16
  ip_identification :: u16
  ip_flags :: u8
  ip_fragment_offset :: u16
  ip_ttl :: u8
  ip_protocol :: u8
  ip_header_checksum :: checksum
  ip_src :: IPv4
  ip_dst :: IPv4
  ip_payload :: Buffer

definition IP_HEADER_SIZE :: sz where
  "IP_HEADER_SIZE = 20"

definition ip_size :: "Ip \<Rightarrow> sz" where
  "ip_size ip = 20 + 0 + buf_size (ip_payload ip)"

definition ip_buffer_size :: "Ip \<Rightarrow> sz" where
  "ip_buffer_size ip = IP_HEADER_SIZE + buf_size (ip_payload ip)"

text \<open>The conversion between the directions copies every field but the payload.\<close>

definition Ip_convert :: "Ip \<Rightarrow> Ip" where
  "Ip_convert ip = ip\<lparr>ip_payload := Buffer_default\<rparr>"

text \<open>
  The reads of \<^verbatim>\<open>try_from_stream\<close> up to \<^verbatim>\<open>read_buffer\<close>. \<open>ret\<close> and \<open>u = (version_ihl,
  dscp_ecn, flags_fragment_offset)\<close> are the uninitialised packet and locals.
\<close>

definition ip_read_header ::
  "'b byte_buffer \<Rightarrow> 'b \<Rightarrow> istream \<Rightarrow> u8 \<times> u8 \<times> u16 \<Rightarrow> Ip \<Rightarrow> (istream \<times> (u8 \<times> u8 \<times> u16) \<times> Ip) res" where
  "ip_read_header ops buffer s = (\<lambda>(u_version_ihl, u_dscp_ecn, u_flags) ret.
     rbind (read_u8 ops buffer s u_version_ihl) (\<lambda>(s, version_ihl).
     rbind (read_u8 ops buffer s u_dscp_ecn) (\<lambda>(s, dscp_ecn).
     rbind (read_u16 ops buffer s (ip_total_length ret)) (\<lambda>(s, total_length).
     rbind (read_u16 ops buffer s (ip_identification ret)) (\<lambda>(s, identification).
     rbind (read_u16 ops buffer s u_flags) (\<lambda>(s, flags_fragment_offset).
     rbind (read_u8 ops buffer s (ip_ttl ret)) (\<lambda>(s, ttl).
     rbind (read_u8 ops buffer s (ip_protocol ret)) (\<lambda>(s, protocol).
     rbind (read_u16 ops buffer s (ck_n (ip_header_checksum ret))) (\<lambda>(s, n).
     rbind (read_array ops buffer s 4 (ip_src ret)) (\<lambda>(s, src).
     rbind (read_array ops buffer s 4 (ip_dst ret)) (\<lambda>(s, dst).
     Inr (s, (version_ihl, dscp_ecn, flags_fragment_offset),
          ret\<lparr>ip_total_length := total_length, ip_identification := identification, ip_ttl := ttl,
              ip_protocol := protocol, ip_header_checksum := \<lparr>ck_n = n\<rparr>, ip_src := src, ip_dst := dst\<rparr>))))))))))))"

text \<open>The assignments that unpack the three packed words.\<close>

definition ip_unpack :: "u8 \<times> u8 \<times> u16 \<Rightarrow> Ip \<Rightarrow> Ip" where
  "ip_unpack = (\<lambda>(version_ihl, dscp_ecn, flags_fragment_offset) ret.
     ret\<lparr>ip_version := drop_bit 4 version_ihl AND 0xF,
         ip_ihl := version_ihl AND 0xF,
         ip_dscp := drop_bit 2 dscp_ecn AND 0x3F,
         ip_ecn := dscp_ecn AND 3,
         ip_flags := ucast (drop_bit 13 flags_fragment_offset AND 7),
         ip_fragment_offset := flags_fragment_offset AND 0x1FFF\<rparr>)"

definition ip_try_from_stream ::
  "'b byte_buffer \<Rightarrow> 'b \<Rightarrow> istream \<Rightarrow> u8 \<times> u8 \<times> u16 \<Rightarrow> Ip \<Rightarrow> (istream \<times> Ip) res" where
  "ip_try_from_stream ops buffer s u ret =
     rbind (ip_read_header ops buffer s u ret) (\<lambda>(s, packed, ret).
     rbind (read_buffer s (ip_payload ret)) (\<lambda>(s, payload).
     ASSERT (is_errc s = Ok) (Inr (s, ip_unpack packed (ret\<lparr>ip_payload := payload\<rparr>)))))"

definition ip_version_ihl :: "Ip \<Rightarrow> u8" where
  "ip_version_ihl ip = ucast (push_bit 4 (ucast (ip_version ip) :: u32) OR ucast (ip_ihl ip))"

definition ip_dscp_ecn :: "Ip \<Rightarrow> u8" where
  "ip_dscp_ecn ip = ucast (push_bit 2 (ucast (ip_dscp ip) :: u32) OR ucast (ip_ecn ip))"

definition ip_hi_byte :: "Ip \<Rightarrow> u8" where
  "ip_hi_byte ip = ucast (push_bit 5 (ucast (ip_flags ip) :: u32) OR
     (drop_bit 8 (ucast (ip_fragment_offset ip)) AND 0x1F))"

definition ip_lo_byte :: "Ip \<Rightarrow> u8" where
  "ip_lo_byte ip = ucast (ip_fragment_offset ip AND 0xFF)"

definition ip_try_to_stream :: "'b byte_buffer \<Rightarrow> mem \<Rightarrow> Ip \<Rightarrow> 'b \<times> ostream \<Rightarrow> ('b \<times> ostream) res" where
  "ip_try_to_stream ops m ip stream =
     rbind (write_u8 ops stream (ip_version_ihl ip)) (\<lambda>stream.
     rbind (write_u8 ops stream (ip_dscp_ecn ip)) (\<lambda>stream.
     rbind (write_u16 ops stream (ip_total_length ip)) (\<lambda>stream.
     rbind (write_u16 ops stream (ip_identification ip)) (\<lambda>stream.
     rbind (write_u8 ops stream (ip_hi_byte ip)) (\<lambda>stream.
     rbind (write_u8 ops stream (ip_lo_byte ip)) (\<lambda>stream.
     rbind (write_u8 ops stream (ip_ttl ip)) (\<lambda>stream.
     rbind (write_u8 ops stream (ip_protocol ip)) (\<lambda>stream.
     rbind (write_u16 ops stream (ck_n (ip_header_checksum ip))) (\<lambda>stream.
     rbind (write_array ops stream (ip_src ip)) (\<lambda>stream.
     rbind (write_array ops stream (ip_dst ip)) (\<lambda>stream.
     write_buffer ops stream m (ip_payload ip))))))))))))"

definition ip_calculate_checksum :: "mem \<Rightarrow> Ip \<Rightarrow> checksum res" where
  "ip_calculate_checksum m ip =
     zeroed_checksum m (\<lambda>m. ip_try_to_stream buffer_ops m ip) (ip_buffer_size ip) 10"

text \<open>
  \<^verbatim>\<open>clone_as_response\<close>: \<^verbatim>\<open>buffer_size()\<close> is called on the request, whose payload is not the
  response's.
\<close>

definition ip_clone_as_response :: "mem \<Rightarrow> Ip \<Rightarrow> Buffer \<Rightarrow> u8 \<Rightarrow> Ip res" where
  "ip_clone_as_response m this payload ttl =
     (let response = Ip_convert this;
          response = response\<lparr>ip_payload := payload\<rparr>;
          response = response\<lparr>ip_total_length := ucast (ip_buffer_size this)\<rparr>;
          response = response\<lparr>ip_ttl := ttl\<rparr>;
          response = response\<lparr>ip_dst := ip_src response, ip_src := ip_dst response\<rparr>
      in rbind (ip_calculate_checksum m response) (\<lambda>c. Inr (response\<lparr>ip_header_checksum := c\<rparr>)))"

section \<open>The wire form\<close>

definition ip_ok :: "mem \<Rightarrow> Ip \<Rightarrow> bool" where
  "ip_ok m ip \<longleftrightarrow> ipv4_ok (ip_src ip) \<and> ipv4_ok (ip_dst ip) \<and> buffer_ok (m, ip_payload ip)"

text \<open>The packed fields fit the bits the header has for them.\<close>

definition ip_fields_ok :: "Ip \<Rightarrow> bool" where
  "ip_fields_ok ip \<longleftrightarrow> ip_version ip < 16 \<and> ip_ihl ip < 16 \<and> ip_dscp ip < 64 \<and> ip_ecn ip < 4 \<and>
     ip_flags ip < 8 \<and> ip_fragment_offset ip < 0x2000"

definition ip_header_bytes :: "Ip \<Rightarrow> u8 list" where
  "ip_header_bytes ip =
     [ip_version_ihl ip] @ [ip_dscp_ecn ip] @ [hi8 (ip_total_length ip), lo8 (ip_total_length ip)] @
     [hi8 (ip_identification ip), lo8 (ip_identification ip)] @ [ip_hi_byte ip] @ [ip_lo_byte ip] @
     [ip_ttl ip] @ [ip_protocol ip] @ [hi8 (ck_n (ip_header_checksum ip)), lo8 (ck_n (ip_header_checksum ip))] @
     ip_src ip @ ip_dst ip"

definition ip_encode :: "mem \<Rightarrow> Ip \<Rightarrow> u8 list" where
  "ip_encode m ip = ip_header_bytes ip @ buffer_bytes (m, ip_payload ip)"

definition ip_wire_size :: "Ip \<Rightarrow> nat" where
  "ip_wire_size ip = 20 + unat (buf_size (ip_payload ip))"

lemma ip_sizes:
  assumes "ip_ok m ip"
  shows "unat (ip_size ip) = ip_wire_size ip" "unat (ip_buffer_size ip) = ip_wire_size ip"
  using assms buffer_ok_small [of m "ip_payload ip"]
  by (simp_all add: ip_ok_def ip_size_def ip_buffer_size_def IP_HEADER_SIZE_def ip_wire_size_def unat_word_ariths)

lemma length_ip_header_bytes [simp]: "ip_ok m ip \<Longrightarrow> length (ip_header_bytes ip) = 20"
  by (simp add: ip_header_bytes_def ip_ok_def ipv4_ok_def)

interpretation ip: packet "ip_ok m" "ip_encode m" "ip_try_to_stream vector_ops m" ip_wire_size
proof unfold_locales
  fix ip
  assume ok: "ip_ok m ip"
  then show "length (ip_encode m ip) = ip_wire_size ip"
    by (simp add: ip_ok_def ip_encode_def ip_wire_size_def ip_header_bytes_def ipv4_ok_def)
  show "writer (ip_try_to_stream vector_ops m ip) (ip_encode m ip)"
    unfolding ip_try_to_stream_def ip_encode_def ip_header_bytes_def append_assoc
    using ok by (intro codec) (simp_all add: ip_ok_def ipv4_ok_def)
qed

lemma ip_unpack_pack:
  assumes "ip_fields_ok ip"
  shows "ip_unpack (ip_version_ihl ip, ip_dscp_ecn ip, be16 (ip_hi_byte ip) (ip_lo_byte ip)) r =
     r\<lparr>ip_version := ip_version ip, ip_ihl := ip_ihl ip, ip_dscp := ip_dscp ip, ip_ecn := ip_ecn ip,
       ip_flags := ip_flags ip, ip_fragment_offset := ip_fragment_offset ip\<rparr>"
proof -
  have v: "bit (ip_version ip) k \<Longrightarrow> k < 4" "bit (ip_ihl ip) k \<Longrightarrow> k < 4"
    and d: "bit (ip_dscp ip) k \<Longrightarrow> k < 6" and e: "bit (ip_ecn ip) k \<Longrightarrow> k < 2"
    and f: "bit (ip_flags ip) k \<Longrightarrow> k < 3" and o: "bit (ip_fragment_offset ip) k \<Longrightarrow> k < 13" for k
    using assms bit_small_word [of _ 4 k] bit_small_word [of _ 6 k] bit_small_word [of _ 2 k]
      bit_small_word [of _ 3 k] bit_small_word [of _ 13 k]
    by (auto simp: ip_fields_ok_def)
  have "drop_bit 4 (ip_version_ihl ip) AND 0xF = ip_version ip" "ip_version_ihl ip AND 0xF = ip_ihl ip"
    unfolding ip_version_ihl_def mask_literals by (rule bit_word_eqI, auto simp: bit_simps dest: v)+
  moreover have "drop_bit 2 (ip_dscp_ecn ip) AND 0x3F = ip_dscp ip" "ip_dscp_ecn ip AND 3 = ip_ecn ip"
    unfolding ip_dscp_ecn_def mask_literals by (rule bit_word_eqI, auto simp: bit_simps dest: d e)+
  moreover have "ucast (drop_bit 13 (be16 (ip_hi_byte ip) (ip_lo_byte ip)) AND 7) = ip_flags ip"
    unfolding ip_hi_byte_def ip_lo_byte_def be16_def mask_literals
    by (rule bit_word_eqI) (auto simp: bit_simps dest: f o)
  moreover have "be16 (ip_hi_byte ip) (ip_lo_byte ip) AND 0x1FFF = ip_fragment_offset ip"
    unfolding ip_hi_byte_def ip_lo_byte_def be16_def mask_literals
    by (rule bit_word_eqI) (auto simp: bit_simps dest: f o)
  ultimately show ?thesis
    by (simp add: ip_unpack_def)
qed

section \<open>IP packets on any byte buffer\<close>

context byte_buffer_laws
begin

lemma ip_try_to_stream_sim [writer_sim]:
  "ok b \<Longrightarrow> unat (os_cursor s) \<le> length (bytes b) \<Longrightarrow> ip_ok m ip \<Longrightarrow>
     wrel ok bytes (ip_try_to_stream ops m ip (b, s)) (ip_try_to_stream vector_ops m ip (bytes b, s))"
  unfolding ip_try_to_stream_def
  by (intro writer_sim) (simp_all add: ip_ok_def ipv4_ok_def)

lemma ip_write:
  assumes "ok b" and "ip_ok m ip" and "ip_wire_size ip \<le> length (bytes b)"
  shows "\<exists>b'. ip_try_to_stream ops m ip (b, ByteOStream) = Inr (b', ostream_at (ip_wire_size ip) ByteOStream) \<and>
           ok b' \<and> bytes b' = overwrite (bytes b) 0 (ip_encode m ip)"
  using ip_try_to_stream_sim [of b ByteOStream m ip] ip.wr_fits [of m ip "bytes b" 0 ByteOStream]
    assms small [OF assms(1)]
  by (intro wrel_InrD) (simp add: ByteOStream_def ostream_at_def)

lemma ip_read_header_parses:
  assumes "ok b" and "ip_ok m ip"
  shows "parses (bytes b) (\<lambda>s. ip_read_header ops b s u ret) (ip_header_bytes ip)
     ((ip_version_ihl ip, ip_dscp_ecn ip, be16 (ip_hi_byte ip) (ip_lo_byte ip)),
      ret\<lparr>ip_total_length := ip_total_length ip, ip_identification := ip_identification ip, ip_ttl := ip_ttl ip,
          ip_protocol := ip_protocol ip, ip_header_checksum := ip_header_checksum ip,
          ip_src := ip_src ip, ip_dst := ip_dst ip\<rparr>)"
proof -
  obtain u1 u2 u3 where u: "u = (u1, u2, u3)" by (cases u) auto
  let ?fl = "be16 (ip_hi_byte ip) (ip_lo_byte ip)"
  have h: "ip_header_bytes ip =
     [ip_version_ihl ip] @ [ip_dscp_ecn ip] @ [hi8 (ip_total_length ip), lo8 (ip_total_length ip)] @
     [hi8 (ip_identification ip), lo8 (ip_identification ip)] @ [hi8 ?fl, lo8 ?fl] @
     [ip_ttl ip] @ [ip_protocol ip] @ [hi8 (ck_n (ip_header_checksum ip)), lo8 (ck_n (ip_header_checksum ip))] @
     ip_src ip @ ip_dst ip @ []"
    by (simp add: ip_header_bytes_def)
  show ?thesis
    unfolding ip_read_header_def u prod.case h
    by (rule codec | simp add: assms(1) assms(2) [unfolded ip_ok_def ipv4_ok_def] checksum_eta parses_return)+
qed

lemma ip_read_header_cost [stream_cost]:
  assumes "ok b" and "unat (is_cursor s) \<le> length (bytes b)"
  shows "consumes (length (bytes b)) 20 s (ip_read_header ops b s u ret)"
proof -
  obtain u1 u2 u3 where u: "u = (u1, u2, u3)" by (cases u) auto
  have "consumes (length (bytes b)) (1 + (1 + (2 + (2 + (2 + (1 + (1 + (2 + (4 + (4 + 0)))))))))) s
      (ip_read_header ops b s u ret)"
    unfolding ip_read_header_def u prod.case
    by (rule consumes_bind_split consumes_return stream_cost assms | assumption | simp)+
  then show ?thesis by simp
qed

end

lemma ip_encode_checksum:
  assumes "ip_ok m ip"
  shows "ip_encode m (ip\<lparr>ip_header_checksum := c\<rparr>) =
     overwrite (ip_encode m ip) 10 [hi8 (ck_n c), lo8 (ck_n c)]"
  using assms
  by (simp add: ip_encode_def ip_header_bytes_def overwrite_def ip_version_ihl_def ip_dscp_ecn_def
      ip_hi_byte_def ip_lo_byte_def ip_ok_def ipv4_ok_def)

interpretation ip_ck: checksum_packet ip_ok ip_encode "ip_try_to_stream buffer_ops" ip_buffer_size
  "\<lambda>c ip. ip\<lparr>ip_header_checksum := c\<rparr>" 10
proof unfold_locales
  fix m m' m0 :: mem and b0 b c and ip :: Ip
  assume ok: "ip_ok m ip"
  show "unat (ip_buffer_size ip) = length (ip_encode m ip)" "unat (10 :: sz) + 2 \<le> length (ip_encode m ip)"
    using ip_sizes [OF ok] ip.enc_size [OF ok] by (simp_all add: ip_wire_size_def)
  show "ip_ok (m @ m') ip \<and> ip_encode (m @ m') ip = ip_encode m ip"
    using ok buffer_frame_alloc [of m "ip_payload ip" m'] by (simp add: ip_ok_def ip_encode_def)
  show "ip_encode m (ip\<lparr>ip_header_checksum := c\<rparr>) =
      overwrite (ip_encode m ip) (unat (10 :: sz)) [hi8 (ck_n c), lo8 (ck_n c)]"
    using ip_encode_checksum [OF ok] by simp
  assume "buffer_window m0 b0 b" "length (ip_encode m ip) \<le> length (buffer_bytes b)"
  then show "\<exists>b'. ip_try_to_stream buffer_ops m ip (b, ByteOStream) =
        Inr (b', ostream_at (length (ip_encode m ip)) ByteOStream) \<and>
      buffer_window m0 b0 b' \<and> buffer_bytes b' = overwrite (buffer_bytes b) 0 (ip_encode m ip)"
    using win.ip_write [of m0 b0 b m ip] ok ip.enc_size [OF ok] by simp
qed simp

lemma ip_calculate: "ip_calculate_checksum = ip_ck.calculate"
  by (simp add: fun_eq_iff ip_calculate_checksum_def ip_ck.calculate_def)

lemma ip_clone_as_response_eq:
  fixes payload :: Buffer and ttl :: u8
  assumes "ip_ok m ip" and "buffer_ok (m, payload)" and "unat (buf_size payload) + 21 < 2 ^ 63"
  defines "q \<equiv> ip\<lparr>ip_payload := payload, ip_total_length := ucast (ip_buffer_size ip), ip_ttl := ttl,
      ip_dst := ip_src ip, ip_src := ip_dst ip\<rparr>"
  shows "\<exists>c. ip_clone_as_response m ip payload ttl = Inr (q\<lparr>ip_header_checksum := c\<rparr>) \<and> ip_ok m q \<and>
     checksum_span (pad_even (ip_encode m (q\<lparr>ip_header_checksum := c\<rparr>))) = Inr \<lparr>ck_n = 0\<rparr>"
proof -
  have ok: "ip_ok m q" and size: "length (ip_encode m q) + 1 < 2 ^ 63"
    using assms ip.enc_size [of m q] by (simp_all add: ip_ok_def ip_wire_size_def)
  then obtain c where "ip_ck.calculate m q = Inr c"
    "checksum_span (pad_even (ip_encode m (q\<lparr>ip_header_checksum := c\<rparr>))) = Inr \<lparr>ck_n = 0\<rparr>"
    using ip_ck.calculate_verifies by blast
  with ok show ?thesis
    by (auto simp: ip_clone_as_response_def Ip_convert_def q_def Let_def ip_calculate)
qed

text \<open>The packet the witnesses below use.\<close>

definition ip_sample :: Ip where
  "ip_sample = \<lparr>ip_version = 4, ip_ihl = 5, ip_dscp = 1, ip_ecn = 2, ip_total_length = 22,
     ip_identification = 0xBEEF, ip_flags = 2, ip_fragment_offset = 0x123, ip_ttl = 64, ip_protocol = 1,
     ip_header_checksum = \<lparr>ck_n = 0xABCD\<rparr>, ip_src = [10, 0, 0, 1], ip_dst = [10, 0, 0, 2],
     ip_payload = \<lparr>buf_shared = Some 0, buf_offset = 0, buf_size = 2\<rparr>\<rparr>"

lemma ip_sample_ok:
  "ip_ok ([7, 8] # m) ip_sample" "ip_fields_ok ip_sample" "ip_wire_size ip_sample = 22"
  "buffer_ok ([[7, 8], replicate 24 0], \<lparr>buf_shared = Some 1, buf_offset = 0, buf_size = 24\<rparr>)"
  by (simp_all add: ip_sample_def ip_ok_def ipv4_ok_def ip_fields_ok_def ip_wire_size_def buffer_ok.simps)

section \<open>Properties\<close>



text \<open>
  \<^verbatim>\<open>calculate_checksum\<close> is the Internet checksum of the whole packet, header and payload,
  with the checksum field zero and one zero byte of padding after an odd length.
\<close>

theorem ip_calculate_checksum_spec:
  assumes "ip_ok m ip" and "ip_wire_size ip + 1 < 2 ^ 63"
  shows "ip_calculate_checksum m ip = checksum_span (pad_even
     (ip_header_bytes (ip\<lparr>ip_header_checksum := \<lparr>ck_n = 0\<rparr>\<rparr>) @ buffer_bytes (m, ip_payload ip)))"
  using ip_ck.calculate_eq [OF assms(1)] assms(2) ip.enc_size [OF assms(1)]
  by (simp add: ip_calculate ip_encode_def)

theorem ip_calculate_checksum_spec_witness:
  "ip_calculate_checksum [[7, 8]] ip_sample = checksum_span (pad_even
     (ip_header_bytes (ip_sample\<lparr>ip_header_checksum := \<lparr>ck_n = 0\<rparr>\<rparr>) @ [7, 8]))"
  using ip_calculate_checksum_spec [OF ip_sample_ok(1)] ip_sample_ok(3)
  by (simp add: ip_sample_def buffer_bytes.simps)

text \<open>
  The response to an IP packet exchanges the addresses, carries the new payload and the
  given time to live, keeps the other fields, and its checksum is right: the whole response
  sums to zero.
\<close>

theorem ip_clone_as_response_spec:
  assumes "ip_ok m ip" and "buffer_ok (m, payload)" and "unat (buf_size payload) + 21 < 2 ^ 63"
  shows "\<exists>r. ip_clone_as_response m ip payload ttl = Inr r \<and> ip_ok m r \<and>
     ip_src r = ip_dst ip \<and> ip_dst r = ip_src ip \<and> ip_payload r = payload \<and> ip_ttl r = ttl \<and>
     ip_protocol r = ip_protocol ip \<and> ip_identification r = ip_identification ip \<and>
     checksum_span (pad_even (ip_encode m r)) = Inr \<lparr>ck_n = 0\<rparr>"
  using ip_clone_as_response_eq [OF assms, of ttl] by (auto simp: ip_ok_def)

theorem ip_clone_as_response_spec_witness:
  "\<exists>r. ip_clone_as_response [[7, 8]] ip_sample Buffer_default 64 = Inr r \<and> ip_src r = [10, 0, 0, 2] \<and>
     checksum_span (pad_even (ip_encode [[7, 8]] r)) = Inr \<lparr>ck_n = 0\<rparr>"
  using ip_clone_as_response_spec [OF ip_sample_ok(1) [of "[]"] Buffer_default_ok(1), of 64]
  by (auto simp: ip_sample_def Buffer_default_def)

text \<open>
  The total length of a response is that of the request. It states the response's own
  size exactly when the two payloads have the same size modulo 65536.
\<close>

theorem ip_response_total_length:
  assumes "ip_ok m ip" and "buffer_ok (m, payload)" and "unat (buf_size payload) + 21 < 2 ^ 63"
  shows "\<exists>r. ip_clone_as_response m ip payload ttl = Inr r \<and>
     unat (ip_total_length r) = ip_wire_size ip mod 65536 \<and>
     (unat (ip_total_length r) = ip_wire_size r mod 65536 \<longleftrightarrow>
        unat (buf_size payload) mod 65536 = unat (buf_size (ip_payload ip)) mod 65536)"
proof -
  have "unat (ucast (ip_buffer_size ip) :: u16) = ip_wire_size ip mod 65536"
    using ip_sizes(2) [OF assms(1)] by (simp add: unsigned_ucast_eq take_bit_eq_mod)
  moreover have "(20 + x) mod 65536 = (20 + y) mod 65536 \<longleftrightarrow> x mod 65536 = y mod (65536 :: nat)" for x y
    unfolding nat_mod_eq_iff add.assoc add_left_cancel by simp
  ultimately show ?thesis
    using ip_clone_as_response_eq [OF assms, of ttl] by (auto simp: ip_wire_size_def)
qed

theorem ip_response_total_length_witness:
  "\<exists>r. ip_clone_as_response [[7, 8]] ip_sample Buffer_default 64 = Inr r \<and>
     unat (ip_total_length r) = 22 \<and> unat (ip_total_length r) \<noteq> ip_wire_size r mod 65536"
  using ip_response_total_length [OF ip_sample_ok(1) [of "[]"] Buffer_default_ok(1), of 64] ip_sample_ok(3)
  by (auto simp: ip_sample_def Buffer_default_def)

end
