(* ===== verification/Toad_Icmp.thy ===== *)
theory Toad_Icmp
  imports Toad_Packet_Checksum
begin

text \<open>
  \<^verbatim>\<open>include/nic/icmp.hpp\<close>: the ICMP packet, its writer and parser, its checksum and the
  reply to an echo request. \<^verbatim>\<open>IcmpType\<close> has a fixed underlying type, so a field of that type
  can hold every byte, and the parser stores whatever byte it reads.
\<close>

section \<open>The code\<close>

definition PROTOCOL_ICMP :: u8 where
  "PROTOCOL_ICMP = 0x01"

type_synonym IcmpType = u8

definition EchoReply :: IcmpType where
  "EchoReply = 0"

definition EchoRequest :: IcmpType where
  "EchoRequest = 8"

record Icmp =
  icmp_type :: IcmpType
  icmp_code :: u8
  icmp_checksum :: checksum
  icmp_rest :: "u8 list"
  icmp_payload :: Buffer

definition icmp_header_size :: sz where
  "icmp_header_size = 8"

definition icmp_size :: "Icmp \<Rightarrow> sz" where
  "icmp_size icmp = icmp_header_size + 0 + buf_size (icmp_payload icmp)"

text \<open>The conversion between the directions copies every field.\<close>

definition Icmp_convert :: "Icmp \<Rightarrow> Icmp" where
  "Icmp_convert icmp =
     \<lparr>icmp_type = icmp_type icmp, icmp_code = icmp_code icmp, icmp_checksum = icmp_checksum icmp,
      icmp_rest = icmp_rest icmp, icmp_payload = icmp_payload icmp\<rparr>"

definition icmp_try_to_stream :: "'b byte_buffer \<Rightarrow> mem \<Rightarrow> Icmp \<Rightarrow> 'b \<times> ostream \<Rightarrow> ('b \<times> ostream) res" where
  "icmp_try_to_stream ops m icmp bytes =
     rbind (write_u8 ops bytes (icmp_type icmp)) (\<lambda>bytes.
     rbind (write_u8 ops bytes (icmp_code icmp)) (\<lambda>bytes.
     rbind (write_u16 ops bytes (checksum_u16 (icmp_checksum icmp))) (\<lambda>bytes.
     rbind (write_array ops bytes (icmp_rest icmp)) (\<lambda>bytes.
     write_buffer ops bytes m (icmp_payload icmp)))))"

definition icmp_buffer_size :: "Icmp \<Rightarrow> sz" where
  "icmp_buffer_size icmp = 1 + 1 + 2 + 4 + buf_size (icmp_payload icmp)"

definition icmp_calculate_checksum :: "mem \<Rightarrow> Icmp \<Rightarrow> checksum res" where
  "icmp_calculate_checksum m icmp =
     zeroed_checksum m (\<lambda>m. icmp_try_to_stream buffer_ops m icmp) (icmp_buffer_size icmp) 2"

text \<open>The reads of \<^verbatim>\<open>try_from_stream\<close> before \<^verbatim>\<open>read_buffer\<close>; \<open>ret\<close> is the uninitialised packet.\<close>

definition icmp_read_header :: "'b byte_buffer \<Rightarrow> 'b \<Rightarrow> istream \<Rightarrow> Icmp \<Rightarrow> (istream \<times> Icmp) res" where
  "icmp_read_header ops buffer s ret =
     rbind (read_u8 ops buffer s (icmp_type ret)) (\<lambda>(s, type).
     rbind (read_u8 ops buffer s (icmp_code ret)) (\<lambda>(s, code).
     rbind (read_u16 ops buffer s (ck_n (icmp_checksum ret))) (\<lambda>(s, n).
     rbind (read_array ops buffer s 4 (icmp_rest ret)) (\<lambda>(s, rest).
     Inr (s, ret\<lparr>icmp_type := type, icmp_code := code, icmp_checksum := \<lparr>ck_n = n\<rparr>, icmp_rest := rest\<rparr>)))))"

text \<open>The comparison of checksums is compiled in for outgoing packets only.\<close>

definition icmp_try_from_stream ::
  "TypestateDirection \<Rightarrow> 'b byte_buffer \<Rightarrow> mem \<Rightarrow> 'b \<Rightarrow> istream \<Rightarrow> Icmp \<Rightarrow> (istream \<times> Icmp) res" where
  "icmp_try_from_stream direction ops m buffer s ret =
     rbind (icmp_read_header ops buffer s ret) (\<lambda>(s, ret).
     rbind (read_buffer s (icmp_payload ret)) (\<lambda>(s, payload).
     let ret = ret\<lparr>icmp_payload := payload\<rparr> in
     if direction = DirectionOut then
       rbind (icmp_calculate_checksum m ret) (\<lambda>c.
       ASSERT (checksum_u16 (icmp_checksum ret) = checksum_u16 c) (Inr (s, ret)))
     else Inr (s, ret)))"

definition clone_as_echo_response :: "mem \<Rightarrow> Icmp \<Rightarrow> Icmp res" where
  "clone_as_echo_response m this =
     ASSERT (icmp_type this = EchoRequest)
       (let response = Icmp_convert this;
            response = response\<lparr>icmp_type := EchoReply\<rparr>
        in rbind (icmp_calculate_checksum m response) (\<lambda>c. Inr (response\<lparr>icmp_checksum := c\<rparr>)))"

section \<open>The wire form\<close>

lemma Icmp_convert_id: "Icmp_convert icmp = icmp"
  by (cases icmp) (simp add: Icmp_convert_def)

definition icmp_ok :: "mem \<Rightarrow> Icmp \<Rightarrow> bool" where
  "icmp_ok m icmp \<longleftrightarrow> length (icmp_rest icmp) = 4 \<and> buffer_ok (m, icmp_payload icmp)"

definition icmp_header_bytes :: "Icmp \<Rightarrow> u8 list" where
  "icmp_header_bytes icmp = [icmp_type icmp] @ [icmp_code icmp] @
     [hi8 (ck_n (icmp_checksum icmp)), lo8 (ck_n (icmp_checksum icmp))] @ icmp_rest icmp"

definition icmp_encode :: "mem \<Rightarrow> Icmp \<Rightarrow> u8 list" where
  "icmp_encode m icmp = icmp_header_bytes icmp @ buffer_bytes (m, icmp_payload icmp)"

definition icmp_wire_size :: "Icmp \<Rightarrow> nat" where
  "icmp_wire_size icmp = 8 + unat (buf_size (icmp_payload icmp))"

lemma icmp_sizes:
  assumes "icmp_ok m icmp"
  shows "unat (icmp_size icmp) = icmp_wire_size icmp" "unat (icmp_buffer_size icmp) = icmp_wire_size icmp"
  using assms buffer_ok_small [of m "icmp_payload icmp"]
  by (simp_all add: icmp_ok_def icmp_size_def icmp_buffer_size_def icmp_header_size_def icmp_wire_size_def
      unat_word_ariths)

interpretation icmp: packet "icmp_ok m" "icmp_encode m" "icmp_try_to_stream vector_ops m" icmp_wire_size
proof unfold_locales
  fix icmp
  assume ok: "icmp_ok m icmp"
  then show "length (icmp_encode m icmp) = icmp_wire_size icmp"
    by (simp add: icmp_ok_def icmp_encode_def icmp_wire_size_def icmp_header_bytes_def)
  show "writer (icmp_try_to_stream vector_ops m icmp) (icmp_encode m icmp)"
    unfolding icmp_try_to_stream_def icmp_encode_def icmp_header_bytes_def append_assoc checksum_u16_def
    using ok by (intro codec) (simp_all add: icmp_ok_def)
qed

section \<open>ICMP packets on any byte buffer\<close>

context byte_buffer_laws
begin

lemma icmp_try_to_stream_sim [writer_sim]:
  "ok b \<Longrightarrow> unat (os_cursor s) \<le> length (bytes b) \<Longrightarrow> icmp_ok m icmp \<Longrightarrow>
     wrel ok bytes (icmp_try_to_stream ops m icmp (b, s)) (icmp_try_to_stream vector_ops m icmp (bytes b, s))"
  unfolding icmp_try_to_stream_def
  by (intro writer_sim) (simp_all add: icmp_ok_def)

lemma icmp_write:
  assumes "ok b" and "icmp_ok m icmp" and "icmp_wire_size icmp \<le> length (bytes b)"
  shows "\<exists>b'. icmp_try_to_stream ops m icmp (b, ByteOStream) =
             Inr (b', ostream_at (icmp_wire_size icmp) ByteOStream) \<and>
           ok b' \<and> bytes b' = overwrite (bytes b) 0 (icmp_encode m icmp)"
  using icmp_try_to_stream_sim [of b ByteOStream m icmp] icmp.wr_fits [of m icmp "bytes b" 0 ByteOStream]
    assms small [OF assms(1)]
  by (intro wrel_InrD) (simp add: ByteOStream_def ostream_at_def)

lemma icmp_read_header_parses:
  assumes "ok b" and "icmp_ok m icmp"
  shows "parses (bytes b) (\<lambda>s. icmp_read_header ops b s ret) (icmp_header_bytes icmp)
     (icmp\<lparr>icmp_payload := icmp_payload ret\<rparr>)"
proof -
  have h: "icmp_header_bytes icmp = [icmp_type icmp] @ [icmp_code icmp] @
     [hi8 (ck_n (icmp_checksum icmp)), lo8 (ck_n (icmp_checksum icmp))] @ icmp_rest icmp @ []"
    by (simp add: icmp_header_bytes_def)
  have r: "icmp\<lparr>icmp_payload := icmp_payload ret\<rparr> = ret\<lparr>icmp_type := icmp_type icmp, icmp_code := icmp_code icmp,
      icmp_checksum := \<lparr>ck_n = ck_n (icmp_checksum icmp)\<rparr>, icmp_rest := icmp_rest icmp\<rparr>"
    by (cases icmp, cases ret) (simp add: checksum_eta)
  show ?thesis
    unfolding icmp_read_header_def h r
    by (rule codec | simp add: assms(1) assms(2) [unfolded icmp_ok_def] parses_return)+
qed

lemma icmp_read_header_cost [stream_cost]:
  assumes "ok b" and "unat (is_cursor s) \<le> length (bytes b)"
  shows "consumes (length (bytes b)) 8 s (icmp_read_header ops b s ret)"
proof -
  have "consumes (length (bytes b)) (1 + (1 + (2 + (4 + 0)))) s (icmp_read_header ops b s ret)"
    unfolding icmp_read_header_def
    by (rule consumes_bind_split consumes_return stream_cost assms | assumption | simp)+
  then show ?thesis by simp
qed

end

lemma icmp_encode_checksum:
  assumes "icmp_ok m icmp"
  shows "icmp_encode m (icmp\<lparr>icmp_checksum := c\<rparr>) =
     overwrite (icmp_encode m icmp) 2 [hi8 (ck_n c), lo8 (ck_n c)]"
  using assms by (simp add: icmp_encode_def icmp_header_bytes_def overwrite_def icmp_ok_def)

interpretation icmp_ck: checksum_packet icmp_ok icmp_encode "icmp_try_to_stream buffer_ops" icmp_buffer_size
  "\<lambda>c icmp. icmp\<lparr>icmp_checksum := c\<rparr>" 2
proof unfold_locales
  fix m m' m0 :: mem and b0 b c and icmp :: Icmp
  assume ok: "icmp_ok m icmp"
  show "unat (icmp_buffer_size icmp) = length (icmp_encode m icmp)" "unat (2 :: sz) + 2 \<le> length (icmp_encode m icmp)"
    using icmp_sizes [OF ok] icmp.enc_size [OF ok] by (simp_all add: icmp_wire_size_def)
  show "icmp_ok (m @ m') icmp \<and> icmp_encode (m @ m') icmp = icmp_encode m icmp"
    using ok buffer_frame_alloc [of m "icmp_payload icmp" m'] by (simp add: icmp_ok_def icmp_encode_def)
  show "icmp_encode m (icmp\<lparr>icmp_checksum := c\<rparr>) =
      overwrite (icmp_encode m icmp) (unat (2 :: sz)) [hi8 (ck_n c), lo8 (ck_n c)]"
    using icmp_encode_checksum [OF ok] by simp
  assume "buffer_window m0 b0 b" "length (icmp_encode m icmp) \<le> length (buffer_bytes b)"
  then show "\<exists>b'. icmp_try_to_stream buffer_ops m icmp (b, ByteOStream) =
        Inr (b', ostream_at (length (icmp_encode m icmp)) ByteOStream) \<and>
      buffer_window m0 b0 b' \<and> buffer_bytes b' = overwrite (buffer_bytes b) 0 (icmp_encode m icmp)"
    using win.icmp_write [of m0 b0 b m icmp] ok icmp.enc_size [OF ok] by simp
qed simp

lemma icmp_calculate: "icmp_calculate_checksum = icmp_ck.calculate"
  by (simp add: fun_eq_iff icmp_calculate_checksum_def icmp_ck.calculate_def)

definition icmp_sample :: Icmp where
  "icmp_sample = \<lparr>icmp_type = 8, icmp_code = 0, icmp_checksum = \<lparr>ck_n = 0x1234\<rparr>, icmp_rest = [0, 1, 0, 2],
     icmp_payload = \<lparr>buf_shared = Some 0, buf_offset = 0, buf_size = 3\<rparr>\<rparr>"

lemma icmp_sample_ok: "icmp_ok ([7, 8, 9] # m) icmp_sample" "icmp_wire_size icmp_sample = 11"
  by (simp_all add: icmp_sample_def icmp_ok_def icmp_wire_size_def buffer_ok.simps)

section \<open>Properties\<close>

text \<open>
  An ICMP packet written into a large enough \<^verbatim>\<open>Buffer\<close> occupies \<^verbatim>\<open>buffer_size()\<close> bytes,
  the header reads of the parser recover every field but the payload, and the payload follows
  the header.
\<close>

theorem icmp_header_roundtrip:
  assumes "icmp_ok m icmp" and "buffer_ok (m, b)" and "unat (icmp_buffer_size icmp) \<le> unat (buf_size b)"
  shows "\<exists>out. icmp_try_to_stream buffer_ops m icmp ((m, b), ByteOStream) =
            Inr (out, ostream_at (unat (icmp_buffer_size icmp)) ByteOStream) \<and>
          icmp_read_header buffer_ops out ByteIStream ret =
            Inr (istream_at 8 ByteIStream, icmp\<lparr>icmp_payload := icmp_payload ret\<rparr>) \<and>
          take (unat (buf_size (icmp_payload icmp))) (drop 8 (buffer_bytes out)) = buffer_bytes (m, icmp_payload icmp)"
proof -
  note size = icmp_sizes(2) [OF assms(1)]
  from buf.icmp_write [OF assms(2,1)] assms(2,3) size obtain out where
    w: "icmp_try_to_stream buffer_ops m icmp ((m, b), ByteOStream) =
        Inr (out, ostream_at (icmp_wire_size icmp) ByteOStream)"
      "buffer_ok out" "buffer_bytes out = overwrite (buffer_bytes (m, b)) 0 (icmp_encode m icmp)"
    by auto
  have h: "length (icmp_header_bytes icmp) = 8"
    using assms(1) by (simp add: icmp_header_bytes_def icmp_ok_def)
  have bytes: "take 8 (buffer_bytes out) = icmp_header_bytes icmp" "8 \<le> length (buffer_bytes out)"
    "take (unat (buf_size (icmp_payload icmp))) (drop 8 (buffer_bytes out)) = buffer_bytes (m, icmp_payload icmp)"
    using w(3) h assms by (simp_all add: icmp_encode_def overwrite_def icmp_ok_def)
  have "icmp_read_header buffer_ops out (istream_at 0 ByteIStream) ret =
      Inr (istream_at (0 + length (icmp_header_bytes icmp)) ByteIStream, icmp\<lparr>icmp_payload := icmp_payload ret\<rparr>)"
    using buf.icmp_read_header_parses [OF w(2) assms(1), of ret] bytes h
    unfolding parses_def by (simp add: ByteIStream_def)
  with w(1) bytes(3) h size show ?thesis
    by (auto simp flip: stream_start)
qed

theorem icmp_header_roundtrip_witness:
  "\<exists>out. icmp_try_to_stream buffer_ops [[7, 8, 9], replicate 12 0] icmp_sample
       (([[7, 8, 9], replicate 12 0], \<lparr>buf_shared = Some 1, buf_offset = 0, buf_size = 12\<rparr>), ByteOStream) =
       Inr (out, ostream_at 11 ByteOStream) \<and>
     icmp_read_header buffer_ops out ByteIStream icmp_sample = Inr (istream_at 8 ByteIStream, icmp_sample) \<and>
     take 3 (drop 8 (buffer_bytes out)) = [7, 8, 9]"
proof -
  let ?m = "[[7, 8, 9], replicate 12 0] :: mem"
  let ?b = "\<lparr>buf_shared = Some 1, buf_offset = 0, buf_size = 12\<rparr> :: Buffer"
  have b: "buffer_ok (?m, ?b)" and size: "unat (icmp_buffer_size icmp_sample) = 11"
    using icmp_sizes(2) [OF icmp_sample_ok(1)] by (simp_all add: buffer_ok.simps icmp_sample_ok(2))
  have "buffer_bytes (?m, icmp_payload icmp_sample) = [7, 8, 9]" "unat (buf_size (icmp_payload icmp_sample)) = 3"
    by (simp_all add: icmp_sample_def buffer_bytes.simps)
  with icmp_header_roundtrip [OF icmp_sample_ok(1) b, of icmp_sample] size show ?thesis
    by simp
qed

lemma echo_response:
  assumes "icmp_ok m icmp" and "icmp_wire_size icmp + 1 < 2 ^ 63" and "icmp_type icmp = EchoRequest"
  shows "\<exists>c. clone_as_echo_response m icmp = Inr (icmp\<lparr>icmp_type := EchoReply, icmp_checksum := c\<rparr>) \<and>
     checksum_span (pad_even (icmp_encode m (icmp\<lparr>icmp_type := EchoReply, icmp_checksum := c\<rparr>))) = Inr \<lparr>ck_n = 0\<rparr>"
proof -
  let ?r = "icmp\<lparr>icmp_type := EchoReply\<rparr>"
  have ok: "icmp_ok m ?r" and "length (icmp_encode m ?r) + 1 < 2 ^ 63"
    using assms icmp.enc_size [of m ?r] by (simp_all add: icmp_ok_def icmp_wire_size_def)
  from icmp_ck.calculate_verifies [OF this] assms(3) show ?thesis
    by (auto simp: clone_as_echo_response_def Icmp_convert_id Let_def icmp_calculate)
qed

text \<open>
  The reply to an echo request keeps the code, the identifier and sequence bytes and shares
  the payload, has type \<^verbatim>\<open>EchoReply\<close>, and its checksum is right: header and payload, padded to
  an even length, sum to zero. Replying to any other packet aborts.
\<close>

theorem clone_as_echo_response_spec:
  assumes "icmp_ok m icmp" and "icmp_wire_size icmp + 1 < 2 ^ 63"
  shows "if icmp_type icmp = EchoRequest
     then \<exists>c. clone_as_echo_response m icmp = Inr (icmp\<lparr>icmp_type := EchoReply, icmp_checksum := c\<rparr>) \<and>
       checksum_span (pad_even (icmp_encode m (icmp\<lparr>icmp_type := EchoReply, icmp_checksum := c\<rparr>))) = Inr \<lparr>ck_n = 0\<rparr>
     else clone_as_echo_response m icmp = Inl Assert_failed"
  using echo_response [OF assms] by (auto simp: clone_as_echo_response_def)

theorem clone_as_echo_response_spec_witness:
  "\<exists>c. clone_as_echo_response [[7, 8, 9]] icmp_sample =
       Inr (icmp_sample\<lparr>icmp_type := EchoReply, icmp_checksum := c\<rparr>)"
proof -
  have "icmp_type icmp_sample = EchoRequest"
    by (simp add: icmp_sample_def EchoRequest_def)
  with clone_as_echo_response_spec [OF icmp_sample_ok(1)] show ?thesis
    by (auto simp: icmp_sample_ok(2))
qed

text \<open>
  Parsing an ICMP packet aborts on every input and in both directions, because
  \<^verbatim>\<open>read_buffer\<close> is not implemented; the comparison of checksums is never reached.
\<close>

theorem icmp_try_from_stream_aborts:
  assumes "buffer_ok (m, b)" and "unat (is_cursor s) \<le> unat (buf_size b)"
  shows "icmp_try_from_stream direction buffer_ops m (m, b) s ret = Inl Assert_failed"
  using buf.icmp_read_header_cost [of "(m, b)" s ret] assms
  by (auto simp: icmp_try_from_stream_def consumes_def read_buffer_def)

theorem icmp_try_from_stream_aborts_witness:
  "icmp_try_from_stream DirectionOut buffer_ops [[0]]
     ([[0]], \<lparr>buf_shared = Some 0, buf_offset = 0, buf_size = 1\<rparr>) ByteIStream icmp_sample = Inl Assert_failed"
  by (rule icmp_try_from_stream_aborts) (simp_all add: buffer_ok.simps ByteIStream_def)

end
