(* ===== verification/Toad_Format.thy ===== *)
theory Toad_Format
  imports Toad_Arp Toad_Ipv4 Toad_Icmp
begin

text \<open>
  The formatters of \<^verbatim>\<open>defs.hpp\<close>, \<^verbatim>\<open>bytes/buffer.hpp\<close>, the headers of \<^verbatim>\<open>nic\<close> and \<^verbatim>\<open>concurrency/task.hpp\<close>. How the library fmt prints numbers
  is a parameter: \<open>dec n\<close> is what a field \<^verbatim>\<open>{}\<close> gives for an unsigned number and \<open>hex w n\<close> what \<^verbatim>\<open>{:0wX}\<close> gives. What it
  does with a null string is a parameter too.
\<close>

section \<open>The formatters\<close>

definition format_MAC :: "(nat \<Rightarrow> nat \<Rightarrow> string) \<Rightarrow> u8 list \<Rightarrow> string" where
  "format_MAC hex f =
     hex 2 (unat (f ! 0)) @ '':'' @ hex 2 (unat (f ! 1)) @ '':'' @ hex 2 (unat (f ! 2)) @ '':'' @
     hex 2 (unat (f ! 3)) @ '':'' @ hex 2 (unat (f ! 4)) @ '':'' @ hex 2 (unat (f ! 5))"

definition format_IPv4 :: "(nat \<Rightarrow> string) \<Rightarrow> u8 list \<Rightarrow> string" where
  "format_IPv4 dec f =
     dec (unat (f ! 0)) @ ''.'' @ dec (unat (f ! 1)) @ ''.'' @ dec (unat (f ! 2)) @ ''.'' @ dec (unat (f ! 3))"

definition format_Ip :: "(nat \<Rightarrow> string) \<Rightarrow> (nat \<Rightarrow> nat \<Rightarrow> string) \<Rightarrow> Ip \<Rightarrow> string" where
  "format_Ip dec hex f =
     ''<IP '' @ format_IPv4 dec (ip_src f) @ '' -> '' @ format_IPv4 dec (ip_dst f) @ '' protocol=0x'' @
     hex 2 (unat (ip_protocol f)) @ ''>''"

definition format_Arp :: "(nat \<Rightarrow> string) \<Rightarrow> (nat \<Rightarrow> nat \<Rightarrow> string) \<Rightarrow> arp_type \<Rightarrow> Arp \<Rightarrow> string" where
  "format_Arp dec hex t f =
     ''<ARP htype=0x'' @ hex 4 (unat (at_htype t)) @ '' ptype=0x'' @ hex 4 (unat (at_ptype t)) @
     '' hlen='' @ dec (unat (at_hlen t)) @ '' plen='' @ dec (unat (at_plen t)) @ '' op='' @ dec (unat (arp_oper f)) @ ''>''"

definition format_ArpIPv4 :: "(nat \<Rightarrow> string) \<Rightarrow> (nat \<Rightarrow> nat \<Rightarrow> string) \<Rightarrow> Arp \<Rightarrow> string" where
  "format_ArpIPv4 dec hex f =
     ''<ARP IPv4 op='' @ dec (unat (arp_oper f)) @ '' sha='' @ format_MAC hex (arp_sha f) @ '' spa='' @ format_IPv4 dec (arp_spa f) @
     '' tha='' @ format_MAC hex (arp_tha f) @ '' tpa='' @ format_IPv4 dec (arp_tpa f) @ ''>''"

text \<open>The pointer \<^verbatim>\<open>ptr\<close> stays null for a type the switch does not name.\<close>

definition format_IcmpType :: "string res \<Rightarrow> IcmpType \<Rightarrow> string res" where
  "format_IcmpType on_null f =
     (if f = EchoReply then Inr ''EchoReply'' else if f = EchoRequest then Inr ''EchoRequest'' else on_null)"

definition format_Icmp :: "string res \<Rightarrow> Icmp \<Rightarrow> string res" where
  "format_Icmp on_null f = rbind (format_IcmpType on_null (icmp_type f)) (\<lambda>s. Inr (''<ICMP '' @ s @ ''>''))"

definition format_checksum :: "(nat \<Rightarrow> string) \<Rightarrow> checksum \<Rightarrow> string" where
  "format_checksum dec f = dec (unat (ck_n f))"

text \<open>The loop over the bytes of a buffer, from index \<open>i\<close> on with \<open>k\<close> left.\<close>

fun format_bytes :: "(nat \<Rightarrow> nat \<Rightarrow> string) \<Rightarrow> mem \<Rightarrow> Buffer \<Rightarrow> nat \<Rightarrow> nat \<Rightarrow> string res" where
  "format_bytes hex m f i 0 = Inr []"
| "format_bytes hex m f i (Suc k) =
     rbind (buffer_at m f (of_nat i)) (\<lambda>x.
     rbind (format_bytes hex m f (Suc i) k) (\<lambda>out. Inr (hex 2 (unat x) @ '' '' @ out)))"

definition format_Buffer :: "(nat \<Rightarrow> nat \<Rightarrow> string) \<Rightarrow> mem \<Rightarrow> Buffer \<Rightarrow> string res" where
  "format_Buffer hex m f = format_bytes hex m f 0 (unat (buf_size f))"

text \<open>The elements of a vector are printed by their own formatter \<open>show_elem\<close>.\<close>

definition format_vector :: "('a \<Rightarrow> string) \<Rightarrow> 'a list \<Rightarrow> string" where
  "format_vector show_elem v =
     ''['' @ (case v of [] \<Rightarrow> [] | x # xs \<Rightarrow> show_elem x @ concat (map (\<lambda>y. '' '' @ show_elem y) xs)) @ '']''"

text \<open>\<^verbatim>\<open>CorrelationIdFormatter\<close>\<close>

definition format_correlation_id :: "(nat \<Rightarrow> nat \<Rightarrow> string) \<Rightarrow> u64 \<Rightarrow> string" where
  "format_correlation_id hex i = hex 8 (unat i)"

section \<open>What the number formats promise\<close>

definition hex_char :: "char \<Rightarrow> bool" where
  "hex_char c \<longleftrightarrow> c \<in> set ''0123456789ABCDEF''"

text \<open>A word of digits before a character that is none can be read off.\<close>

lemma digits_append_eq:
  assumes "\<And>c. c \<in> set xs \<Longrightarrow> hex_char c" "\<And>c. c \<in> set ys \<Longrightarrow> hex_char c" and "\<not> hex_char a" "\<not> hex_char b"
  shows "xs @ a # us = ys @ b # vs \<longleftrightarrow> xs = ys \<and> a = b \<and> us = vs"
proof
  assume eq: "xs @ a # us = ys @ b # vs"
  have "takeWhile hex_char (xs @ a # us) = xs" "takeWhile hex_char (ys @ b # vs) = ys"
    using assms by (simp_all add: takeWhile_append2)
  with eq show "xs = ys \<and> a = b \<and> us = vs" by simp
qed simp

lemma no_hex_char [simp]:
  "\<not> hex_char CHR '':''" "\<not> hex_char CHR ''.''" "\<not> hex_char CHR '' ''" "\<not> hex_char CHR '']''" "\<not> hex_char CHR ''>''"
  by (simp_all add: hex_char_def)

text \<open>A vector from its second element on.\<close>

definition vector_tail :: "('a \<Rightarrow> string) \<Rightarrow> 'a list \<Rightarrow> string" where
  "vector_tail f xs = concat (map (\<lambda>y. '' '' @ f y) xs) @ '']''"

lemma vector_tail_Cons: "vector_tail f (x # xs) = CHR '' '' # f x @ vector_tail f xs"
  by (simp add: vector_tail_def)

lemma vector_tail_start: "\<exists>a us. vector_tail f xs = a # us \<and> \<not> hex_char a"
  by (cases xs) (simp_all add: vector_tail_def)

lemma format_vector_tail:
  "format_vector f [] = ''['' @ '']''" "format_vector f (x # xs) = ''['' @ f x @ vector_tail f xs"
  by (simp_all add: format_vector_def vector_tail_def)

locale number_format =
  fixes dec :: "nat \<Rightarrow> string" and hex :: "nat \<Rightarrow> nat \<Rightarrow> string"
  assumes dec_digits: "c \<in> set (dec n) \<Longrightarrow> hex_char c" and dec_nonempty: "dec n \<noteq> []"
    and dec_inj: "dec m = dec n \<longleftrightarrow> m = n"
    and hex_digits: "c \<in> set (hex w n) \<Longrightarrow> hex_char c" and hex_inj: "hex w m = hex w n \<longleftrightarrow> m = n"
begin

lemma dec_append_eq:
  "\<not> hex_char a \<Longrightarrow> \<not> hex_char b \<Longrightarrow>
     dec (unat (x :: 'w::len word)) @ a # us = dec (unat (y :: 'w word)) @ b # vs \<longleftrightarrow> x = y \<and> a = b \<and> us = vs"
  using dec_digits by (subst digits_append_eq) (simp_all add: dec_inj word_unat_eq_iff)

lemma hex_append_eq:
  "\<not> hex_char a \<Longrightarrow> \<not> hex_char b \<Longrightarrow>
     hex w (unat (x :: 'w::len word)) @ a # us = hex w (unat (y :: 'w word)) @ b # vs \<longleftrightarrow> x = y \<and> a = b \<and> us = vs"
  using hex_digits by (subst digits_append_eq) (simp_all add: hex_inj word_unat_eq_iff)

lemma IPv4_append_eq:
  assumes "length p = 4" and "length q = 4" and "\<not> hex_char a" "\<not> hex_char b"
  shows "format_IPv4 dec p @ a # us = format_IPv4 dec q @ b # vs \<longleftrightarrow> p = q \<and> a = b \<and> us = vs"
proof -
  obtain p0 p1 p2 p3 q0 q1 q2 q3 where "p = [p0, p1, p2, p3]" "q = [q0, q1, q2, q3]"
    using assms(1,2) by (auto simp: length_Suc_conv eval_nat_numeral)
  then show ?thesis
    using assms(3,4) by (simp add: format_IPv4_def dec_append_eq)
qed

lemma MAC_append_eq:
  assumes "length p = 6" and "length q = 6" and "\<not> hex_char a" "\<not> hex_char b"
  shows "format_MAC hex p @ a # us = format_MAC hex q @ b # vs \<longleftrightarrow> p = q \<and> a = b \<and> us = vs"
proof -
  obtain p0 p1 p2 p3 p4 p5 q0 q1 q2 q3 q4 q5 where "p = [p0, p1, p2, p3, p4, p5]" "q = [q0, q1, q2, q3, q4, q5]"
    using assms(1,2) by (auto simp: length_Suc_conv eval_nat_numeral)
  then show ?thesis
    using assms(3,4) by (simp add: format_MAC_def hex_append_eq)
qed

lemma vector_tail_eq:
  "vector_tail (\<lambda>x :: u8. dec (unat x)) xs = vector_tail (\<lambda>x. dec (unat x)) ys \<longleftrightarrow> xs = ys"
proof (induction xs arbitrary: ys)
  case Nil
  show ?case by (cases ys) (simp_all add: vector_tail_def)
next
  case (Cons x xs)
  show ?case
  proof (cases ys)
    case ys: (Cons y zs)
    obtain a us b vs where "vector_tail (\<lambda>x :: u8. dec (unat x)) xs = a # us" "vector_tail (\<lambda>x :: u8. dec (unat x)) zs = b # vs"
      "\<not> hex_char a" "\<not> hex_char b"
      using vector_tail_start by metis
    with Cons.IH [of zs] ys show ?thesis
      by (simp add: vector_tail_Cons dec_append_eq)
  qed (simp add: vector_tail_def)
qed

lemma vector_eq:
  "format_vector (\<lambda>x :: u8. dec (unat x)) xs = format_vector (\<lambda>x. dec (unat x)) ys \<longleftrightarrow> xs = ys"
proof -
  have start: "dec (unat (x :: u8)) @ us \<noteq> '']'' @ vs" for x us vs
    using dec_nonempty [of "unat x"] dec_digits [of "hd (dec (unat x))" "unat x"] by (cases "dec (unat x)") auto
  show ?thesis
  proof (cases xs)
    case Nil
    then show ?thesis
      using start [where vs = "[]"] by (cases ys) (auto simp: format_vector_tail dest: sym)
  next
    case (Cons x zs)
    then show ?thesis
      using start [where vs = "[]"] vector_tail_eq [of xs ys] by (cases ys) (simp_all add: format_vector_tail vector_tail_Cons)
  qed
qed

lemma dump_eq:
  "concat (map (\<lambda>x. hex 2 (unat (x :: u8)) @ '' '') xs) = concat (map (\<lambda>x. hex 2 (unat x) @ '' '') ys) \<longleftrightarrow> xs = ys"
proof (induction xs arbitrary: ys)
  case Nil
  show ?case by (cases ys) simp_all
next
  case (Cons x xs)
  then show ?case by (cases ys) (simp_all add: hex_append_eq)
qed

end

section \<open>Positional notation\<close>

text \<open>The usual notation keeps these promises: digits with a base of at most 16, padded with zeros.\<close>

definition digit_char :: "nat \<Rightarrow> char" where
  "digit_char d = ''0123456789ABCDEF'' ! d"

definition digit_value :: "char \<Rightarrow> nat" where
  "digit_value c = length (takeWhile (\<lambda>x. x \<noteq> c) ''0123456789ABCDEF'')"

function positional :: "nat \<Rightarrow> nat \<Rightarrow> string" where
  "positional b n = (if b < 2 \<or> n < b then [digit_char n] else positional b (n div b) @ [digit_char (n mod b)])"
  by auto

termination positional
  by (relation "measure snd") auto

declare positional.simps [simp del]

definition padded :: "nat \<Rightarrow> string \<Rightarrow> string" where
  "padded w s = replicate (w - length s) (CHR ''0'') @ s"

definition read_digits :: "nat \<Rightarrow> string \<Rightarrow> nat" where
  "read_digits b s = foldl (\<lambda>n c. n * b + digit_value c) 0 s"

lemma digit_char_less: "d < 16 \<Longrightarrow> digit_value (digit_char d) = d \<and> hex_char (digit_char d)"
proof -
  assume "d < 16"
  then have "d \<in> {0, 1, 2, 3, 4, 5, 6, 7, 8, 9, 10, 11, 12, 13, 14, 15}"
    unfolding insert_iff empty_iff by arith
  then show ?thesis
    by (elim insertE emptyE) (simp_all add: digit_char_def digit_value_def hex_char_def)
qed

lemma read_positional: "2 \<le> b \<Longrightarrow> b \<le> 16 \<Longrightarrow> read_digits b (positional b n) = n"
proof (induction b n rule: positional.induct)
  case (1 b n)
  have "n mod b < 16"
    using 1(2,3) by (intro less_le_trans [OF mod_less_divisor]) simp_all
  with 1 show ?case
    by (subst positional.simps) (auto simp: read_digits_def digit_char_less)
qed

lemma read_padded: "read_digits b (padded w s) = read_digits b s"
proof -
  have "foldl (\<lambda>n c. n * b + digit_value c) 0 (replicate k (CHR ''0'')) = 0" for k
    by (induction k) (simp_all add: digit_value_def)
  then show ?thesis by (simp add: read_digits_def padded_def)
qed

lemma positional_digits: "2 \<le> b \<Longrightarrow> b \<le> 16 \<Longrightarrow> c \<in> set (positional b n) \<Longrightarrow> hex_char c"
proof (induction b n rule: positional.induct)
  case (1 b n)
  have "n mod b < 16"
    using 1(2,3) by (intro less_le_trans [OF mod_less_divisor]) simp_all
  moreover have "c \<in> set (if b < 2 \<or> n < b then [digit_char n] else positional b (n div b) @ [digit_char (n mod b)])"
    using 1(4) by (simp only: positional.simps [of b n])
  ultimately show ?case
    using 1(1-3) by (auto simp: digit_char_less split: if_splits)
qed

lemma positional_nonempty: "positional b n \<noteq> []"
  by (subst positional.simps) simp

lemma padded_digits: "c \<in> set (padded w s) \<Longrightarrow> hex_char c \<or> c \<in> set s"
  by (auto simp: padded_def hex_char_def split: if_splits)

interpretation positional: number_format "positional 10" "\<lambda>w n. padded w (positional 16 n)"
proof
  have ten: "(2 :: nat) \<le> 10" "(10 :: nat) \<le> 16" and sixteen: "(2 :: nat) \<le> 16" "(16 :: nat) \<le> 16"
    by simp_all
  show "positional 10 m = positional 10 n \<longleftrightarrow> m = n" for m n
    using read_positional [OF ten, of m] read_positional [OF ten, of n] by metis
  show "padded w (positional 16 m) = padded w (positional 16 n) \<longleftrightarrow> m = n" for w m n
    using read_positional [OF sixteen, of m] read_positional [OF sixteen, of n]
      read_padded [of 16 w "positional 16 m"] read_padded [of 16 w "positional 16 n"] by metis
  show "hex_char c" if "c \<in> set (padded w (positional 16 n))" for c w n
    using padded_digits [OF that] positional_digits [OF sixteen, of c n] by blast
  show "hex_char c" if "c \<in> set (positional 10 n)" for c n
    using that by (rule positional_digits [OF ten])
  show "positional 10 n \<noteq> []" for n
    by (rule positional_nonempty)
qed

section \<open>Properties\<close>

text \<open>The loop over a well-formed buffer stays inside it and prints its bytes in order.\<close>

lemma format_bytes_eq:
  assumes "buffer_ok (m, b)" and "i + k = unat (buf_size b)"
  shows "format_bytes hex m b i k = Inr (concat (map (\<lambda>x. hex 2 (unat x) @ '' '') (drop i (buffer_bytes (m, b)))))"
  using assms(2)
proof (induction k arbitrary: i)
  case 0
  then show ?case
    using length_buffer_bytes [OF assms(1)] by simp
next
  case (Suc k)
  then have i: "i < length (buffer_bytes (m, b))"
    using length_buffer_bytes [OF assms(1)] by simp
  have "unat (of_nat i :: sz) = i"
    using Suc.prems buffer_ok_small [OF assms(1)] by (intro unat_of_nat_64) simp
  then have at: "buffer_at m b (of_nat i) = Inr (buffer_bytes (m, b) ! i)"
    using buffer_load [OF assms(1), of i 1] Suc.prems i
    by (simp add: buffer_at_def hd_drop_conv_nth take_Suc_conv_app_nth del: buffer_bytes.simps)
  show ?case
    using Suc.IH [of "Suc i"] Suc.prems i at Cons_nth_drop_Suc [OF i, symmetric]
    by (simp del: buffer_bytes.simps)
qed

text \<open>
  C40: what is printed identifies what was printed, for any number format that keeps its promises.
  Two addresses, IP packets (up to the fields that are printed), byte vectors or well-formed
  buffers have the same text exactly when they are equal, and printing a well-formed buffer
  never leaves it.
\<close>

theorem format_injective:
  assumes "number_format dec hex" and "mac_ok a" "mac_ok a'" "ipv4_ok p" "ipv4_ok p'"
    and "ipv4_ok (ip_src i)" "ipv4_ok (ip_dst i)" "ipv4_ok (ip_src i')" "ipv4_ok (ip_dst i')"
    and "buffer_ok (m, b)" "buffer_ok (m', b')"
  shows "(format_MAC hex a = format_MAC hex a' \<longleftrightarrow> a = a') \<and>
     (format_IPv4 dec p = format_IPv4 dec p' \<longleftrightarrow> p = p') \<and>
     (format_Ip dec hex i = format_Ip dec hex i' \<longleftrightarrow>
        ip_src i = ip_src i' \<and> ip_dst i = ip_dst i' \<and> ip_protocol i = ip_protocol i') \<and>
     (format_vector (\<lambda>x :: u8. dec (unat x)) v = format_vector (\<lambda>x. dec (unat x)) v' \<longleftrightarrow> v = v') \<and>
     (\<exists>s. format_Buffer hex m b = Inr s) \<and>
     (format_Buffer hex m b = format_Buffer hex m' b' \<longleftrightarrow> buffer_bytes (m, b) = buffer_bytes (m', b'))"
proof -
  note nf = number_format.MAC_append_eq [OF assms(1)] number_format.IPv4_append_eq [OF assms(1)]
    number_format.hex_append_eq [OF assms(1)] number_format.hex_inj [OF assms(1)]
  have mac: "format_MAC hex a = format_MAC hex a' \<longleftrightarrow> a = a'"
    using nf(1) [of a a' "CHR '' ''" "CHR '' ''" "[]" "[]"] assms(2,3) by (simp add: mac_ok_def)
  have ip: "format_IPv4 dec p = format_IPv4 dec p' \<longleftrightarrow> p = p'"
    using nf(2) [of p p' "CHR '' ''" "CHR '' ''" "[]" "[]"] assms(4,5) by (simp add: ipv4_ok_def)
  have packet: "format_Ip dec hex i = format_Ip dec hex i' \<longleftrightarrow>
      ip_src i = ip_src i' \<and> ip_dst i = ip_dst i' \<and> ip_protocol i = ip_protocol i'"
    using assms(6-9) by (simp add: format_Ip_def nf ipv4_ok_def word_unat_eq_iff)
  have buf: "format_Buffer hex m b = Inr (concat (map (\<lambda>x. hex 2 (unat x) @ '' '') (buffer_bytes (m, b))))"
    "format_Buffer hex m' b' = Inr (concat (map (\<lambda>x. hex 2 (unat x) @ '' '') (buffer_bytes (m', b'))))"
    using format_bytes_eq [OF assms(10), of 0] format_bytes_eq [OF assms(11), of 0] by (simp_all add: format_Buffer_def)
  show ?thesis
    using mac ip packet number_format.vector_eq [OF assms(1)] buf number_format.dump_eq [OF assms(1)] by simp
qed

theorem format_injective_witness:
  "format_IPv4 (positional 10) [10, 0, 0, 1] \<noteq> format_IPv4 (positional 10) [100, 0, 1, 0]"
  using format_injective [OF positional.number_format_axioms, of "replicate 6 0" "replicate 6 0" "[10, 0, 0, 1]" "[100, 0, 1, 0]"
      ip_sample ip_sample "[]" Buffer_default "[]" Buffer_default]
  by (simp add: mac_ok_def ipv4_ok_def ip_sample_def Buffer_default_def buffer_ok.simps)

text \<open>
  An ICMP packet whose type is neither of the two is printed through a null pointer.
\<close>

theorem format_Icmp_unknown:
  "format_Icmp on_null f =
     (if icmp_type f = EchoReply then Inr ''<ICMP EchoReply>''
      else if icmp_type f = EchoRequest then Inr ''<ICMP EchoRequest>''
      else rbind on_null (\<lambda>s. Inr (''<ICMP '' @ s @ ''>'')))"
  by (simp add: format_Icmp_def format_IcmpType_def)

end
