(* ===== verification/Toad_Ethernet.thy ===== *)
theory Toad_Ethernet
  imports Toad_Addr
begin

text \<open>
  \<^verbatim>\<open>include/nic/ethernet.hpp\<close>: the Ethernet frame, its writer, its parser and the frame built
  in response. The parser ends in \<^verbatim>\<open>read_buffer\<close>, which has no implementation, so what it
  reads before that point is a definition of its own and the parser as a whole aborts.
\<close>

section \<open>The code\<close>

record EthernetFrame =
  eth_dst :: MAC
  eth_src :: MAC
  eth_ethertype :: u16
  eth_payload :: Buffer

definition EthernetFrame_new :: "EthernetFrame \<Rightarrow> MAC \<Rightarrow> MAC \<Rightarrow> u16 \<Rightarrow> EthernetFrame" where
  "EthernetFrame_new uninit dst src ethertype =
     uninit\<lparr>eth_dst := dst, eth_src := src, eth_ethertype := ethertype, eth_payload := Buffer_default\<rparr>"

definition eth_header_size :: sz where
  "eth_header_size = 14"

definition eth_header_dynamic_size :: "EthernetFrame \<Rightarrow> sz" where
  "eth_header_dynamic_size f = 0"

definition eth_payload_size :: "EthernetFrame \<Rightarrow> sz" where
  "eth_payload_size f = buf_size (eth_payload f)"

definition eth_size :: "EthernetFrame \<Rightarrow> sz" where
  "eth_size f = eth_header_size + eth_header_dynamic_size f + eth_payload_size f"

definition eth_min_buffer_size :: "EthernetFrame \<Rightarrow> sz" where
  "eth_min_buffer_size f = 2 * 6 + 2 + buf_size (eth_payload f)"

text \<open>\<open>frame\<close> is the frame as the default constructor left it.\<close>

definition eth_read_header :: "'b byte_buffer \<Rightarrow> 'b \<Rightarrow> istream \<Rightarrow> EthernetFrame \<Rightarrow> (istream \<times> EthernetFrame) res" where
  "eth_read_header ops bytes s frame =
     rbind (read_array ops bytes s 6 (eth_dst frame)) (\<lambda>(s, dst).
     rbind (read_array ops bytes s 6 (eth_src frame)) (\<lambda>(s, src).
     rbind (read_u16 ops bytes s (eth_ethertype frame)) (\<lambda>(s, ethertype).
     Inr (s, frame\<lparr>eth_dst := dst, eth_src := src, eth_ethertype := ethertype\<rparr>))))"

definition eth_try_from_stream :: "'b byte_buffer \<Rightarrow> 'b \<Rightarrow> istream \<Rightarrow> EthernetFrame \<Rightarrow> (istream \<times> EthernetFrame) res" where
  "eth_try_from_stream ops bytes s frame =
     rbind (eth_read_header ops bytes s frame) (\<lambda>(s, frame).
     rbind (read_buffer s (eth_payload frame)) (\<lambda>(s, payload).
     Inr (s, frame\<lparr>eth_payload := payload\<rparr>)))"

text \<open>
  \<open>m\<close> is the store that holds the payload. The code always writes into a buffer it has just
  allocated, so writing the header does not change the payload.
\<close>

definition eth_try_to_stream :: "'b byte_buffer \<Rightarrow> mem \<Rightarrow> EthernetFrame \<Rightarrow> 'b \<times> ostream \<Rightarrow> ('b \<times> ostream) res" where
  "eth_try_to_stream ops m f stream =
     rbind (write_array ops stream (eth_dst f)) (\<lambda>stream.
     rbind (write_array ops stream (eth_src f)) (\<lambda>stream.
     rbind (write_u16 ops stream (eth_ethertype f)) (\<lambda>stream.
     write_buffer ops stream m (eth_payload f))))"

text \<open>
  \<open>ret\<close> is the response as its constructor left it: the source address keeps that value when
  the sender is not overridden.
\<close>

definition eth_clone_as_response ::
  "EthernetFrame \<Rightarrow> mem \<Rightarrow> EthernetFrame \<Rightarrow> u16 \<Rightarrow> sz \<Rightarrow> MAC \<Rightarrow> mem \<times> EthernetFrame" where
  "eth_clone_as_response ret m this ethertype payload_size override_sender =
     (let ret = ret\<lparr>eth_dst := eth_src this\<rparr>;
          ret = (if \<not> is_default override_sender then ret\<lparr>eth_src := override_sender\<rparr> else ret);
          ret = ret\<lparr>eth_ethertype := ethertype\<rparr>;
          (m, payload) = Buffer_sized m payload_size
      in (m, ret\<lparr>eth_payload := payload\<rparr>))"

section \<open>The wire form\<close>

definition eth_ok :: "mem \<Rightarrow> EthernetFrame \<Rightarrow> bool" where
  "eth_ok m f \<longleftrightarrow> mac_ok (eth_dst f) \<and> mac_ok (eth_src f) \<and> buffer_ok (m, eth_payload f)"

definition eth_encode :: "mem \<Rightarrow> EthernetFrame \<Rightarrow> u8 list" where
  "eth_encode m f = eth_dst f @ eth_src f @ [hi8 (eth_ethertype f), lo8 (eth_ethertype f)] @
     buffer_bytes (m, eth_payload f)"

definition eth_wire_size :: "EthernetFrame \<Rightarrow> nat" where
  "eth_wire_size f = 14 + unat (buf_size (eth_payload f))"

lemma eth_size_wire: "eth_ok m f \<Longrightarrow> unat (eth_size f) = eth_wire_size f"
  using buffer_ok_small [of m "eth_payload f"]
  by (simp add: eth_ok_def eth_size_def eth_header_size_def eth_header_dynamic_size_def
      eth_payload_size_def eth_wire_size_def unat_word_ariths)

lemma eth_min_buffer_size_eq: "eth_min_buffer_size f = eth_size f"
  by (simp add: eth_min_buffer_size_def eth_size_def eth_header_size_def eth_header_dynamic_size_def
      eth_payload_size_def)

interpretation eth: packet "eth_ok m" "eth_encode m" "eth_try_to_stream vector_ops m" eth_wire_size
proof unfold_locales
  fix f
  assume ok: "eth_ok m f"
  then show "length (eth_encode m f) = eth_wire_size f"
    by (simp add: eth_ok_def eth_encode_def eth_wire_size_def mac_ok_def)
  show "writer (eth_try_to_stream vector_ops m f) (eth_encode m f)"
    unfolding eth_try_to_stream_def eth_encode_def
    using ok by (intro codec) (simp_all add: eth_ok_def mac_ok_def)
qed

section \<open>Frames on any byte buffer\<close>

context byte_buffer_laws
begin

lemma eth_try_to_stream_sim [writer_sim]:
  "ok b \<Longrightarrow> unat (os_cursor s) \<le> length (bytes b) \<Longrightarrow> eth_ok m f \<Longrightarrow>
     wrel ok bytes (eth_try_to_stream ops m f (b, s)) (eth_try_to_stream vector_ops m f (bytes b, s))"
  unfolding eth_try_to_stream_def
  by (intro writer_sim; simp add: eth_ok_def mac_ok_def)

lemma eth_write:
  assumes "ok b" and "eth_ok m f" and "p + eth_wire_size f \<le> length (bytes b)"
  shows "\<exists>b'. eth_try_to_stream ops m f (b, ostream_at p s) = Inr (b', ostream_at (p + eth_wire_size f) s) \<and>
           ok b' \<and> bytes b' = overwrite (bytes b) p (eth_encode m f)"
proof (rule wrel_InrD)
  have "unat (of_nat p :: sz) = p"
    using assms(3) small [OF assms(1)] by (intro unat_of_nat_64) simp
  then show "wrel ok bytes (eth_try_to_stream ops m f (b, ostream_at p s))
      (Inr (overwrite (bytes b) p (eth_encode m f), ostream_at (p + eth_wire_size f) s))"
    using eth_try_to_stream_sim [of b "ostream_at p s" m f] eth.wr_fits [of m f "bytes b" p s]
      assms small [OF assms(1)] by simp
qed

lemma eth_read_header_at:
  assumes "ok b" and "p + 14 \<le> length (bytes b)"
  shows "eth_read_header ops b (istream_at p s) f =
     Inr (istream_at (p + 14) s,
          f\<lparr>eth_dst := take 6 (drop p (bytes b)), eth_src := take 6 (drop (p + 6) (bytes b)),
            eth_ethertype := be16 (bytes b ! (p + 12)) (bytes b ! (p + 13))\<rparr>)"
  using assms by (simp add: eth_read_header_def stream_simps) (simp add: add.commute)

lemma eth_read_header_cost [stream_cost]:
  assumes "ok b" and "unat (is_cursor s) \<le> length (bytes b)"
  shows "consumes (length (bytes b)) 14 s (eth_read_header ops b s f)"
proof -
  have "consumes (length (bytes b)) (6 + (6 + (2 + 0))) s (eth_read_header ops b s f)"
    unfolding eth_read_header_def
    using assms by (intro consumes_bind_split consumes_return stream_cost) simp_all
  then show ?thesis by simp
qed

end

section \<open>Properties\<close>

text \<open>
  A frame written into a large enough \<^verbatim>\<open>Buffer\<close> is read back: the header parser
  returns its addresses and ethertype, stops at byte 14, and the bytes that follow are the
  payload.
\<close>

theorem eth_header_roundtrip:
  assumes "eth_ok m f" and "buffer_ok (m, b)" and "eth_wire_size f \<le> unat (buf_size b)"
  shows "\<exists>out. eth_try_to_stream buffer_ops m f ((m, b), ByteOStream) =
            Inr (out, ostream_at (eth_wire_size f) ByteOStream) \<and>
          eth_read_header buffer_ops out ByteIStream g =
            Inr (istream_at 14 ByteIStream,
                 g\<lparr>eth_dst := eth_dst f, eth_src := eth_src f, eth_ethertype := eth_ethertype f\<rparr>) \<and>
          take (unat (buf_size (eth_payload f))) (drop 14 (buffer_bytes out)) = buffer_bytes (m, eth_payload f)"
proof -
  have "0 + eth_wire_size f \<le> length (buffer_bytes (m, b))"
    using assms by simp
  from buf.eth_write [OF assms(2,1) this, of ByteOStream] obtain out where
    w: "eth_try_to_stream buffer_ops m f ((m, b), ByteOStream) =
          Inr (out, ostream_at (eth_wire_size f) ByteOStream)" "buffer_ok out"
      "buffer_bytes out = overwrite (buffer_bytes (m, b)) 0 (eth_encode m f)"
    by (auto simp flip: stream_start)
  then have "0 + 14 \<le> length (buffer_bytes out)"
    using assms eth.enc_size [OF assms(1)] by (simp add: eth_wire_size_def)
  from buf.eth_read_header_at [OF w(2) this, of ByteIStream g]
  have "eth_read_header buffer_ops out ByteIStream g =
      Inr (istream_at 14 ByteIStream,
           g\<lparr>eth_dst := eth_dst f, eth_src := eth_src f, eth_ethertype := eth_ethertype f\<rparr>)"
    using assms(1)
    by (simp add: w(3) overwrite_def eth_encode_def eth_ok_def mac_ok_def nth_append flip: stream_start)
  then show ?thesis
    using w assms(1) by (auto simp: overwrite_def eth_encode_def eth_ok_def mac_ok_def)
qed

theorem eth_header_roundtrip_witness:
  "\<exists>out. eth_try_to_stream buffer_ops [[7, 8], replicate 16 0]
       \<lparr>eth_dst = [1, 2, 3, 4, 5, 6], eth_src = [9, 9, 9, 9, 9, 9], eth_ethertype = 0x0806,
        eth_payload = \<lparr>buf_shared = Some 0, buf_offset = 0, buf_size = 2\<rparr>\<rparr>
       (([[7, 8], replicate 16 0], \<lparr>buf_shared = Some 1, buf_offset = 0, buf_size = 16\<rparr>), ByteOStream) =
       Inr (out, ostream_at 16 ByteOStream) \<and> take 2 (drop 14 (buffer_bytes out)) = [7, 8]"
proof -
  let ?m = "[[7, 8], replicate 16 0] :: mem"
  let ?b = "\<lparr>buf_shared = Some 1, buf_offset = 0, buf_size = 16\<rparr> :: Buffer"
  let ?f = "\<lparr>eth_dst = [1, 2, 3, 4, 5, 6], eth_src = [9, 9, 9, 9, 9, 9], eth_ethertype = 0x0806,
    eth_payload = \<lparr>buf_shared = Some 0, buf_offset = 0, buf_size = 2\<rparr>\<rparr>"
  have "eth_ok ?m ?f" "buffer_ok (?m, ?b)" and n: "eth_wire_size ?f = 16"
    by (simp_all add: eth_ok_def mac_ok_def eth_wire_size_def buffer_ok.simps)
  moreover have "buffer_bytes (?m, eth_payload ?f) = [7, 8]"
    by (simp add: buffer_bytes.simps)
  ultimately show ?thesis
    using eth_header_roundtrip [of ?m ?f ?b ?f] by auto
qed

text \<open>
  Parsing a whole frame aborts on every input, however many bytes it holds, because
  \<^verbatim>\<open>read_buffer\<close> is not implemented.
\<close>

theorem eth_try_from_stream_aborts:
  assumes "buffer_ok b" and "unat (is_cursor s) \<le> length (buffer_bytes b)"
  shows "eth_try_from_stream buffer_ops b s f = Inl Assert_failed"
  using buf.eth_read_header_cost [OF assms, of f]
  by (auto simp: consumes_def eth_try_from_stream_def read_buffer_def)

theorem eth_try_from_stream_aborts_witness:
  "eth_try_from_stream buffer_ops (Buffer_sized [] 64) ByteIStream
     \<lparr>eth_dst = [], eth_src = [], eth_ethertype = 0, eth_payload = Buffer_default\<rparr> = Inl Assert_failed"
  using Buffer_sized_ok [of 64 "[]"]
  by (intro eth_try_from_stream_aborts) (simp_all add: ByteIStream_def)

text \<open>
  A response frame goes back to the sender of the request, from the overriding address
  when one is given, with a zeroed payload of the size asked for in a fresh allocation; every
  buffer of the store is left as it was. Without an override the source address is whatever
  the uninitialised response held.
\<close>

theorem eth_clone_as_response_spec:
  assumes "eth_clone_as_response ret m f ethertype n sender = (m', r)" and "unat n < 2 ^ 63"
    and "mac_ok sender"
  shows "eth_dst r = eth_src f \<and> eth_ethertype r = ethertype \<and>
     eth_src r = (if sender = replicate 6 0 then eth_src ret else sender) \<and>
     buffer_ok (m', eth_payload r) \<and> buffer_bytes (m', eth_payload r) = replicate (unat n) 0 \<and>
     (buffer_ok (m, b) \<longrightarrow> buffer_ok (m', b) \<and> buffer_bytes (m', b) = buffer_bytes (m, b))"
  using assms Buffer_sized_ok [of n m] buffer_frame_alloc [of m b "[replicate (unat n) 0]"]
  by (auto simp: eth_clone_as_response_def Let_def is_default_iff Buffer_sized_def)

theorem eth_clone_as_response_spec_witness:
  "eth_src (snd (eth_clone_as_response
      \<lparr>eth_dst = [], eth_src = [5, 5, 5, 5, 5, 5], eth_ethertype = 0, eth_payload = Buffer_default\<rparr> []
      \<lparr>eth_dst = [1, 1, 1, 1, 1, 1], eth_src = [2, 2, 2, 2, 2, 2], eth_ethertype = 3, eth_payload = Buffer_default\<rparr>
      0x0806 28 (replicate 6 0))) = [5, 5, 5, 5, 5, 5]"
proof -
  obtain m' r where e: "eth_clone_as_response
      \<lparr>eth_dst = [], eth_src = [5, 5, 5, 5, 5, 5], eth_ethertype = 0, eth_payload = Buffer_default\<rparr> []
      \<lparr>eth_dst = [1, 1, 1, 1, 1, 1], eth_src = [2, 2, 2, 2, 2, 2], eth_ethertype = 3, eth_payload = Buffer_default\<rparr>
      0x0806 28 (replicate 6 0) = (m', r)" by (metis surj_pair)
  from eth_clone_as_response_spec [OF e] show ?thesis by (simp add: e mac_ok_def)
qed

end
