(* ===== verification/Toad_Device.thy ===== *)
theory Toad_Device
  imports Toad_Ethernet
begin

text \<open>
  \<^verbatim>\<open>include/nic/device.hpp\<close>: the TAP device. The answers of the kernel are arguments, gathered
  in the record \<open>tun_kernel\<close>; \<open>k_pton\<close> is the C library's \<^verbatim>\<open>inet_pton\<close> and \<open>k_ioctl\<close> gives the result of a request
  and the structure as the kernel leaves it. The model of \<^verbatim>\<open>try_new\<close> lists its system calls in order; the
  messages it logs are left out.
\<close>

section \<open>The code\<close>

record Device =
  own_mac :: MAC
  own_ip :: IPv4
  dev_fd :: int
  maximum_transmission_unit :: sz

record tun_kernel =
  k_open :: int
  k_mac_socket :: int
  k_socket :: int
  k_ioctl :: "int \<Rightarrow> ioctl_request \<Rightarrow> ifreq \<Rightarrow> int \<times> ifreq"
  k_pton :: "string \<Rightarrow> u8 list option"

text \<open>
  The block of \<^verbatim>\<open>try_new\<close> that configures the interface named in \<open>name\<close>: address, netmask and flags.
  \<^verbatim>\<open>ifr_addr\<close> and \<^verbatim>\<open>ifr_netmask\<close> are the same memory, and \<^verbatim>\<open>inet_pton\<close> leaves its output alone when the text is
  not an address. A failure of one of the four calls is only logged. The result is the address
  read back from the structure after the first call, with the calls made.
\<close>

definition device_configure :: "tun_kernel \<Rightarrow> int \<Rightarrow> string \<Rightarrow> string \<Rightarrow> string \<Rightarrow> IPv4 \<times> syscall list" where
  "device_configure k sock_fd name own_ip_text network_mask =
     (let i_addr = ifreq_zero\<lparr>ifr_name := strncpy (replicate 16 NUL) name 16\<rparr>;
          i_addr = i_addr\<lparr>ifr_sin_family := 2\<rparr>;
          i_addr = (case k_pton k own_ip_text of None \<Rightarrow> i_addr | Some a \<Rightarrow> i_addr\<lparr>ifr_sin_addr := a\<rparr>);
          (res, i_addr') = k_ioctl k sock_fd SIOCSIFADDR i_addr;
          calls = [Sys_ioctl sock_fd SIOCSIFADDR i_addr];
          bytes = ifr_sin_addr i_addr';
          own = [bytes ! 0, bytes ! 1, bytes ! 2, bytes ! 3];
          i_mask = i_addr'\<lparr>ifr_sin_family := 2\<rparr>;
          i_mask = (case k_pton k network_mask of None \<Rightarrow> i_mask | Some a \<Rightarrow> i_mask\<lparr>ifr_sin_addr := a\<rparr>);
          calls = calls @ [Sys_ioctl sock_fd SIOCSIFNETMASK i_mask];
          i_flags = ifreq_zero\<lparr>ifr_name := strncpy (replicate 16 NUL) name 16\<rparr>;
          (res, i_flags') = k_ioctl k sock_fd SIOCGIFFLAGS i_flags;
          calls = calls @ [Sys_ioctl sock_fd SIOCGIFFLAGS i_flags];
          i_flags' = i_flags'\<lparr>ifr_flags := ifr_flags i_flags' OR (0x1 OR 0x40)\<rparr>;
          calls = calls @ [Sys_ioctl sock_fd SIOCSIFFLAGS i_flags']
      in (own, calls))"

text \<open>
  \<^verbatim>\<open>Device::try_new\<close>; \<open>device\<close> is the uninitialised object, \<open>mac\<close> the uninitialised address in
  \<^verbatim>\<open>MAC::system_addr\<close>. The kernel writes the name of the interface back into the first request. The
  MTU is a signed \<^verbatim>\<open>int\<close> stored in a \<^verbatim>\<open>sz\<close>.
\<close>

definition device_try_new ::
  "tun_kernel \<Rightarrow> Device \<Rightarrow> MAC \<Rightarrow> string \<Rightarrow> string \<Rightarrow> string \<Rightarrow> (Device option \<times> syscall list) res" where
  "device_try_new k device mac device_name ip_text network_mask =
     (let device = device\<lparr>dev_fd := k_open k\<rparr>;
          calls = [Sys_open ''/dev/net/tun'']
      in
      ASSERT (dev_fd device > 0)
        (let ifr = ifreq_zero\<lparr>ifr_flags := 0x0002 OR 0x1000\<rparr>;
             ifr = ifr\<lparr>ifr_name := strncpy (ifr_name ifr) device_name 16\<rparr>;
             (res, ifr') = k_ioctl k (dev_fd device) TUNSETIFF ifr;
             calls = calls @ [Sys_ioctl (dev_fd device) TUNSETIFF ifr]
         in if res < 0 then Inr (None, calls @ [Sys_close (dev_fd device)])
         else
           let (a, mac_calls) = system_addr mac (k_mac_socket k) (k_ioctl k) ''eth0'';
               device = device\<lparr>own_mac := a\<rparr>;
               sock_fd = k_socket k;
               calls = calls @ mac_calls @ [Sys_socket]
           in if sock_fd < 0 then Inr (None, calls @ [Sys_close (dev_fd device)])
              else
                let (ip, ip_calls) = device_configure k sock_fd (ifr_name ifr') ip_text network_mask;
                    device = device\<lparr>own_ip := ip\<rparr>;
                    mtu = ifreq_zero\<lparr>ifr_name := strncpy (replicate 16 NUL) (ifr_name ifr') 16\<rparr>;
                    (res, mtu') = k_ioctl k sock_fd SIOCGIFMTU mtu;
                    calls = calls @ ip_calls @ [Sys_ioctl sock_fd SIOCGIFMTU mtu, Sys_close sock_fd]
                in if res < 0 then Inr (None, calls)
                   else
                     let device = device\<lparr>maximum_transmission_unit := scast (ifr_mtu mtu')\<rparr>
                     in Inr (Some device, calls)))"

text \<open>
  \<^verbatim>\<open>Device::read_next_eth\<close>: \<open>data\<close> is the array of MTU + 14 bytes after the kernel wrote into it
  and \<open>n\<close> the result of \<^verbatim>\<open>read\<close>; \<open>frame\<close> is the uninitialised frame of the parser.
\<close>

definition read_next_eth :: "Device \<Rightarrow> mem \<Rightarrow> u8 list \<Rightarrow> int \<Rightarrow> EthernetFrame \<Rightarrow> (istream \<times> EthernetFrame) res" where
  "read_next_eth dev m data n frame =
     (if n < 0 then Inl Assert_failed
      else if n < 14 then Inl Assert_failed
      else let m = m @ [data]; buffer = Buffer_ptr (length m - 1) (of_int n)
           in eth_try_from_stream buffer_ops (m, buffer) ByteIStream frame)"

text \<open>\<^verbatim>\<open>Device::write_eth\<close>: the store afterwards and the bytes handed to \<^verbatim>\<open>write\<close>.\<close>

definition write_eth :: "Device \<Rightarrow> mem \<Rightarrow> EthernetFrame \<Rightarrow> (mem \<times> u8 list) res" where
  "write_eth dev m frame =
     (let (m, buffer) = Buffer_sized m (maximum_transmission_unit dev) in
      rbind (eth_try_to_stream buffer_ops m frame ((m, buffer), ByteOStream)) (\<lambda>((m, buffer), ostream).
      let packet_length = os_cursor ostream in
      rbind (of_access (mem_load m (buf_shared buffer) (unat (buf_offset buffer)) (unat packet_length))) (\<lambda>bytes.
      Inr (m, bytes))))"

section \<open>Lemmas\<close>

lemma eth_write_vec_overflow:
  assumes "eth_ok m f" and "length v < 2 ^ 63" and "14 \<le> length v" and "length v < eth_wire_size f"
  shows "eth_try_to_stream vector_ops m f (v, ByteOStream) =
     Inr (overwrite v 0 (take 14 (eth_encode m f)), ostream_at 14 (ByteOStream\<lparr>os_errc := NotEnoughData\<rparr>))"
proof -
  let ?h = "eth_dst f @ eth_src f @ [hi8 (eth_ethertype f), lo8 (eth_ethertype f)]"
  have mac: "length (eth_dst f) = 6" "length (eth_src f) = 6" "buffer_ok (m, eth_payload f)"
    using assms(1) by (simp_all add: eth_ok_def mac_ok_def)
  have "writer (\<lambda>st. rbind (write_array vector_ops st (eth_dst f)) (\<lambda>st.
      rbind (write_array vector_ops st (eth_src f)) (\<lambda>st. write_u16 vector_ops st (eth_ethertype f)))) ?h"
    using mac by (intro codec) simp_all
  then have h: "rbind (write_array vector_ops (v, ByteOStream) (eth_dst f)) (\<lambda>st.
      rbind (write_array vector_ops st (eth_src f)) (\<lambda>st. write_u16 vector_ops st (eth_ethertype f))) =
      Inr (overwrite v 0 ?h, ostream_at 14 ByteOStream)"
    using assms(2,3) mac unfolding writer_def by (simp add: ByteOStream_def)
  have "eth_try_to_stream vector_ops m f (v, ByteOStream) =
      rbind (rbind (write_array vector_ops (v, ByteOStream) (eth_dst f)) (\<lambda>st.
        rbind (write_array vector_ops st (eth_src f)) (\<lambda>st. write_u16 vector_ops st (eth_ethertype f))))
      (\<lambda>st. write_buffer vector_ops st m (eth_payload f))"
    by (simp add: eth_try_to_stream_def rbind_assoc)
  also have "\<dots> = Inr (overwrite v 0 ?h, ostream_at 14 (ByteOStream\<lparr>os_errc := NotEnoughData\<rparr>))"
    unfolding h rbind_Inr using write_buffer_vec [of 14 "overwrite v 0 ?h" m "eth_payload f" ByteOStream] assms mac
    by (simp add: eth_wire_size_def)
  finally show ?thesis
    using mac by (simp add: eth_encode_def)
qed

lemma write_buffer_frame:
  assumes "buffer_ok (m, src)"
  shows "write_buffer ops st (m @ m') src = write_buffer ops st m src"
  using buffer_load_all [OF assms] buffer_frame_alloc [OF assms, of m'] buffer_load_all [of "m @ m'" src]
  by (cases st) (simp add: write_buffer_def)

text \<open>What reaches the kernel, from what the writer leaves in the buffer.\<close>

lemma write_eth_eq:
  fixes m :: mem and dev :: Device
  defines "n \<equiv> unat (maximum_transmission_unit dev)"
  assumes ok: "eth_ok m f" and n: "n < 2 ^ 63"
    and w: "eth_try_to_stream vector_ops m f (replicate n 0, ByteOStream) = Inr (overwrite (replicate n 0) 0 xs, s)"
    and xs: "length xs \<le> n" "unat (os_cursor s) = length xs"
  shows "\<exists>m'. write_eth dev m f = Inr (m', xs)"
proof -
  let ?B = "Buffer_sized m (maximum_transmission_unit dev)"
  have B: "buffer_window (fst ?B) (snd ?B) ?B" "buffer_bytes ?B = replicate n 0"
    using Buffer_sized_ok [of "maximum_transmission_unit dev" m] n by (simp_all add: n_def buffer_window_def)
  have pay: "buffer_ok (fst ?B, eth_payload f)" "buffer_bytes (fst ?B, eth_payload f) = buffer_bytes (m, eth_payload f)"
    using ok buffer_frame_alloc [of m "eth_payload f"] by (simp_all add: eth_ok_def Buffer_sized_def)
  then have ok1: "eth_ok (fst ?B) f"
    using ok by (simp add: eth_ok_def)
  have same: "eth_try_to_stream vector_ops (fst ?B) f = eth_try_to_stream vector_ops m f"
    using ok by (simp add: fun_eq_iff eth_try_to_stream_def write_buffer_frame eth_ok_def Buffer_sized_def)
  have "wrel (buffer_window (fst ?B) (snd ?B)) buffer_bytes
      (eth_try_to_stream buffer_ops (fst ?B) f (?B, ByteOStream)) (Inr (overwrite (replicate n 0) 0 xs, s))"
    using win.eth_try_to_stream_sim [OF B(1) _ ok1, of ByteOStream] B(2) w same by (simp add: ByteOStream_def)
  then obtain m' where m': "eth_try_to_stream buffer_ops (fst ?B) f (?B, ByteOStream) = Inr ((m', snd ?B), s)"
    "buffer_ok (m', snd ?B)" "buffer_bytes (m', snd ?B) = overwrite (replicate n 0) 0 xs"
    by (auto dest!: wrel_InrD simp: buffer_window_def)
  have "mem_load m' (buf_shared (snd ?B)) (unat (buf_offset (snd ?B)) + 0) (length xs) = Some xs"
    using buffer_load [OF m'(2), of 0 "length xs"] m'(3) xs(1)
    by (simp add: overwrite_def n_def Buffer_sized_def)
  with m'(1) xs(2) show ?thesis
    by (simp add: write_eth_def case_prod_beta)
qed

lemma write_eth_fits:
  assumes "eth_ok m f" and "unat (maximum_transmission_unit dev) < 2 ^ 63" and le: "eth_wire_size f \<le> unat (maximum_transmission_unit dev)"
  shows "\<exists>m'. write_eth dev m f = Inr (m', eth_encode m f)"
proof -
  let ?v = "replicate (unat (maximum_transmission_unit dev)) (0 :: u8)"
  have "eth_try_to_stream vector_ops m f (?v, ByteOStream) =
      Inr (overwrite ?v 0 (eth_encode m f), ostream_at (eth_wire_size f) ByteOStream)"
    using eth.wr_fits [OF assms(1), of ?v 0 ByteOStream] assms(2,3) by (simp flip: stream_start)
  from write_eth_eq [OF assms(1,2) this] le eth.enc_size [OF assms(1)] assms(2) show ?thesis
    by (simp add: unat_of_nat_64)
qed

section \<open>Properties\<close>

text \<open>
  A frame that fits the MTU is handed to the kernel byte for byte. A frame that does not
  is not refused: its 14 byte header is sent without the payload.
\<close>

theorem write_eth_spec:
  assumes "eth_ok m f" and "unat (maximum_transmission_unit dev) < 2 ^ 63" and "14 \<le> unat (maximum_transmission_unit dev)"
  shows "\<exists>m'. write_eth dev m f =
     Inr (m', if eth_wire_size f \<le> unat (maximum_transmission_unit dev) then eth_encode m f else take 14 (eth_encode m f))"
proof (cases "eth_wire_size f \<le> unat (maximum_transmission_unit dev)")
  case True
  with write_eth_fits [OF assms(1,2)] show ?thesis
    by simp
next
  case False
  from write_eth_eq [OF assms(1,2) eth_write_vec_overflow [OF assms(1)]] False assms(2,3) eth.enc_size [OF assms(1)]
  show ?thesis by simp
qed

theorem write_eth_spec_witness:
  "\<exists>m'. write_eth \<lparr>own_mac = [], own_ip = [], dev_fd = 3, maximum_transmission_unit = 15\<rparr> [[7, 8]]
     \<lparr>eth_dst = [1, 2, 3, 4, 5, 6], eth_src = [9, 9, 9, 9, 9, 9], eth_ethertype = 0x0806,
      eth_payload = \<lparr>buf_shared = Some 0, buf_offset = 0, buf_size = 2\<rparr>\<rparr> =
     Inr (m', [1, 2, 3, 4, 5, 6, 9, 9, 9, 9, 9, 9, 8, 6])"
proof -
  let ?f = "\<lparr>eth_dst = [1, 2, 3, 4, 5, 6], eth_src = [9, 9, 9, 9, 9, 9], eth_ethertype = 0x0806,
      eth_payload = \<lparr>buf_shared = Some 0, buf_offset = 0, buf_size = 2\<rparr>\<rparr> :: EthernetFrame"
  have ok: "eth_ok [[7, 8]] ?f" and size: "eth_wire_size ?f = 16"
    by (simp_all add: eth_ok_def mac_ok_def buffer_ok.simps eth_wire_size_def)
  have "take 14 (eth_encode [[7, 8]] ?f) = [1, 2, 3, 4, 5, 6, 9, 9, 9, 9, 9, 9, 8, 6]"
    by (simp add: eth_encode_def hi8_def lo8_def)
  with write_eth_spec [OF ok, of "\<lparr>own_mac = [], own_ip = [], dev_fd = 3, maximum_transmission_unit = 15\<rparr>"] size
  show ?thesis by simp
qed

text \<open>
  \<^verbatim>\<open>read_next_eth\<close> never returns a frame: whatever the kernel delivered, at most as many
  bytes as it was offered, the program aborts.
\<close>

theorem read_next_eth_aborts:
  assumes "n \<le> int (length data)" and "length data < 2 ^ 63"
  shows "read_next_eth dev m data n frame = Inl Assert_failed"
proof (cases "n < 14")
  case False
  then have n: "unat (of_int n :: sz) = nat n"
    using assms by (simp add: unsigned_of_int take_bit_int_eq_self)
  then have "buffer_ok (m @ [data], Buffer_ptr (length m) (of_int n))"
    using assms by (simp add: Buffer_ptr_def buffer_ok.simps)
  with buf.eth_read_header_cost [OF this, of ByteIStream frame] show ?thesis
    using False by (auto simp: read_next_eth_def consumes_def eth_try_from_stream_def read_buffer_def ByteIStream_def)
qed (simp add: read_next_eth_def)

theorem read_next_eth_aborts_witness:
  "read_next_eth \<lparr>own_mac = [], own_ip = [], dev_fd = 3, maximum_transmission_unit = 1500\<rparr> [] (replicate 1514 1) 60
     \<lparr>eth_dst = [], eth_src = [], eth_ethertype = 0, eth_payload = Buffer_default\<rparr> = Inl Assert_failed"
  by (rule read_next_eth_aborts) simp_all

text \<open>
  What the kernel and the C library promise: an address has four bytes, a request that sets the
  address does not change the structure, and the structure has a name of 16 characters.
\<close>

definition tun_kernel_ok :: "tun_kernel \<Rightarrow> bool" where
  "tun_kernel_ok k \<longleftrightarrow> (\<forall>text a. k_pton k text = Some a \<longrightarrow> ipv4_ok a) \<and>
     (\<forall>fd q. snd (k_ioctl k fd SIOCSIFADDR q) = q) \<and>
     (\<forall>fd r q. length (ifr_name q) = 16 \<longrightarrow> length (ifr_name (snd (k_ioctl k fd r q))) = 16) \<and>
     (\<forall>fd q. ifr_name (snd (k_ioctl k fd SIOCGIFFLAGS q)) = ifr_name q)"

lemma ipv4_bytes: "ipv4_ok a \<Longrightarrow> [a ! 0, a ! 1, a ! 2, a ! 3] = a"
  by (auto simp: ipv4_ok_def length_Suc_conv eval_nat_numeral)

lemma pton_address: "tun_kernel_ok k \<Longrightarrow> ipv4_ok (case k_pton k text of None \<Rightarrow> [0, 0, 0, 0] | Some a \<Rightarrow> a)"
  by (auto simp: tun_kernel_ok_def ipv4_ok_def split: option.splits)

text \<open>The four requests of the configuration.\<close>

lemma device_configure_calls:
  assumes ok: "tun_kernel_ok k" and "length name = 16"
    and ip: "ip = (case k_pton k ip_text of None \<Rightarrow> [0, 0, 0, 0] | Some a \<Rightarrow> a)"
  shows "\<exists>q1 q2 q3 q4. device_configure k sock name ip_text mask_text =
       (ip, [Sys_ioctl sock SIOCSIFADDR q1, Sys_ioctl sock SIOCSIFNETMASK q2, Sys_ioctl sock SIOCGIFFLAGS q3, Sys_ioctl sock SIOCSIFFLAGS q4]) \<and>
     (\<forall>q. q \<in> {q1, q2, q3, q4} \<longrightarrow> c_string (ifr_name q) = c_string name) \<and>
     ifr_sin_family q1 = 2 \<and> ifr_sin_addr q1 = ip \<and>
     ifr_sin_family q2 = 2 \<and> ifr_sin_addr q2 = (case k_pton k mask_text of None \<Rightarrow> ip | Some a \<Rightarrow> a) \<and>
     ifr_flags q4 = ifr_flags (snd (k_ioctl k sock SIOCGIFFLAGS q3)) OR 0x41"
proof -
  define q1 where "q1 = ifreq_zero\<lparr>ifr_name := strncpy (replicate 16 NUL) name 16, ifr_sin_family := 2, ifr_sin_addr := ip\<rparr>"
  define q2 where "q2 = q1\<lparr>ifr_sin_addr := (case k_pton k mask_text of None \<Rightarrow> ip | Some a \<Rightarrow> a)\<rparr>"
  define q3 where "q3 = ifreq_zero\<lparr>ifr_name := strncpy (replicate 16 NUL) name 16\<rparr>"
  define q4 where "q4 = (snd (k_ioctl k sock SIOCGIFFLAGS q3))\<lparr>ifr_flags := ifr_flags (snd (k_ioctl k sock SIOCGIFFLAGS q3)) OR 0x41\<rparr>"
  have k: "snd (k_ioctl k sock SIOCSIFADDR q1) = q1" "ifr_name (snd (k_ioctl k sock SIOCGIFFLAGS q3)) = ifr_name q3"
    using ok by (auto simp: tun_kernel_ok_def)
  have "(case k_pton k ip_text of None \<Rightarrow> q3\<lparr>ifr_sin_family := 2\<rparr> | Some a \<Rightarrow> q3\<lparr>ifr_sin_family := 2, ifr_sin_addr := a\<rparr>) = q1"
    by (cases "k_pton k ip_text") (simp_all add: q1_def q3_def ip ifreq_zero_def)
  moreover have "(case k_pton k mask_text of None \<Rightarrow> q1\<lparr>ifr_sin_family := 2\<rparr> | Some a \<Rightarrow> q1\<lparr>ifr_sin_family := 2, ifr_sin_addr := a\<rparr>) = q2"
    by (cases "k_pton k mask_text") (simp_all add: q1_def q2_def ifreq_zero_def)
  moreover have "ifr_sin_addr q1 = ip"
    by (simp add: q1_def)
  ultimately have "device_configure k sock name ip_text mask_text =
      (ip, [Sys_ioctl sock SIOCSIFADDR q1, Sys_ioctl sock SIOCSIFNETMASK q2, Sys_ioctl sock SIOCGIFFLAGS q3, Sys_ioctl sock SIOCSIFFLAGS q4])"
    using k(1) ipv4_bytes [of ip] pton_address [OF ok, of ip_text, folded ip]
    by (simp add: device_configure_def Let_def case_prod_beta q4_def cong: option.case_cong flip: q3_def)
  moreover have "c_string (ifr_name q) = c_string name" if "q \<in> {q1, q2, q3, q4}" for q
    using that k(2) c_string_strncpy_array [of "replicate 16 NUL" 16 name] assms(2)
    by (auto simp: q1_def q2_def q3_def q4_def)
  ultimately show ?thesis
    by (intro exI [of _ q1] exI [of _ q2] exI [of _ q3] exI [of _ q4]) (simp add: q1_def q2_def q4_def)
qed



text \<open>The calls of the two helpers that matter for the descriptors.\<close>

lemma system_addr_calls:
  "set (snd (system_addr mac sock ioctl name)) \<subseteq> {Sys_socket, Sys_close sock} \<union> range (Sys_ioctl sock SIOCGIFHWADDR)"
  by (auto simp: system_addr_def Let_def case_prod_beta)

lemma device_configure_requests:
  "set (snd (device_configure k sock name ip_text mask_text)) \<subseteq>
     (\<Union>r\<in>{SIOCSIFADDR, SIOCSIFNETMASK, SIOCGIFFLAGS, SIOCSIFFLAGS}. range (Sys_ioctl sock r))"
  by (auto simp: device_configure_def Let_def case_prod_beta)

text \<open>
  The descriptors of a \<^verbatim>\<open>try_new\<close> that got past the assertion: the device's own descriptor is closed exactly
  when the interface could not be attached or the socket not opened. A failed MTU query returns no
  device either, but leaves that descriptor open; the socket is closed on every path that opened it.
\<close>

theorem device_try_new_descriptors:
  assumes "k_open k > 0" and "k_socket k \<noteq> k_open k" and "k_mac_socket k \<noteq> k_open k"
    and "device_try_new k device mac device_name ip_text mask_text = Inr (d, calls)"
    and attach: "attach = (\<exists>q. Sys_ioctl (k_open k) TUNSETIFF q \<in> set calls \<and> fst (k_ioctl k (k_open k) TUNSETIFF q) \<ge> 0)"
    and query: "query = (\<exists>q. Sys_ioctl (k_socket k) SIOCGIFMTU q \<in> set calls \<and> fst (k_ioctl k (k_socket k) SIOCGIFMTU q) \<ge> 0)"
  shows "(Sys_close (k_open k) \<in> set calls \<longleftrightarrow> \<not> (attach \<and> k_socket k \<ge> 0)) \<and>
     (d \<noteq> None \<longleftrightarrow> attach \<and> k_socket k \<ge> 0 \<and> query) \<and>
     (attach \<and> k_socket k \<ge> 0 \<longrightarrow> Sys_close (k_socket k) \<in> set calls)"
proof -
  let ?sys = "system_addr mac (k_mac_socket k) (k_ioctl k) ''eth0''"
  let ?conf = "\<lambda>name. device_configure k (k_socket k) name ip_text mask_text"
  have s: "Sys_close (k_open k) \<notin> set (snd ?sys)" "\<And>fd q. Sys_ioctl fd TUNSETIFF q \<notin> set (snd ?sys)"
    "\<And>fd q. Sys_ioctl fd SIOCGIFMTU q \<notin> set (snd ?sys)"
    using system_addr_calls [of mac "k_mac_socket k" "k_ioctl k" "''eth0''"] assms(3) by auto
  have c: "\<And>fd name. Sys_close fd \<notin> set (snd (?conf name))" "\<And>fd name q. Sys_ioctl fd TUNSETIFF q \<notin> set (snd (?conf name))"
    "\<And>fd name q. Sys_ioctl fd SIOCGIFMTU q \<notin> set (snd (?conf name))"
    using device_configure_requests [of k "k_socket k" _ ip_text mask_text] by fast+
  show ?thesis
    using assms s c
    by (auto simp: device_try_new_def Let_def case_prod_beta not_less split: if_splits)
qed

theorem device_try_new_descriptors_witness:
  "\<exists>d calls. device_try_new \<lparr>k_open = 3, k_mac_socket = 4, k_socket = 5, k_ioctl = (\<lambda>fd r q. (if r = SIOCGIFMTU then -1 else 0, q)),
        k_pton = (\<lambda>text. None)\<rparr>
       \<lparr>own_mac = [], own_ip = [], dev_fd = 0, maximum_transmission_unit = 0\<rparr> [] ''tap0'' ''10.0.0.1'' ''255.0.0.0'' = Inr (d, calls) \<and>
     d = None \<and> Sys_close 3 \<notin> set calls"
proof -
  let ?k = "\<lparr>k_open = 3, k_mac_socket = 4, k_socket = 5, k_ioctl = (\<lambda>fd r q. (if r = SIOCGIFMTU then -1 else 0, q)),
        k_pton = (\<lambda>text. None)\<rparr> :: tun_kernel"
  let ?d = "\<lparr>own_mac = [], own_ip = [], dev_fd = 0, maximum_transmission_unit = 0\<rparr> :: Device"
  obtain d calls where r: "device_try_new ?k ?d [] ''tap0'' ''10.0.0.1'' ''255.0.0.0'' = Inr (d, calls)"
    "\<exists>q. Sys_ioctl 3 TUNSETIFF q \<in> set calls"
    by (simp add: device_try_new_def Let_def case_prod_beta) auto
  from device_try_new_descriptors [OF _ _ _ r(1) refl refl] r show ?thesis
    by auto
qed

end
