(* ===== verification/Toad_Wire.thy ===== *)
theory Toad_Wire
  imports Toad_Arp Toad_Icmp Toad_Ipv4 Toad_Device
begin

text \<open>
  How the packet types of \<^verbatim>\<open>include/nic\<close> are put together: a response is written into the payload of the packet
  that carries it, which is a fresh buffer, and the outermost frame is handed to the device. The
  payload of one packet is thus the memory another one is written into; the lemmas on buffers
  say that nothing else is touched.
\<close>

section \<open>Writing a packet into a fresh buffer\<close>

lemma fresh_packet:
  assumes n: "unat n < 2 ^ 63" and B: "Buffer_sized m n = (m1, p)" and enc: "length enc = unat n"
    and w: "\<And>b. buffer_window m1 p b \<Longrightarrow> length enc \<le> length (buffer_bytes b) \<Longrightarrow>
      \<exists>b'. wr (b, ByteOStream) = Inr (b', s) \<and> buffer_window m1 p b' \<and> buffer_bytes b' = overwrite (buffer_bytes b) 0 enc"
  shows "\<exists>m2. wr ((m1, p), ByteOStream) = Inr ((m2, p), s) \<and> buffer_ok (m2, p) \<and> buffer_bytes (m2, p) = enc \<and> buf_size p = n \<and>
     (\<forall>c. buffer_ok (m, c) \<longrightarrow> buffer_ok (m2, c) \<and> buffer_bytes (m2, c) = buffer_bytes (m, c))"
proof -
  have ok: "buffer_ok (m1, p)" "buffer_bytes (m1, p) = replicate (unat n) 0"
    and mp: "m1 = m @ [replicate (unat n) 0]" "buf_shared p = Some (length m)" "buf_size p = n"
    using Buffer_sized_ok [OF n, of m] B by (auto simp: Buffer_sized_def)
  with w [OF buffer_window_start [OF ok(1)]] enc obtain m2 where
    m2: "wr ((m1, p), ByteOStream) = Inr ((m2, p), s)" "buffer_window m1 p (m2, p)" "buffer_bytes (m2, p) = enc"
    by (auto simp: buffer_window_def overwrite_def)
  have "buffer_ok (m2, c) \<and> buffer_bytes (m2, c) = buffer_bytes (m, c)" if c: "buffer_ok (m, c)" for c
  proof -
    have "buf_shared c \<noteq> buf_shared p"
      using c mp(2) by (auto simp: buffer_ok.simps split: option.splits)
    then show ?thesis
      using buffer_window_frame [OF m2(2)] buffer_frame_alloc [OF c, of "[replicate (unat n) 0]"] mp(1) by simp
  qed
  with m2 mp(3) show ?thesis
    by (auto simp: buffer_window_def)
qed

lemma icmp_into_fresh:
  assumes ok: "icmp_ok m icmp" and "icmp_wire_size icmp < 2 ^ 63"
  shows "\<exists>m1 p m2. Buffer_sized m (icmp_size icmp) = (m1, p) \<and>
     icmp_try_to_stream buffer_ops m1 icmp ((m1, p), ByteOStream) = Inr ((m2, p), ostream_at (icmp_wire_size icmp) ByteOStream) \<and>
     buffer_ok (m2, p) \<and> buffer_bytes (m2, p) = icmp_encode m icmp \<and> buf_size p = icmp_size icmp \<and>
     (\<forall>c. buffer_ok (m, c) \<longrightarrow> buffer_ok (m2, c) \<and> buffer_bytes (m2, c) = buffer_bytes (m, c))"
proof -
  obtain m1 p where B: "Buffer_sized m (icmp_size icmp) = (m1, p)"
    by fastforce
  have ok1: "icmp_ok m1 icmp" and enc: "icmp_encode m1 icmp = icmp_encode m icmp"
    using ok buffer_frame_alloc [of m "icmp_payload icmp"] B by (auto simp: icmp_ok_def icmp_encode_def Buffer_sized_def)
  have "\<exists>b'. icmp_try_to_stream buffer_ops m1 icmp (b, ByteOStream) = Inr (b', ostream_at (icmp_wire_size icmp) ByteOStream) \<and>
      buffer_window m1 p b' \<and> buffer_bytes b' = overwrite (buffer_bytes b) 0 (icmp_encode m icmp)"
    if "buffer_window m1 p b" "length (icmp_encode m icmp) \<le> length (buffer_bytes b)" for b
    using win.icmp_write [OF that(1) ok1] that(2) icmp.enc_size [OF ok] enc by simp
  from fresh_packet [OF _ B _ this] B assms icmp_sizes [OF ok] icmp.enc_size [OF ok] show ?thesis
    by simp
qed

lemma ip_into_fresh:
  assumes ok: "ip_ok m ip" and "ip_wire_size ip < 2 ^ 63"
  shows "\<exists>m1 p m2. Buffer_sized m (ip_size ip) = (m1, p) \<and>
     ip_try_to_stream buffer_ops m1 ip ((m1, p), ByteOStream) = Inr ((m2, p), ostream_at (ip_wire_size ip) ByteOStream) \<and>
     buffer_ok (m2, p) \<and> buffer_bytes (m2, p) = ip_encode m ip \<and> buf_size p = ip_size ip"
proof -
  obtain m1 p where B: "Buffer_sized m (ip_size ip) = (m1, p)"
    by fastforce
  have ok1: "ip_ok m1 ip" and enc: "ip_encode m1 ip = ip_encode m ip"
    using ok buffer_frame_alloc [of m "ip_payload ip"] B by (auto simp: ip_ok_def ip_encode_def Buffer_sized_def)
  have "\<exists>b'. ip_try_to_stream buffer_ops m1 ip (b, ByteOStream) = Inr (b', ostream_at (ip_wire_size ip) ByteOStream) \<and>
      buffer_window m1 p b' \<and> buffer_bytes b' = overwrite (buffer_bytes b) 0 (ip_encode m ip)"
    if "buffer_window m1 p b" "length (ip_encode m ip) \<le> length (buffer_bytes b)" for b
    using win.ip_write [OF that(1) ok1] that(2) ip.enc_size [OF ok] enc by simp
  from fresh_packet [OF _ B _ this] B assms ip_sizes [OF ok] ip.enc_size [OF ok] show ?thesis
    by auto
qed

lemma ip_response_into:
  assumes "ip_ok m ip" and "buffer_ok (m, payload)" and "unat (buf_size payload) + 21 < 2 ^ 63"
  shows "\<exists>r. ip_clone_as_response m ip payload ttl = Inr r \<and> ip_ok m r \<and> ip_src r = ip_dst ip \<and> ip_dst r = ip_src ip \<and>
     ip_payload r = payload \<and> checksum_span (pad_even (ip_encode m r)) = Inr \<lparr>ck_n = 0\<rparr>"
  using ip_clone_as_response_eq [OF assms, of ttl] by (auto simp: ip_ok_def)

text \<open>The response frame: its payload is fresh and everything else of it is known.\<close>

lemma eth_response:
  assumes "mac_ok hw" and "hw \<noteq> replicate 6 0"
  shows "eth_clone_as_response ret m f ethertype n hw =
     (fst (Buffer_sized m n), \<lparr>eth_dst = eth_src f, eth_src = hw, eth_ethertype = ethertype, eth_payload = snd (Buffer_sized m n)\<rparr>)"
  using assms by (cases ret) (simp add: eth_clone_as_response_def Let_def is_default_iff case_prod_beta)

text \<open>An IP packet in the response to a frame, handed to the device.\<close>

lemma ip_packet_on_wire:
  assumes ok: "ip_ok m ip" and f: "mac_ok (eth_src f)" and hw: "mac_ok hw" "hw \<noteq> replicate 6 0"
    and mtu: "unat (maximum_transmission_unit dev) < 2 ^ 63" "14 + ip_wire_size ip \<le> unat (maximum_transmission_unit dev)"
  shows "\<exists>m1 r m2 s m3. eth_clone_as_response ret m f ETHERTYPE_IPV4 (ip_size ip) hw = (m1, r) \<and>
     ip_try_to_stream buffer_ops m1 ip ((m1, eth_payload r), ByteOStream) = Inr ((m2, eth_payload r), s) \<and>
     write_eth dev m2 r = Inr (m3, eth_src f @ hw @ [0x08, 0x00] @ ip_encode m ip)"
proof -
  obtain m1 p m2 where p: "Buffer_sized m (ip_size ip) = (m1, p)"
    "ip_try_to_stream buffer_ops m1 ip ((m1, p), ByteOStream) = Inr ((m2, p), ostream_at (ip_wire_size ip) ByteOStream)"
    "buffer_ok (m2, p)" "buffer_bytes (m2, p) = ip_encode m ip" "buf_size p = ip_size ip"
    using ip_into_fresh [OF ok] mtu by auto
  define r where "r = \<lparr>eth_dst = eth_src f, eth_src = hw, eth_ethertype = ETHERTYPE_IPV4, eth_payload = p\<rparr>"
  have r: "eth_clone_as_response ret m f ETHERTYPE_IPV4 (ip_size ip) hw = (m1, r)" "eth_payload r = p"
    using eth_response [OF hw] p(1) by (simp_all add: r_def)
  have rok: "eth_ok m2 r" and "eth_wire_size r \<le> unat (maximum_transmission_unit dev)"
    using f hw p(3,5) ip_sizes [OF ok] mtu by (simp_all add: r_def eth_ok_def eth_wire_size_def)
  then obtain m3 where "write_eth dev m2 r = Inr (m3, eth_encode m2 r)"
    using write_eth_fits [OF rok mtu(1)] by auto
  moreover have "eth_encode m2 r = eth_src f @ hw @ [0x08, 0x00] @ ip_encode m ip"
    using p(4) by (simp add: eth_encode_def r_def hi8_def lo8_def)
  ultimately show ?thesis
    using r p(2) by metis
qed

text \<open>A frame to answer.\<close>

definition arp_frame :: EthernetFrame where
  "arp_frame = \<lparr>eth_dst = replicate 6 0xFF, eth_src = [1, 2, 3, 4, 5, 6], eth_ethertype = ETHERTYPE_ARP, eth_payload = Buffer_default\<rparr>"

section \<open>Properties\<close>

text \<open>
  C15: an ARP request is answered on the wire. From 28 bytes of a request, parsed, answered with the
  hardware address \<open>hw\<close>, written into the payload of the response to the frame it came in, and handed to the
  device, exactly these 42 bytes reach the kernel: the frame goes to the sender of the request
  and the packet gives \<open>hw\<close> for the protocol address asked for.
\<close>

theorem arp_answer_on_wire:
  assumes b: "buffer_ok b" and bs: "28 \<le> length (buffer_bytes b)"
    and f: "mac_ok (eth_src f)" and hw: "mac_ok hw" "hw \<noteq> replicate 6 0"
    and mtu: "unat (maximum_transmission_unit dev) < 2 ^ 63" "42 \<le> unat (maximum_transmission_unit dev)"
  shows "\<exists>s a m1 r m2 s2 m3.
     arp_try_from_stream ArpIPv4 buffer_ops b ByteIStream u ret_arp = Inr (s, a) \<and>
     eth_clone_as_response ret m f ETHERTYPE_ARP (arp_size (arp_copy_as_response a hw)) hw = (m1, r) \<and>
     arp_try_to_stream ArpIPv4 buffer_ops (arp_copy_as_response a hw) ((m1, eth_payload r), ByteOStream) = Inr ((m2, eth_payload r), s2) \<and>
     write_eth dev m2 r = Inr (m3, eth_src f @ hw @ [0x08, 0x06, 0x00, 0x01, 0x08, 0x00, 6, 4, 0, 2] @ hw @
       take 4 (drop 24 (buffer_bytes b)) @ take 10 (drop 8 (buffer_bytes b)))"
proof -
  let ?bs = "buffer_bytes b"
  define a where "a = \<lparr>arp_oper = be16 (?bs ! 6) (?bs ! 7), arp_sha = take 6 (drop 8 ?bs), arp_tha = take 6 (drop 18 ?bs),
      arp_spa = take 4 (drop 14 ?bs), arp_tpa = take 4 (drop 24 ?bs)\<rparr>"
  let ?a = "arp_copy_as_response a hw"
  have parse: "arp_try_from_stream ArpIPv4 buffer_ops b ByteIStream u ret_arp = Inr (istream_at 28 ByteIStream, a)"
    using arp_parse_ipv4 [OF b, of ByteIStream 0 u ret_arp] bs by (simp add: a_def Let_def ByteIStream_def istream_at_def)
  have ok: "arp_ok ArpIPv4 ?a"
    using bs hw(1) by (simp add: arp_ok_def ArpIPv4_def arp_copy_as_response_def Arp_new_def a_def mac_ok_def)
  have size: "unat (arp_size ?a) = 28" "length (arp_encode ArpIPv4 ?a) = 28"
    using arp_ipv4_sizes arp.enc_size [OF ok] by simp_all
  obtain m1 p where B: "Buffer_sized m (arp_size ?a) = (m1, p)"
    by fastforce
  have w: "\<exists>b'. arp_try_to_stream ArpIPv4 buffer_ops ?a (b, ByteOStream) = Inr (b', ostream_at 28 ByteOStream) \<and>
      buffer_window m1 p b' \<and> buffer_bytes b' = overwrite (buffer_bytes b) 0 (arp_encode ArpIPv4 ?a)"
    if "buffer_window m1 p b" "length (arp_encode ArpIPv4 ?a) \<le> length (buffer_bytes b)" for b
    using win.arp_write [OF that(1) ok] that(2) size(2) arp_ipv4_sizes(1) by simp
  obtain m2 where m2: "arp_try_to_stream ArpIPv4 buffer_ops ?a ((m1, p), ByteOStream) = Inr ((m2, p), ostream_at 28 ByteOStream)"
    "buffer_ok (m2, p)" "buffer_bytes (m2, p) = arp_encode ArpIPv4 ?a" "buf_size p = arp_size ?a"
    using fresh_packet [OF _ B _ w] size by auto
  define r where "r = \<lparr>eth_dst = eth_src f, eth_src = hw, eth_ethertype = ETHERTYPE_ARP, eth_payload = p\<rparr>"
  have "eth_clone_as_response ret m f ETHERTYPE_ARP (arp_size ?a) hw = (m1, r)"
    using eth_response [OF hw] B by (simp add: r_def)
  moreover have rok: "eth_ok m2 r" and "eth_wire_size r = 42"
    using f hw m2(2,4) size by (simp_all add: r_def eth_ok_def eth_wire_size_def)
  then obtain m3 where "write_eth dev m2 r = Inr (m3, eth_encode m2 r)"
    using write_eth_fits [OF rok mtu(1)] mtu(2) by auto
  moreover have "take 6 (drop 8 ?bs) @ take 4 (drop 14 ?bs) = take 10 (drop 8 ?bs)"
    using take_add [of 6 4 "drop 8 ?bs"] by (simp add: add.commute)
  then have "eth_encode m2 r = eth_src f @ hw @ [0x08, 0x06, 0x00, 0x01, 0x08, 0x00, 6, 4, 0, 2] @ hw @
       take 4 (drop 24 ?bs) @ take 10 (drop 8 ?bs)"
    using m2(3) by (simp add: eth_encode_def r_def arp_encode_def ArpIPv4_def arp_copy_as_response_def Arp_new_def a_def hi8_def lo8_def)
  ultimately show ?thesis
    using parse m2(1) by (metis r_def EthernetFrame.select_convs(4))
qed

theorem arp_answer_on_wire_witness:
  "\<exists>s a m1 r m2 s2 m3.
     arp_try_from_stream ArpIPv4 buffer_ops (Buffer_sized [] 28) ByteIStream ArpIPv4 (Arp_new 0 [] [] [] []) = Inr (s, a) \<and>
     eth_clone_as_response arp_frame [] arp_frame ETHERTYPE_ARP (arp_size (arp_copy_as_response a [2, 2, 2, 2, 2, 2])) [2, 2, 2, 2, 2, 2] = (m1, r) \<and>
     arp_try_to_stream ArpIPv4 buffer_ops (arp_copy_as_response a [2, 2, 2, 2, 2, 2]) ((m1, eth_payload r), ByteOStream) =
       Inr ((m2, eth_payload r), s2) \<and>
     write_eth \<lparr>own_mac = [], own_ip = [], dev_fd = 3, maximum_transmission_unit = 1500\<rparr> m2 r =
       Inr (m3, [1, 2, 3, 4, 5, 6, 2, 2, 2, 2, 2, 2, 8, 6, 0, 1, 8, 0, 6, 4, 0, 2, 2, 2, 2, 2, 2, 2] @ replicate 14 0)"
proof -
  have b: "buffer_ok (Buffer_sized [] 28)" "buffer_bytes (Buffer_sized [] 28) = replicate 28 0"
    using Buffer_sized_ok [of 28 "[]"] by simp_all
  have hw: "[2, 2, 2, 2, 2, 2] \<noteq> replicate 6 (0 :: u8)"
    by (simp add: numeral_eq_Suc)
  have z: "replicate 4 (0 :: u8) @ replicate 10 0 = replicate 14 0"
    by (simp flip: replicate_add)
  show ?thesis
    using arp_answer_on_wire [OF b(1), of arp_frame "[2, 2, 2, 2, 2, 2]"
        "\<lparr>own_mac = [], own_ip = [], dev_fd = 3, maximum_transmission_unit = 1500\<rparr>" ArpIPv4 "Arp_new 0 [] [] [] []" arp_frame "[]"] hw z
    unfolding b(2) by (simp add: arp_frame_def mac_ok_def)
qed

text \<open>
  C11: an echo request is answered on the wire. The reply made from the ICMP request is written into a
  fresh buffer, that buffer is the payload of the response to the IP packet, that packet is
  written into the payload of the response frame, and what reaches the kernel is the frame's
  header, the IP header, the ICMP header and the data of the request; both checksums verify.
\<close>

theorem echo_answer_on_wire:
  assumes icmp: "icmp_ok m icmp" "icmp_type icmp = EchoRequest" and ip: "ip_ok m ip"
    and f: "mac_ok (eth_src f)" and hw: "mac_ok hw" "hw \<noteq> replicate 6 0"
    and mtu: "unat (maximum_transmission_unit dev) < 2 ^ 63" "42 + unat (buf_size (icmp_payload icmp)) \<le> unat (maximum_transmission_unit dev)"
    and data: "data = buffer_bytes (m, icmp_payload icmp)"
  shows "\<exists>ir m1 pb m2 s1 ipr m3 r m4 s2 m5.
     clone_as_echo_response m icmp = Inr ir \<and> Buffer_sized m (icmp_size ir) = (m1, pb) \<and>
     icmp_try_to_stream buffer_ops m1 ir ((m1, pb), ByteOStream) = Inr ((m2, pb), s1) \<and>
     ip_clone_as_response m2 ip pb ttl = Inr ipr \<and> eth_clone_as_response ret m2 f ETHERTYPE_IPV4 (ip_size ipr) hw = (m3, r) \<and>
     ip_try_to_stream buffer_ops m3 ipr ((m3, eth_payload r), ByteOStream) = Inr ((m4, eth_payload r), s2) \<and>
     write_eth dev m4 r = Inr (m5, eth_src f @ hw @ [0x08, 0x00] @ ip_header_bytes ipr @ icmp_header_bytes ir @ data) \<and>
     ip_src ipr = ip_dst ip \<and> ip_dst ipr = ip_src ip \<and> icmp_type ir = EchoReply \<and> icmp_rest ir = icmp_rest icmp \<and>
     checksum_span (pad_even (icmp_header_bytes ir @ data)) = Inr \<lparr>ck_n = 0\<rparr> \<and>
     checksum_span (pad_even (ip_header_bytes ipr @ icmp_header_bytes ir @ data)) = Inr \<lparr>ck_n = 0\<rparr>"
proof -
  have small: "icmp_wire_size icmp + 1 < 2 ^ 63"
    using mtu by (simp add: icmp_wire_size_def)
  obtain c where c: "clone_as_echo_response m icmp = Inr (icmp\<lparr>icmp_type := EchoReply, icmp_checksum := c\<rparr>)"
    "checksum_span (pad_even (icmp_encode m (icmp\<lparr>icmp_type := EchoReply, icmp_checksum := c\<rparr>))) = Inr \<lparr>ck_n = 0\<rparr>"
    using echo_response [OF icmp(1) small icmp(2)] by blast
  define ir where "ir = icmp\<lparr>icmp_type := EchoReply, icmp_checksum := c\<rparr>"
  have pay: "icmp_payload ir = icmp_payload icmp" "icmp_ok m ir" "icmp_wire_size ir = icmp_wire_size icmp"
    using icmp(1) by (simp_all add: ir_def icmp_ok_def icmp_wire_size_def)
  obtain m1 pb m2 where p1: "Buffer_sized m (icmp_size ir) = (m1, pb)"
    "icmp_try_to_stream buffer_ops m1 ir ((m1, pb), ByteOStream) = Inr ((m2, pb), ostream_at (icmp_wire_size ir) ByteOStream)"
    "buffer_ok (m2, pb)" "buffer_bytes (m2, pb) = icmp_encode m ir" "buf_size pb = icmp_size ir"
    "\<forall>c. buffer_ok (m, c) \<longrightarrow> buffer_ok (m2, c) \<and> buffer_bytes (m2, c) = buffer_bytes (m, c)"
    using icmp_into_fresh [OF pay(2)] small pay(3) by auto
  have "ip_ok m2 ip" "unat (buf_size pb) + 21 < 2 ^ 63" and pb: "unat (buf_size pb) = icmp_wire_size icmp"
    using ip p1(5,6) icmp_sizes [OF pay(2)] pay(3) mtu by (auto simp: ip_ok_def icmp_wire_size_def)
  then obtain ipr where ipr: "ip_clone_as_response m2 ip pb ttl = Inr ipr" "ip_ok m2 ipr" "ip_src ipr = ip_dst ip" "ip_dst ipr = ip_src ip"
    "ip_payload ipr = pb" "checksum_span (pad_even (ip_encode m2 ipr)) = Inr \<lparr>ck_n = 0\<rparr>"
    using ip_response_into [OF _ p1(3)] by blast
  then have w: "ip_wire_size ipr = 28 + unat (buf_size (icmp_payload icmp))"
    using pb by (simp add: ip_wire_size_def icmp_wire_size_def)
  obtain m3 r m4 s2 m5 where r: "eth_clone_as_response ret m2 f ETHERTYPE_IPV4 (ip_size ipr) hw = (m3, r)"
    "ip_try_to_stream buffer_ops m3 ipr ((m3, eth_payload r), ByteOStream) = Inr ((m4, eth_payload r), s2)"
    "write_eth dev m4 r = Inr (m5, eth_src f @ hw @ [0x08, 0x00] @ ip_encode m2 ipr)"
    using ip_packet_on_wire [OF ipr(2) f hw mtu(1)] w mtu(2) by fastforce
  have enc: "icmp_encode m ir = icmp_header_bytes ir @ data" "ip_encode m2 ipr = ip_header_bytes ipr @ icmp_header_bytes ir @ data"
    using data pay(1) ipr(5) p1(4) by (simp_all add: icmp_encode_def ip_encode_def)
  have "clone_as_echo_response m icmp = Inr ir" "icmp_type ir = EchoReply" "icmp_rest ir = icmp_rest icmp"
    "checksum_span (pad_even (icmp_header_bytes ir @ data)) = Inr \<lparr>ck_n = 0\<rparr>"
    using c enc(1) by (simp_all add: ir_def)
  with p1(1,2) ipr(1,3,4,6) r enc(2) show ?thesis
    by metis
qed

theorem echo_answer_on_wire_witness:
  "\<exists>ir ipr m4 r m5. clone_as_echo_response [[7, 8, 9]] icmp_sample = Inr ir \<and> ip_dst ipr = ip_src ip_sample \<and>
     write_eth \<lparr>own_mac = [], own_ip = [], dev_fd = 3, maximum_transmission_unit = 1500\<rparr> m4 r =
       Inr (m5, [1, 2, 3, 4, 5, 6, 2, 2, 2, 2, 2, 2, 8, 0] @ ip_header_bytes ipr @ icmp_header_bytes ir @ [7, 8, 9])"
proof -
  have hw: "[2, 2, 2, 2, 2, 2] \<noteq> replicate 6 (0 :: u8)"
    by (simp add: numeral_eq_Suc)
  have s: "icmp_type icmp_sample = EchoRequest" "[7, 8, 9] = buffer_bytes ([[7, 8, 9]], icmp_payload icmp_sample)"
    "unat (buf_size (icmp_payload icmp_sample)) = 3" "ip_ok [[7, 8, 9]] ip_sample"
    by (simp_all add: icmp_sample_def EchoRequest_def ip_sample_def ip_ok_def ipv4_ok_def buffer_ok.simps buffer_bytes.simps)
  from echo_answer_on_wire [OF icmp_sample_ok(1) s(1,4), of arp_frame "[2, 2, 2, 2, 2, 2]"
        "\<lparr>own_mac = [], own_ip = [], dev_fd = 3, maximum_transmission_unit = 1500\<rparr>" "[7, 8, 9]" 64 arp_frame] hw s(2,3)
  show ?thesis
    by (simp add: arp_frame_def mac_ok_def) blast
qed



end
