(* ===== verification/Toad_Future.thy ===== *)
theory Toad_Future
  imports Toad_Prelude
begin

text \<open>
  \<^verbatim>\<open>include/concurrency/future.hpp\<close>. The value of a \<^verbatim>\<open>FutureState\<close> stands in a union, so whether an
  object lives there is the programmer's business: the slot records it. \<^verbatim>\<open>set_value\<close> and
  \<^verbatim>\<open>await_suspend\<close> run under the mutex of the state and are one event each.
\<close>

section \<open>The code\<close>

datatype 'a slot = Raw | Value 'a | Dead

record 'a FutureState =
  fs_value :: "'a slot"
  fs_ready :: bool
  fs_cont :: "nat option"

definition FutureState_new :: "'a FutureState" where
  "FutureState_new = \<lparr>fs_value = Raw, fs_ready = False, fs_cont = None\<rparr>"

text \<open>
  \<^verbatim>\<open>~FutureState\<close> runs the destructor of \<^verbatim>\<open>T\<close> on a state that is not ready. Ending the life of an
  object that is not there is harmless only for a type whose destructor does nothing.
\<close>

definition FutureState_dtor :: "bool \<Rightarrow> 'a FutureState \<Rightarrow> 'a slot res" where
  "FutureState_dtor trivial st =
     (if \<not> fs_ready st then
        (case fs_value st of Value v \<Rightarrow> Inr Dead | x \<Rightarrow> if trivial then Inr x else Inl Undefined_behaviour)
      else Inr (fs_value st))"

text \<open>
  \<^verbatim>\<open>FutureHandle::set_value\<close>: \<open>None\<close> is the state after the last owner is gone, when \<^verbatim>\<open>lock\<close> gives
  null. The result lists the coroutines spawned. Moving a coroutine handle copies it.
\<close>

definition set_value :: "'a FutureState option \<Rightarrow> 'a \<Rightarrow> ('a FutureState option \<times> nat list) res" where
  "set_value state value =
     (case state of
        None \<Rightarrow> Inr (None, [])
      | Some ptr \<Rightarrow>
          (case fs_cont ptr of
             None \<Rightarrow> Inr (Some ptr, [])
           | Some h \<Rightarrow>
               let did_set = \<not> fs_ready ptr; ptr = ptr\<lparr>fs_ready := True\<rparr>
               in ASSERT did_set (Inr (Some (ptr\<lparr>fs_value := Value value\<rparr>), [h]))))"

definition future_await_ready :: "'a FutureState \<Rightarrow> bool" where
  "future_await_ready st = fs_ready st"

definition future_await_suspend :: "'a FutureState \<Rightarrow> nat \<Rightarrow> 'a FutureState \<times> bool" where
  "future_await_suspend st handle = (if fs_ready st then (st, False) else (st\<lparr>fs_cont := Some handle\<rparr>, True))"

definition future_await_resume :: "'a FutureState \<Rightarrow> ('a FutureState \<times> 'a) res" where
  "future_await_resume st =
     ASSERT (fs_ready st)
       (case fs_value st of
          Value moved_out \<Rightarrow> Inr (st\<lparr>fs_value := Dead\<rparr>, moved_out)
        | _ \<Rightarrow> Inl Undefined_behaviour)"

text \<open>
  \<^verbatim>\<open>Future\<close> owns its state by a pointer, here an address. The move constructor empties its
  argument; the move assignment has no \<^verbatim>\<open>return\<close> on its main path.
\<close>

definition Future_move :: "nat option \<Rightarrow> nat option \<times> nat option" where
  "Future_move other = (other, None)"

definition Future_move_assign :: "bool \<Rightarrow> nat option \<Rightarrow> nat option \<Rightarrow> (nat option \<times> nat option) res" where
  "Future_move_assign self_assign this other =
     (if self_assign then Inr (this, this) else Inl Undefined_behaviour)"

section \<open>One coroutine and its producers\<close>

text \<open>
  The \<^verbatim>\<open>co_await\<close> of one coroutine \<open>h\<close> on a future: before \<^verbatim>\<open>await_ready\<close>, between it and
  \<^verbatim>\<open>await_suspend\<close>, suspended, to be resumed, and past \<^verbatim>\<open>await_resume\<close> with the value. Any thread may
  call \<^verbatim>\<open>set_value\<close> at any time.
\<close>

datatype 'a await_state = Fresh | Not_ready | Blocked | Runnable | Got 'a

record 'a future_sys =
  fu_state :: "'a FutureState"
  fu_pc :: "'a await_state"

datatype 'a future_event = Check | Suspend | Set 'a | Resume_coro

definition future_start :: "'a future_sys" where
  "future_start = \<lparr>fu_state = FutureState_new, fu_pc = Fresh\<rparr>"

fun future_step :: "nat \<Rightarrow> 'a future_event \<Rightarrow> 'a future_sys \<Rightarrow> 'a future_sys res option" where
  "future_step h Check s =
     (if fu_pc s = Fresh then
        Some (Inr (s\<lparr>fu_pc := if future_await_ready (fu_state s) then Runnable else Not_ready\<rparr>))
      else None)"
| "future_step h Suspend s =
     (if fu_pc s = Not_ready then
        (let (st, b) = future_await_suspend (fu_state s) h
         in Some (Inr \<lparr>fu_state = st, fu_pc = if b then Blocked else Runnable\<rparr>))
      else None)"
| "future_step h (Set v) s =
     Some (rbind (set_value (Some (fu_state s)) v) (\<lambda>(st, spawned).
       Inr \<lparr>fu_state = the st, fu_pc = if spawned = [] then fu_pc s else Runnable\<rparr>))"
| "future_step h Resume_coro s =
     (if fu_pc s = Runnable then
        Some (rbind (future_await_resume (fu_state s)) (\<lambda>(st, v). Inr \<lparr>fu_state = st, fu_pc = Got v\<rparr>))
      else None)"

fun future_run :: "nat \<Rightarrow> 'a future_event list \<Rightarrow> 'a future_sys \<Rightarrow> 'a future_sys res option" where
  "future_run h [] s = Some (Inr s)"
| "future_run h (e # es) s =
     (case future_step h e s of
        None \<Rightarrow> None
      | Some (Inl f) \<Rightarrow> Some (Inl f)
      | Some (Inr s') \<Rightarrow> future_run h es s')"

inductive future_reachable :: "nat \<Rightarrow> 'a future_sys \<Rightarrow> bool" for h where
  start: "future_reachable h future_start"
| step: "future_reachable h s \<Longrightarrow> future_step h e s = Some (Inr s') \<Longrightarrow> future_reachable h s'"

section \<open>Invariant\<close>

text \<open>
  The state is ready exactly once the coroutine has been woken, and the value is there exactly
  between the wake-up and \<^verbatim>\<open>await_resume\<close>.
\<close>

fun future_inv :: "nat \<Rightarrow> 'a future_sys \<Rightarrow> bool" where
  "future_inv h s =
     (case fu_pc s of
        Fresh \<Rightarrow> fu_state s = FutureState_new
      | Not_ready \<Rightarrow> fu_state s = FutureState_new
      | Blocked \<Rightarrow> fu_state s = FutureState_new\<lparr>fs_cont := Some h\<rparr>
      | Runnable \<Rightarrow> (\<exists>v. fu_state s = \<lparr>fs_value = Value v, fs_ready = True, fs_cont = Some h\<rparr>)
      | Got v \<Rightarrow> fu_state s = \<lparr>fs_value = Dead, fs_ready = True, fs_cont = Some h\<rparr>)"

lemmas future_defs = future_await_ready_def future_await_suspend_def future_await_resume_def set_value_def
  FutureState_new_def

lemma future_inv_step:
  "future_inv h s \<Longrightarrow> future_step h e s = Some (Inr s') \<Longrightarrow> future_inv h s'"
  by (cases e; cases "fu_pc s") (auto simp: future_defs Let_def)

lemma future_reachable_inv: "future_reachable h s \<Longrightarrow> future_inv h s"
proof (induction rule: future_reachable.induct)
  case start
  show ?case by (simp add: future_start_def)
next
  case (step s e s')
  then show ?case using future_inv_step by blast
qed

lemma future_sets_dropped:
  "fs_cont (fu_state s) = None \<Longrightarrow> future_run h (map Set vs @ es) s = future_run h es s"
  by (cases s) (induction vs, simp_all add: set_value_def)

section \<open>Properties\<close>

text \<open>
  C16: what a reachable state allows. A suspended coroutine is woken by \<^verbatim>\<open>set_value\<close> and resumes with
  exactly that value; resuming never finds the value missing; setting the value again, before or
  after the coroutine took it, aborts the program.
\<close>

theorem future_delivers_once:
  assumes "future_reachable h s"
  shows "(fu_pc s = Blocked \<longrightarrow>
       (\<exists>s'. future_run h [Set v, Resume_coro] s = Some (Inr s') \<and> fu_pc s' = Got v)) \<and>
     (fu_pc s = Runnable \<longrightarrow> (\<exists>s' w. future_step h Resume_coro s = Some (Inr s') \<and> fu_pc s' = Got w)) \<and>
     (future_step h (Set v) s = Some (Inl Assert_failed) \<longleftrightarrow> fs_ready (fu_state s))"
  using future_reachable_inv [OF assms]
  by (cases "fu_pc s") (auto simp: future_defs Let_def)

theorem future_delivers_once_witness:
  "\<exists>s s'. future_run 7 [Check, Suspend] (future_start :: int future_sys) = Some (Inr s) \<and>
     future_run 7 [Set 42, Resume_coro] s = Some (Inr s') \<and> fu_pc s' = Got 42"
proof -
  obtain t s :: "int future_sys" where r: "future_step 7 Check future_start = Some (Inr t)" "future_step 7 Suspend t = Some (Inr s)"
    "fu_pc s = Blocked"
    by (simp add: future_start_def future_defs)
  then have "future_reachable 7 s"
    by (meson future_reachable.intros)
  from future_delivers_once [OF this, of 42] r show ?thesis by auto
qed

text \<open>
  A value set before the coroutine has suspended is lost. However many values are set before
  \<^verbatim>\<open>await_ready\<close> or between \<^verbatim>\<open>await_ready\<close> and \<^verbatim>\<open>await_suspend\<close>, the coroutine suspends on a state that is
  not ready, exactly as if nothing had been set, and only another \<^verbatim>\<open>set_value\<close> can wake it.
\<close>

theorem future_value_lost:
  "future_run h (map Set vs @ [Check] @ map Set us @ [Suspend]) future_start =
     Some (Inr \<lparr>fu_state = FutureState_new\<lparr>fs_cont := Some h\<rparr>, fu_pc = Blocked\<rparr>) \<and>
   future_step h Resume_coro \<lparr>fu_state = FutureState_new\<lparr>fs_cont := Some h\<rparr>, fu_pc = Blocked\<rparr> = None"
proof -
  have "future_run h (map Set vs @ [Check] @ map Set us @ [Suspend]) future_start =
      future_run h (map Set us @ [Suspend]) (future_start\<lparr>fu_pc := Not_ready\<rparr>)"
    by (subst future_sets_dropped) (simp_all add: future_start_def future_defs)
  also have "\<dots> = Some (Inr \<lparr>fu_state = FutureState_new\<lparr>fs_cont := Some h\<rparr>, fu_pc = Blocked\<rparr>)"
    by (subst future_sets_dropped) (simp_all add: future_start_def future_defs)
  finally show ?thesis by simp
qed

text \<open>
  The destructor of the state has its test the wrong way round. In a reachable state it runs
  the destructor of \<^verbatim>\<open>T\<close> exactly when no value was ever constructed, which is undefined unless that
  destructor is trivial, and it leaves a value that was set but not taken undestroyed.
\<close>

theorem FutureState_dtor_inverted:
  assumes "future_reachable h s"
  shows "(\<not> fs_ready (fu_state s) \<longrightarrow> FutureState_dtor False (fu_state s) = Inl Undefined_behaviour \<and>
       FutureState_dtor True (fu_state s) = Inr Raw) \<and>
     (fu_pc s = Runnable \<longrightarrow> (\<exists>v. FutureState_dtor trivial (fu_state s) = Inr (Value v))) \<and>
     (\<forall>v. fu_pc s = Got v \<longrightarrow> FutureState_dtor trivial (fu_state s) = Inr Dead)"
  using future_reachable_inv [OF assms]
  by (cases "fu_pc s") (auto simp: FutureState_dtor_def FutureState_new_def)

theorem FutureState_dtor_inverted_witness:
  "FutureState_dtor False (fu_state (future_start :: int future_sys)) = Inl Undefined_behaviour"
  using FutureState_dtor_inverted [OF future_reachable.start [of 0, where 'a = int]]
  by (simp add: future_start_def FutureState_new_def)

end
