(* ===== verification/Toad_Future_Own.thy ===== *)
theory Toad_Future_Own
  imports Toad_Future
begin

text \<open>
  Who keeps a \<^verbatim>\<open>FutureState\<close> of \<^verbatim>\<open>include/concurrency/future.hpp\<close> alive. A \<^verbatim>\<open>Future\<close> holds it by a \<^verbatim>\<open>shared_ptr\<close>, a
  \<^verbatim>\<open>FutureHandle\<close> by a \<^verbatim>\<open>weak_ptr\<close>, and \<^verbatim>\<open>set_value\<close> by the \<^verbatim>\<open>shared_ptr\<close> that \<^verbatim>\<open>lock\<close> gives it until it returns. The
  pointers are modelled with the use count the standard library keeps; the count that reaches
  zero runs the destructor of the state.
\<close>

section \<open>Shared and weak pointers\<close>

text \<open>
  The objects that hold a \<^verbatim>\<open>shared_ptr\<close>: a \<^verbatim>\<open>Future\<close>, the local variable of \<^verbatim>\<open>make_future\<close>, the parameter of the
  constructor of \<^verbatim>\<open>FutureHandle\<close>, and a call of \<^verbatim>\<open>set_value\<close> by a thread.
\<close>

datatype owner = Fut nat | Local | Param | Call nat

record 'a future_heap =
  fh_state :: "nat \<rightharpoonup> 'a FutureState"
  fh_count :: "nat \<Rightarrow> nat"
  fh_sp :: "owner \<rightharpoonup> nat option"
  fh_wp :: "nat option \<rightharpoonup> nat option"
  fh_next :: nat
  fh_destroyed :: "nat list"

definition future_heap_empty :: "'a future_heap" where
  "future_heap_empty = \<lparr>fh_state = Map.empty, fh_count = (\<lambda>a. 0), fh_sp = Map.empty, fh_wp = Map.empty,
     fh_next = 0, fh_destroyed = []\<rparr>"

definition sp_make :: "owner \<Rightarrow> 'a future_heap \<Rightarrow> 'a future_heap" where
  "sp_make x s =
     (let a = fh_next s
      in s\<lparr>fh_next := a + 1, fh_state := (fh_state s)(a \<mapsto> FutureState_new), fh_count := (fh_count s)(a := 1),
           fh_sp := (fh_sp s)(x \<mapsto> Some a)\<rparr>)"

definition sp_copy :: "owner \<Rightarrow> nat option \<Rightarrow> 'a future_heap \<Rightarrow> 'a future_heap" where
  "sp_copy x p s =
     (case p of
        None \<Rightarrow> s\<lparr>fh_sp := (fh_sp s)(x \<mapsto> None)\<rparr>
      | Some a \<Rightarrow> s\<lparr>fh_sp := (fh_sp s)(x \<mapsto> Some a), fh_count := (fh_count s)(a := fh_count s a + 1)\<rparr>)"

definition sp_move :: "owner \<Rightarrow> owner \<Rightarrow> 'a future_heap \<Rightarrow> 'a future_heap" where
  "sp_move x y s = s\<lparr>fh_sp := (fh_sp s)(y \<mapsto> None, x := fh_sp s y)\<rparr>"

definition sp_drop :: "bool \<Rightarrow> owner \<Rightarrow> 'a future_heap \<Rightarrow> 'a future_heap res" where
  "sp_drop trivial x s =
     (case fh_sp s x of
        Some (Some a) \<Rightarrow>
          let c = fh_count s a - 1;
              s = s\<lparr>fh_sp := (fh_sp s)(x := None), fh_count := (fh_count s)(a := c)\<rparr>
          in if c = 0 then
               (case fh_state s a of
                  None \<Rightarrow> Inl Undefined_behaviour
                | Some st \<Rightarrow> rbind (FutureState_dtor trivial st) (\<lambda>_.
                    Inr (s\<lparr>fh_state := (fh_state s)(a := None), fh_destroyed := fh_destroyed s @ [a]\<rparr>)))
             else Inr s
      | _ \<Rightarrow> Inr (s\<lparr>fh_sp := (fh_sp s)(x := None)\<rparr>))"

text \<open>\<^verbatim>\<open>weak_ptr::lock\<close>: a copy of the pointer while the count is not zero, else null.\<close>

definition wp_lock :: "owner \<Rightarrow> nat option \<Rightarrow> 'a future_heap \<Rightarrow> 'a future_heap" where
  "wp_lock x w s = sp_copy x (case w of None \<Rightarrow> None | Some a \<Rightarrow> if fh_count s a = 0 then None else Some a) s"

definition wp_set :: "nat option \<Rightarrow> nat option \<Rightarrow> 'a future_heap \<Rightarrow> 'a future_heap" where
  "wp_set h w s = s\<lparr>fh_wp := (fh_wp s)(h \<mapsto> w)\<rparr>"

section \<open>The operations of the code\<close>

text \<open>
  \<open>trivial\<close> says whether the destructor of the value's type does nothing. Names of objects are
  numbers; \<open>None\<close> names the local handle of \<^verbatim>\<open>make_future\<close>.
\<close>

definition own_future_new :: "owner \<Rightarrow> 'a future_heap \<Rightarrow> 'a future_heap" where
  "own_future_new f s = sp_make f s"

definition own_future_move :: "owner \<Rightarrow> owner \<Rightarrow> 'a future_heap \<Rightarrow> 'a future_heap" where
  "own_future_move f other s = sp_move f other s"

definition own_future_dtor :: "bool \<Rightarrow> owner \<Rightarrow> 'a future_heap \<Rightarrow> 'a future_heap res" where
  "own_future_dtor trivial f s = sp_drop trivial f s"

definition own_handle_new :: "nat option \<Rightarrow> 'a future_heap \<Rightarrow> 'a future_heap" where
  "own_handle_new h s = wp_set h None s"

definition own_handle_of :: "bool \<Rightarrow> nat option \<Rightarrow> nat option \<Rightarrow> 'a future_heap \<Rightarrow> 'a future_heap res" where
  "own_handle_of trivial h state s = sp_drop trivial Param (wp_set h state (sp_copy Param state s))"

definition own_handle_copy :: "nat option \<Rightarrow> nat option \<Rightarrow> 'a future_heap \<Rightarrow> 'a future_heap" where
  "own_handle_copy h other s = wp_set h (the (fh_wp s other)) s"

definition own_handle_assign :: "nat option \<Rightarrow> nat option \<Rightarrow> 'a future_heap \<Rightarrow> 'a future_heap" where
  "own_handle_assign h other s = wp_set h (the (fh_wp s other)) s"

definition own_handle_dtor :: "nat option \<Rightarrow> 'a future_heap \<Rightarrow> 'a future_heap" where
  "own_handle_dtor h s = s\<lparr>fh_wp := (fh_wp s)(h := None)\<rparr>"

text \<open>\<^verbatim>\<open>make_future\<close>: the two locals are destroyed after they were moved and copied into the result.\<close>

definition own_make_future :: "bool \<Rightarrow> nat \<Rightarrow> nat \<Rightarrow> 'a future_heap \<Rightarrow> 'a future_heap res" where
  "own_make_future trivial f h s =
     (let s = own_future_new Local s in
      rbind (own_handle_of trivial None (the (fh_sp s Local)) s) (\<lambda>s.
      let s = own_future_move (Fut f) Local s;
          s = own_handle_copy (Some h) None s;
          s = own_handle_dtor None s
      in own_future_dtor trivial Local s))"

text \<open>
  \<^verbatim>\<open>set_value\<close> in two events of its thread: \<^verbatim>\<open>lock\<close>, then the body under the mutex and the release
  of the pointer on return. The second gives the coroutines spawned. The handle has been destroyed or
  assigned to in between at most by another thread, which the body does not notice.
\<close>

definition own_set_begin :: "nat \<Rightarrow> nat option \<Rightarrow> 'a future_heap \<Rightarrow> 'a future_heap" where
  "own_set_begin t h s = wp_lock (Call t) (the (fh_wp s h)) s"

definition own_set_finish :: "bool \<Rightarrow> nat \<Rightarrow> 'a \<Rightarrow> 'a future_heap \<Rightarrow> ('a future_heap \<times> nat list) res" where
  "own_set_finish trivial t v s =
     (let ptr = the (fh_sp s (Call t));
          state = (case ptr of None \<Rightarrow> Inr None
            | Some a \<Rightarrow> (case fh_state s a of None \<Rightarrow> Inl Undefined_behaviour | Some st \<Rightarrow> Inr (Some st)))
      in rbind state (\<lambda>state.
         rbind (set_value state v) (\<lambda>(state, spawned).
         let s = (case ptr of None \<Rightarrow> s | Some a \<Rightarrow> s\<lparr>fh_state := (fh_state s)(a := state)\<rparr>)
         in rbind (sp_drop trivial (Call t) s) (\<lambda>s. Inr (s, spawned)))))"

text \<open>The awaits go through the pointer of the \<^verbatim>\<open>Future\<close>, which is null once it was moved from.\<close>

definition own_await :: "nat \<Rightarrow> ('a FutureState \<Rightarrow> 'a FutureState res) \<Rightarrow> 'a future_heap \<Rightarrow> 'a future_heap res" where
  "own_await f op s =
     (case fh_sp s (Fut f) of
        Some (Some a) \<Rightarrow>
          (case fh_state s a of
             None \<Rightarrow> Inl Undefined_behaviour
           | Some st \<Rightarrow> rbind (op st) (\<lambda>st. Inr (s\<lparr>fh_state := (fh_state s)(a \<mapsto> st)\<rparr>)))
      | _ \<Rightarrow> Inl Undefined_behaviour)"

section \<open>Runs\<close>

text \<open>
  Any order of operations by any threads. A new object takes a name that is free; an operation on
  an object needs the object to exist.
\<close>

datatype 'a own_event =
    Own_make nat nat | Own_new nat | Own_move nat nat | Own_dtor nat
  | Own_handle_new nat | Own_handle_copy nat nat | Own_handle_assign nat nat | Own_handle_dtor nat
  | Own_set_begin nat nat | Own_set_finish nat 'a | Own_suspend nat nat | Own_resume nat

fun own_step :: "bool \<Rightarrow> 'a own_event \<Rightarrow> 'a future_heap \<Rightarrow> 'a future_heap res option" where
  "own_step tr (Own_make f h) s =
     (if fh_sp s (Fut f) = None \<and> fh_wp s (Some h) = None then Some (own_make_future tr f h s) else None)"
| "own_step tr (Own_new f) s = (if fh_sp s (Fut f) = None then Some (Inr (own_future_new (Fut f) s)) else None)"
| "own_step tr (Own_move f g) s =
     (if fh_sp s (Fut f) = None \<and> fh_sp s (Fut g) \<noteq> None then Some (Inr (own_future_move (Fut f) (Fut g) s)) else None)"
| "own_step tr (Own_dtor f) s = (if fh_sp s (Fut f) = None then None else Some (own_future_dtor tr (Fut f) s))"
| "own_step tr (Own_handle_new h) s = (if fh_wp s (Some h) = None then Some (Inr (own_handle_new (Some h) s)) else None)"
| "own_step tr (Own_handle_copy h g) s =
     (if fh_wp s (Some h) = None \<and> fh_wp s (Some g) \<noteq> None then Some (Inr (own_handle_copy (Some h) (Some g) s)) else None)"
| "own_step tr (Own_handle_assign h g) s =
     (if fh_wp s (Some h) \<noteq> None \<and> fh_wp s (Some g) \<noteq> None then Some (Inr (own_handle_assign (Some h) (Some g) s)) else None)"
| "own_step tr (Own_handle_dtor h) s = (if fh_wp s (Some h) = None then None else Some (Inr (own_handle_dtor (Some h) s)))"
| "own_step tr (Own_set_begin t h) s =
     (if fh_sp s (Call t) = None \<and> fh_wp s (Some h) \<noteq> None then Some (Inr (own_set_begin t (Some h) s)) else None)"
| "own_step tr (Own_set_finish t v) s =
     (if fh_sp s (Call t) = None then None else Some (rbind (own_set_finish tr t v s) (\<lambda>(s, spawned). Inr s)))"
| "own_step tr (Own_suspend f h) s =
     (if fh_sp s (Fut f) = None then None else Some (own_await f (\<lambda>st. Inr (fst (future_await_suspend st h))) s))"
| "own_step tr (Own_resume f) s =
     (if fh_sp s (Fut f) = None then None
      else Some (own_await f (\<lambda>st. rbind (future_await_resume st) (\<lambda>(st, v). Inr st)) s))"

fun own_run :: "bool \<Rightarrow> 'a own_event list \<Rightarrow> 'a future_heap \<Rightarrow> 'a future_heap res option" where
  "own_run tr [] s = Some (Inr s)"
| "own_run tr (e # es) s =
     (case own_step tr e s of
        None \<Rightarrow> None
      | Some (Inl f) \<Rightarrow> Some (Inl f)
      | Some (Inr s') \<Rightarrow> own_run tr es s')"

inductive own_reachable :: "bool \<Rightarrow> 'a future_heap \<Rightarrow> bool" for tr where
  start: "own_reachable tr future_heap_empty"
| step: "own_reachable tr s \<Longrightarrow> own_step tr e s = Some (Inr s') \<Longrightarrow> own_reachable tr s'"

section \<open>Invariant\<close>

definition holders :: "'a future_heap \<Rightarrow> nat \<Rightarrow> owner set" where
  "holders s a = {x. fh_sp s x = Some (Some a)}"

fun is_future :: "owner \<Rightarrow> bool" where
  "is_future (Fut f) = True"
| "is_future Local = True"
| "is_future _ = False"

definition own_inv :: "'a future_heap \<Rightarrow> bool" where
  "own_inv s \<longleftrightarrow> finite (dom (fh_sp s)) \<and> (\<forall>a. fh_count s a = card (holders s a)) \<and>
     dom (fh_state s) = {a. fh_count s a > 0} \<and>
     (\<forall>a x y. x \<in> holders s a \<longrightarrow> y \<in> holders s a \<longrightarrow> is_future x \<longrightarrow> is_future y \<longrightarrow> x = y) \<and>
     dom (fh_state s) \<inter> set (fh_destroyed s) = {} \<and> dom (fh_state s) \<union> set (fh_destroyed s) = {..<fh_next s} \<and>
     distinct (fh_destroyed s) \<and> (\<forall>h a. fh_wp s h = Some (Some a) \<longrightarrow> a < fh_next s)"

definition own_idle :: "'a future_heap \<Rightarrow> bool" where
  "own_idle s \<longleftrightarrow> fh_sp s Local = None \<and> fh_sp s Param = None \<and> fh_wp s None = None"

lemma finite_holders: "finite (dom (fh_sp s)) \<Longrightarrow> finite (holders s a)"
  by (rule finite_subset [of _ "dom (fh_sp s)"]) (auto simp: holders_def)

lemma own_invD:
  assumes "own_inv s"
  shows "finite (holders s a)" and "fh_count s a = card (holders s a)" and "a \<in> dom (fh_state s) \<longleftrightarrow> holders s a \<noteq> {}"
    and "a \<in> dom (fh_state s) \<Longrightarrow> a \<notin> set (fh_destroyed s)" and "a \<in> dom (fh_state s) \<or> a \<in> set (fh_destroyed s) \<longleftrightarrow> a < fh_next s"
    and "distinct (fh_destroyed s)" and "x \<in> holders s a \<Longrightarrow> y \<in> holders s a \<Longrightarrow> is_future x \<Longrightarrow> is_future y \<Longrightarrow> x = y"
proof -
  show fin: "finite (holders s a)" and c: "fh_count s a = card (holders s a)"
    using assms finite_holders by (auto simp: own_inv_def)
  have "a \<in> dom (fh_state s) \<longleftrightarrow> fh_count s a > 0"
    using assms unfolding own_inv_def by blast
  with fin c show "a \<in> dom (fh_state s) \<longleftrightarrow> holders s a \<noteq> {}"
    by (simp add: card_gt_0_iff)
qed (use assms in \<open>unfold own_inv_def, blast+\<close>)

lemma own_inv_empty: "own_inv future_heap_empty"
  by (simp add: own_inv_def future_heap_empty_def holders_def)

lemma own_inv_alive: "own_inv s \<Longrightarrow> fh_sp s x = Some (Some a) \<Longrightarrow> a \<in> dom (fh_state s)"
  using finite_holders [of s a] by (auto simp: own_inv_def holders_def card_gt_0_iff)

lemma own_inv_fresh: "own_inv s \<Longrightarrow> fh_sp s x \<noteq> Some (Some (fh_next s))"
  using own_inv_alive [of s x "fh_next s"] by (auto simp: own_inv_def)

lemma own_inv_make:
  assumes "own_inv s" and "fh_sp s x = None"
  shows "own_inv (sp_make x s)"
proof -
  have h: "holders (sp_make x s) a = (if a = fh_next s then {x} else holders s a)" for a
    using assms own_inv_fresh [OF assms(1)] by (auto simp: sp_make_def Let_def holders_def)
  have "\<forall>a. a \<in> dom (fh_state s) \<or> a \<in> set (fh_destroyed s) \<longleftrightarrow> a < fh_next s"
    using assms(1) unfolding own_inv_def by blast
  with h assms show ?thesis
    by (auto simp: own_inv_def sp_make_def Let_def less_Suc_eq)
qed

lemma own_inv_copy:
  assumes "own_inv s" and "fh_sp s x = None" and "\<not> is_future x" and "\<And>a. p = Some a \<Longrightarrow> a \<in> dom (fh_state s)"
  shows "own_inv (sp_copy x p s)"
proof (cases p)
  case None
  then have "holders (sp_copy x p s) = holders s"
    using assms(2) by (auto simp: fun_eq_iff holders_def sp_copy_def)
  with assms(1) None show ?thesis
    by (auto simp: own_inv_def sp_copy_def)
next
  case (Some b)
  have h: "holders (sp_copy x p s) a = (if a = b then insert x (holders s a) else holders s a)" for a
    using assms(2) Some by (auto simp: sp_copy_def holders_def)
  have "x \<notin> holders s b" "finite (holders s b)"
    using assms(1,2) finite_holders by (auto simp: holders_def own_inv_def)
  with h assms Some show ?thesis
    by (auto simp: own_inv_def sp_copy_def)
qed

lemma own_inv_move:
  assumes "own_inv s" and "fh_sp s x = None" and "fh_sp s y \<noteq> None" and "is_future x" and "is_future y"
  shows "own_inv (sp_move x y s)"
proof -
  have h: "holders (sp_move x y s) a = (if y \<in> holders s a then insert x (holders s a - {y}) else holders s a)" for a
    using assms(2,3) by (auto simp: sp_move_def holders_def)
  have fin: "finite (holders s a)" and "x \<notin> holders s a" for a
    using assms(1,2) finite_holders by (auto simp: holders_def own_inv_def)
  then have c: "card (holders (sp_move x y s) a) = card (holders s a)" for a
    using h [of a] card.remove [of "holders s a" y] by (simp split: if_splits)
  have "finite (dom (fh_sp (sp_move x y s)))"
    using assms(1) by (auto simp: own_inv_def sp_move_def intro: finite_subset [of _ "{x, y} \<union> dom (fh_sp s)"])
  moreover have "u = v" if "u \<in> holders (sp_move x y s) a" "v \<in> holders (sp_move x y s) a" "is_future u" "is_future v" for a u v
    using that assms(1,4,5) unfolding h own_inv_def by (auto split: if_splits)
  ultimately show ?thesis
    using assms(1) c unfolding own_inv_def by (elim conjE, intro conjI) (simp_all add: sp_move_def)
qed

text \<open>Dropping the last pointer destroys the state, and nothing else changes.\<close>

lemma sp_drop_cases:
  assumes "own_inv s" and "sp_drop tr x s = Inr s'"
  obtains (null) "\<And>a. x \<notin> holders s a" "s' = s\<lparr>fh_sp := (fh_sp s)(x := None)\<rparr>"
    | (shared) a where "x \<in> holders s a" "holders s a \<noteq> {x}"
      "s' = s\<lparr>fh_sp := (fh_sp s)(x := None), fh_count := (fh_count s)(a := card (holders s a - {x}))\<rparr>"
    | (last) a where "holders s a = {x}"
      "s' = s\<lparr>fh_sp := (fh_sp s)(x := None), fh_count := (fh_count s)(a := 0),
         fh_state := (fh_state s)(a := None), fh_destroyed := fh_destroyed s @ [a]\<rparr>"
proof (cases "\<exists>a. fh_sp s x = Some (Some a)")
  case True
  then obtain a where a: "fh_sp s x = Some (Some a)" "x \<in> holders s a"
    by (auto simp: holders_def)
  have "finite (holders s a)" and c: "fh_count s a = card (holders s a)"
    using assms(1) finite_holders by (auto simp: own_inv_def)
  then have d: "card (holders s a) - 1 = card (holders s a - {x})" "card (holders s a - {x}) = 0 \<longleftrightarrow> holders s a = {x}"
    using a(2) by (auto simp: card_le_Suc0_iff_eq)
  show ?thesis
  proof (cases "holders s a = {x}")
    case True
    then show ?thesis
      using assms(2) a c d(2) by (intro last) (auto simp: sp_drop_def Let_def rbind_eq_Inr split: option.splits)
  next
    case False
    then show ?thesis
      using assms(2) a d by (intro shared [OF a(2)]) (simp_all add: sp_drop_def Let_def c)
  qed
next
  case False
  then show ?thesis
    using assms(2) by (intro null) (auto simp: sp_drop_def holders_def split: option.splits)
qed

lemma own_inv_drop:
  assumes inv: "own_inv s" and "sp_drop tr x s = Inr s'"
  shows "own_inv s'"
proof -
  have alive: "dom (fh_state s) = {a. holders s a \<noteq> {}}" and c: "\<And>a. fh_count s a = card (holders s a)"
    and fin: "\<And>a. finite (holders s a)"
    using inv finite_holders by (auto simp: own_inv_def card_gt_0_iff)
  have one: "x \<in> holders s a \<Longrightarrow> b \<noteq> a \<Longrightarrow> x \<notin> holders s b" for a b
    by (auto simp: holders_def)
  have fd: "finite (dom ((fh_sp s)(x := None)))"
    using inv by (simp add: own_inv_def)
  from assms show ?thesis
  proof (cases rule: sp_drop_cases)
    case null
    then have "holders s' = holders s"
      by (auto simp: fun_eq_iff holders_def)
    with inv null fd show ?thesis
      by (auto simp: own_inv_def)
  next
    case (shared a)
    have h: "holders s' b = holders s b - {x}" for b
      using shared by (auto simp: holders_def)
    have c': "fh_count s' b = card (holders s' b)" for b
      using shared one [of a b] c [of b] unfolding h by simp
    have "holders s b - {x} = {} \<longleftrightarrow> holders s b = {}" for b
      using shared(1,2) one [of a b] by (cases "b = a") auto
    then have "dom (fh_state s') = {b. fh_count s' b > 0}"
      using shared(3) alive fin unfolding c' h by (simp add: card_gt_0_iff)
    with inv c' h shared fd show ?thesis
      unfolding own_inv_def by (elim conjE, intro conjI) (simp_all, blast)
  next
    case (last a)
    have h: "holders s' b = holders s b - {x}" for b
      using last by (auto simp: holders_def)
    have c': "fh_count s' b = card (holders s' b)" for b
      using last one [of a b] c [of b] unfolding h by simp
    have d: "dom (fh_state s') = dom (fh_state s) - {a}" "a \<in> dom (fh_state s)"
      using last alive by auto
    have "holders s b - {x} = {} \<longleftrightarrow> b = a \<or> holders s b = {}" for b
      using last(1) one [of a b] by (cases "b = a") auto
    then have "dom (fh_state s') = {b. fh_count s' b > 0}"
      using d alive fin unfolding c' h by (auto simp: card_gt_0_iff)
    moreover have "dom (fh_state s') \<inter> set (fh_destroyed s') = {}" "dom (fh_state s') \<union> set (fh_destroyed s') = {..<fh_next s}"
      "distinct (fh_destroyed s')"
      using own_invD(4-6) [OF inv] d last(2) by auto
    ultimately show ?thesis
      using inv c' h last fd unfolding own_inv_def by (elim conjE, intro conjI) (simp_all, blast)
  qed
qed

lemma own_inv_weak: "own_inv s \<Longrightarrow> (\<And>a. w = Some a \<Longrightarrow> a < fh_next s) \<Longrightarrow> own_inv (wp_set h w s)"
  by (auto simp: own_inv_def wp_set_def holders_def)

lemma own_inv_handle: "own_inv s \<Longrightarrow> fh_wp s g \<noteq> None \<Longrightarrow> own_inv (wp_set h (the (fh_wp s g)) s)"
  by (rule own_inv_weak) (auto simp: own_inv_def)

lemma own_inv_weak_drop: "own_inv s \<Longrightarrow> own_inv (own_handle_dtor h s)"
  by (auto simp: own_inv_def own_handle_dtor_def holders_def)

lemma own_inv_state:
  assumes "own_inv s" and "a \<in> dom (fh_state s)"
  shows "own_inv (s\<lparr>fh_state := (fh_state s)(a \<mapsto> st)\<rparr>)"
proof -
  have "dom ((fh_state s)(a \<mapsto> st)) = dom (fh_state s)"
    using assms(2) by auto
  with assms(1) show ?thesis
    unfolding own_inv_def holders_def by (elim conjE, intro conjI) simp_all
qed

section \<open>Every operation keeps the invariant\<close>

lemma own_inv_make_future:
  assumes inv: "own_inv s" and idle: "own_idle s" and free: "fh_sp s (Fut f) = None" "fh_wp s (Some h) = None"
  shows "\<exists>s'. own_make_future tr f h s = Inr s' \<and> own_inv s' \<and> own_idle s' \<and>
     fh_sp s' = (fh_sp s)(Fut f \<mapsto> Some (fh_next s)) \<and> fh_wp s' = (fh_wp s)(Some h \<mapsto> Some (fh_next s)) \<and>
     fh_destroyed s' = fh_destroyed s"
proof -
  let ?n = "fh_next s"
  define s1 where "s1 = s\<lparr>fh_next := ?n + 1, fh_state := (fh_state s)(?n \<mapsto> FutureState_new), fh_count := (fh_count s)(?n := 1),
       fh_wp := (fh_wp s)(Some h \<mapsto> Some ?n), fh_sp := (fh_sp s)(Fut f \<mapsto> Some ?n)\<rparr>"
  have "(fh_sp s)(Local := None, Param := None) = fh_sp s" "(fh_wp s)(None := None) = fh_wp s"
    using idle by (auto simp: own_idle_def fun_eq_iff)
  then have eq: "own_make_future tr f h s = Inr s1"
    unfolding s1_def
    by (simp add: Let_def own_make_future_def own_future_new_def sp_make_def own_handle_of_def sp_copy_def wp_set_def sp_drop_def
      own_future_move_def sp_move_def own_handle_copy_def own_handle_dtor_def own_future_dtor_def fun_upd_twist)
  have "s1 = wp_set (Some h) (Some ?n) (sp_make (Fut f) s)"
    by (simp add: s1_def wp_set_def sp_make_def Let_def)
  then have "own_inv s1"
    using own_inv_weak [OF own_inv_make [OF inv free(1)], of "Some ?n" "Some h"] by (simp add: sp_make_def)
  with eq idle show ?thesis
    by (simp add: s1_def own_idle_def)
qed

lemma own_inv_await:
  assumes "own_inv s" and "own_await f op s = Inr s'"
  shows "own_inv s' \<and> fh_sp s' = fh_sp s \<and> fh_wp s' = fh_wp s"
  using assms own_inv_state by (fastforce simp: own_await_def rbind_eq_Inr split: option.splits)

lemma sp_drop_frame:
  "own_inv s \<Longrightarrow> sp_drop tr x s = Inr s' \<Longrightarrow> fh_sp s' = (fh_sp s)(x := None) \<and> fh_wp s' = fh_wp s"
  by (cases rule: sp_drop_cases) auto

lemma own_set_begin_frame:
  "x \<noteq> Call t \<Longrightarrow> fh_sp (own_set_begin t h s) x = fh_sp s x" "fh_wp (own_set_begin t h s) = fh_wp s"
  by (simp_all add: own_set_begin_def wp_lock_def sp_copy_def split: option.splits)

lemma own_inv_set_begin:
  assumes "own_inv s" and "fh_sp s (Call t) = None"
  shows "own_inv (own_set_begin t h s)"
  using assms unfolding own_set_begin_def wp_lock_def
  by (intro own_inv_copy) (auto simp: own_inv_def split: option.splits if_splits)

lemma own_inv_set_finish:
  assumes "own_inv s" and "own_set_finish tr t v s = Inr (s', spawned)"
  shows "own_inv s' \<and> fh_sp s' = (fh_sp s)(Call t := None) \<and> fh_wp s' = fh_wp s"
proof -
  obtain s1 where s1: "own_inv s1" "sp_drop tr (Call t) s1 = Inr s'" "fh_sp s1 = fh_sp s" "fh_wp s1 = fh_wp s"
  proof (cases "the (fh_sp s (Call t))")
    case None
    then show ?thesis
      using assms that [of s] by (simp add: own_set_finish_def set_value_def rbind_eq_Inr)
  next
    case (Some a)
    then obtain st st' where st: "fh_state s a = Some st" "set_value (Some st) v = Inr (Some st', spawned)"
      "sp_drop tr (Call t) (s\<lparr>fh_state := (fh_state s)(a \<mapsto> st')\<rparr>) = Inr s'"
      using assms(2) by (auto simp: own_set_finish_def rbind_eq_Inr set_value_def Let_def ASSERT_def split: option.splits if_splits)
    with own_inv_state [OF assms(1), of a st'] show ?thesis
      by (intro that [OF _ st(3)]) auto
  qed
  with own_inv_drop [OF s1(1,2)] sp_drop_frame [OF s1(1,2)] show ?thesis
    by simp
qed

lemma own_inv_step:
  assumes inv: "own_inv s" "own_idle s" and "own_step tr e s = Some (Inr s')"
  shows "own_inv s' \<and> own_idle s'"
proof (cases e)
  case (Own_make f h)
  with assms own_inv_make_future [OF inv, of f h tr] show ?thesis
    by (auto split: if_splits)
next
  case (Own_dtor f)
  with assms own_inv_drop [OF inv(1)] sp_drop_frame [OF inv(1)] show ?thesis
    by (auto simp: own_future_dtor_def own_idle_def split: if_splits)
next
  case (Own_set_finish t v)
  with assms own_inv_set_finish [OF inv(1)] show ?thesis
    by (auto simp: own_idle_def rbind_eq_Inr split: if_splits)
next
  case (Own_suspend f h)
  with assms own_inv_await [OF inv(1)] show ?thesis
    by (auto simp: own_idle_def split: if_splits)
next
  case (Own_resume f)
  with assms own_inv_await [OF inv(1)] show ?thesis
    by (auto simp: own_idle_def split: if_splits)
next
  case (Own_set_begin t h)
  with assms own_inv_set_begin [OF inv(1)] show ?thesis
    by (auto simp: own_idle_def own_set_begin_frame split: if_splits)
next
  case (Own_new f)
  with assms own_inv_make [OF inv(1)] show ?thesis
    by (auto simp: own_idle_def own_future_new_def sp_make_def Let_def split: if_splits)
next
  case (Own_move f g)
  with assms own_inv_move [OF inv(1), of "Fut f" "Fut g"] show ?thesis
    by (auto simp: own_idle_def own_future_move_def sp_move_def split: if_splits)
next
  case (Own_handle_dtor h)
  with assms own_inv_weak_drop [OF inv(1)] show ?thesis
    by (auto simp: own_idle_def own_handle_dtor_def split: if_splits)
next
  case (Own_handle_new h)
  with assms own_inv_weak [OF inv(1), of None "Some h"] show ?thesis
    by (auto simp: own_idle_def own_handle_new_def wp_set_def split: if_splits)
next
  case (Own_handle_copy h g)
  with assms own_inv_handle [OF inv(1), of "Some g" "Some h"] show ?thesis
    by (auto simp: own_idle_def own_handle_copy_def wp_set_def split: if_splits)
next
  case (Own_handle_assign h g)
  with assms own_inv_handle [OF inv(1), of "Some g" "Some h"] show ?thesis
    by (auto simp: own_idle_def own_handle_assign_def wp_set_def split: if_splits)
qed

lemma own_reachable_inv: "own_reachable tr s \<Longrightarrow> own_inv s \<and> own_idle s"
proof (induction rule: own_reachable.induct)
  case start
  then show ?case
    by (rule conjI [OF own_inv_empty]) (simp add: own_idle_def future_heap_empty_def)
qed (use own_inv_step in blast)

lemma own_run_reachable: "own_reachable tr s \<Longrightarrow> own_run tr es s = Some (Inr s') \<Longrightarrow> own_reachable tr s'"
  by (induction es arbitrary: s) (auto intro: own_reachable.step split: option.splits sum.splits)

lemma holders_idle:
  assumes "own_idle s"
  shows "holders s a = Fut ` {f. fh_sp s (Fut f) = Some (Some a)} \<union> Call ` {t. fh_sp s (Call t) = Some (Some a)}"
proof (rule set_eqI)
  fix x
  show "x \<in> holders s a \<longleftrightarrow> x \<in> Fut ` {f. fh_sp s (Fut f) = Some (Some a)} \<union> Call ` {t. fh_sp s (Call t) = Some (Some a)}"
    using assms by (cases x) (auto simp: own_idle_def holders_def)
qed

lemma own_alive_iff:
  "own_inv s \<Longrightarrow> own_idle s \<Longrightarrow>
   a \<in> dom (fh_state s) \<longleftrightarrow> (\<exists>f. fh_sp s (Fut f) = Some (Some a)) \<or> (\<exists>t. fh_sp s (Call t) = Some (Some a))"
  unfolding own_invD(3) holders_idle by auto

lemma own_one_future:
  "own_inv s \<Longrightarrow> fh_sp s (Fut f) = Some (Some a) \<Longrightarrow> fh_sp s (Fut g) = Some (Some a) \<Longrightarrow> f = g"
  using own_invD(7) [of s "Fut f" a "Fut g"] by (simp add: holders_def)

lemma own_set_gone:
  assumes "own_inv s" and "fh_sp s (Call t) = None" and "fh_wp s (Some h) = Some (Some a)" and "a \<in> set (fh_destroyed s)"
  shows "own_run tr [Own_set_begin t h, Own_set_finish t v] s = Some (Inr s)"
proof -
  have "a \<notin> dom (fh_state s)"
    using own_invD(4) [OF assms(1)] assms(4) by blast
  then have "fh_count s a = 0"
    using own_invD(2,3) [OF assms(1)] by simp
  moreover have "(fh_sp s)(Call t := None) = fh_sp s"
    using assms(2) by auto
  ultimately show ?thesis
    using assms(2,3) by (simp add: own_set_begin_def wp_lock_def sp_copy_def own_set_finish_def set_value_def sp_drop_def)
qed

lemma own_dtor_last:
  assumes "own_inv s" and "own_idle s" and f: "fh_sp s (Fut f) = Some (Some a)" and tr and "\<forall>t. fh_sp s (Call t) \<noteq> Some (Some a)"
  shows "\<exists>s'. own_step tr (Own_dtor f) s = Some (Inr s') \<and> fh_destroyed s' = fh_destroyed s @ [a]"
proof -
  have "{g. fh_sp s (Fut g) = Some (Some a)} = {f}"
    using own_one_future [OF assms(1) f] f by blast
  then have "holders s a = {Fut f}"
    using assms(5) unfolding holders_idle [OF assms(2)] by simp
  then have c: "fh_count s a = 1"
    using own_invD(2) [OF assms(1)] by simp
  obtain st where "fh_state s a = Some st"
    using own_inv_alive [OF assms(1) f] by auto
  moreover have "\<exists>x. FutureState_dtor tr st = Inr x"
    using \<open>tr\<close> by (auto simp: FutureState_dtor_def split: slot.splits)
  ultimately show ?thesis
    using f c by (auto simp: own_future_dtor_def sp_drop_def)
qed

section \<open>Properties\<close>

text \<open>
  C12: the life of a future's state, in whatever order the futures and handles of any threads are made,
  moved, copied, assigned, awaited, set and destroyed. A state is alive exactly while a future or a
  running \<^verbatim>\<open>set_value\<close> holds it; at most one future does. Every state ever made is either alive or was
  destroyed exactly once. Setting a value through a handle whose state is gone changes nothing. The
  destruction of a future whose state no \<^verbatim>\<open>set_value\<close> is using destroys the state.
\<close>

theorem future_state_lifetime:
  assumes "own_reachable tr s"
  shows "(\<forall>a. a \<in> dom (fh_state s) \<longleftrightarrow> (\<exists>f. fh_sp s (Fut f) = Some (Some a)) \<or> (\<exists>t. fh_sp s (Call t) = Some (Some a))) \<and>
     (\<forall>a f g. fh_sp s (Fut f) = Some (Some a) \<longrightarrow> fh_sp s (Fut g) = Some (Some a) \<longrightarrow> f = g) \<and>
     distinct (fh_destroyed s) \<and> set (fh_destroyed s) = {..<fh_next s} - dom (fh_state s) \<and>
     (\<forall>t h v a. fh_sp s (Call t) = None \<longrightarrow> fh_wp s (Some h) = Some (Some a) \<longrightarrow> a \<in> set (fh_destroyed s) \<longrightarrow>
       own_run tr [Own_set_begin t h, Own_set_finish t v] s = Some (Inr s)) \<and>
     (\<forall>f a. fh_sp s (Fut f) = Some (Some a) \<longrightarrow> tr \<longrightarrow> (\<forall>t. fh_sp s (Call t) \<noteq> Some (Some a)) \<longrightarrow>
       (\<exists>s'. own_step tr (Own_dtor f) s = Some (Inr s') \<and> fh_destroyed s' = fh_destroyed s @ [a]))"
proof -
  have inv: "own_inv s" and idle: "own_idle s"
    using own_reachable_inv [OF assms] by simp_all
  have "set (fh_destroyed s) = {..<fh_next s} - dom (fh_state s)"
    using own_invD(4,5) [OF inv] by blast
  then show ?thesis
    using own_alive_iff [OF inv idle] own_one_future [OF inv] own_invD(6) [OF inv] own_set_gone [OF inv] own_dtor_last [OF inv idle]
    by blast
qed

theorem future_state_lifetime_witness:
  "\<exists>s. own_run True [Own_make 0 1, Own_move 2 0, Own_handle_copy 3 1, Own_dtor 2, Own_dtor 0] (future_heap_empty :: int future_heap) =
       Some (Inr s) \<and> fh_destroyed s = [0] \<and> own_run True [Own_set_begin 0 3, Own_set_finish 0 42] s = Some (Inr s)"
proof -
  obtain s where r: "own_run True [Own_make 0 1, Own_move 2 0, Own_handle_copy 3 1, Own_dtor 2, Own_dtor 0]
      (future_heap_empty :: int future_heap) = Some (Inr s)"
    "fh_destroyed s = [0]" "fh_sp s (Call 0) = None" "fh_wp s (Some 3) = Some (Some 0)"
    by (simp add: future_heap_empty_def Let_def own_make_future_def own_future_new_def sp_make_def own_handle_of_def sp_copy_def
      wp_set_def sp_drop_def own_future_move_def sp_move_def own_handle_copy_def own_handle_dtor_def own_future_dtor_def
      FutureState_new_def FutureState_dtor_def)
  from future_state_lifetime [OF own_run_reachable [OF own_reachable.start r(1)]] r show ?thesis
    by auto
qed

end
