(* ===== verification/Toad_Ring.thy ===== *)
theory Toad_Ring
  imports Toad_Prelude
begin

text \<open>
  \<^verbatim>\<open>include/concurrency/ring.hpp\<close>, a mutex around a \<^verbatim>\<open>std::deque\<close>, and the contract of a first-in
  first-out queue, which the ring and the run queue of the executor both meet. Every operation
  holds the mutex, so it is atomic.
\<close>

section \<open>The contract of a queue\<close>

datatype 'a fifo_op = Enq 'a | Deq

fun fifo_run :: "('a \<Rightarrow> 'q \<Rightarrow> 'q) \<Rightarrow> ('q \<Rightarrow> ('a \<times> 'q) option) \<Rightarrow> 'a fifo_op list \<Rightarrow> 'q \<Rightarrow> 'a list \<times> 'q" where
  "fifo_run enq deq [] q = ([], q)"
| "fifo_run enq deq (Enq x # os) q = fifo_run enq deq os (enq x q)"
| "fifo_run enq deq (Deq # os) q =
     (case deq q of
        None \<Rightarrow> fifo_run enq deq os q
      | Some (x, q') \<Rightarrow> (let (xs, q'') = fifo_run enq deq os q' in (x # xs, q'')))"

fun enqueued :: "'a fifo_op list \<Rightarrow> 'a list" where
  "enqueued [] = []"
| "enqueued (Enq x # os) = x # enqueued os"
| "enqueued (Deq # os) = enqueued os"

lemma enqueued_Enq [simp]: "enqueued (map Enq xs @ os) = xs @ enqueued os"
  by (induction xs) auto

locale fifo =
  fixes enq :: "'a \<Rightarrow> 'q \<Rightarrow> 'q"
    and deq :: "'q \<Rightarrow> ('a \<times> 'q) option"
    and contents :: "'q \<Rightarrow> 'a list"
  assumes enq_law: "contents (enq x q) = contents q @ [x]"
    and deq_None: "deq q = None \<longleftrightarrow> contents q = []"
    and deq_Some: "deq q = Some (x, q') \<Longrightarrow> contents q = x # contents q'"
begin

lemma conservation:
  "fifo_run enq deq os q = (xs, q') \<Longrightarrow> xs @ contents q' = contents q @ enqueued os"
proof (induction os arbitrary: q xs)
  case (Cons c os)
  then show ?case
    by (cases c) (auto simp: enq_law split: option.splits prod.splits dest: deq_Some)
qed simp

lemma deq_progress: "contents q = x # ys \<Longrightarrow> \<exists>q'. deq q = Some (x, q') \<and> contents q' = ys"
  using deq_None [of q] deq_Some [of q] by (cases "deq q") auto

lemma drain:
  "contents q = ys @ zs \<Longrightarrow> \<exists>q'. fifo_run enq deq (replicate (length ys) Deq) q = (ys, q') \<and> contents q' = zs"
proof (induction ys arbitrary: q)
  case (Cons y ys)
  then obtain q1 where "deq q = Some (y, q1)" "contents q1 = ys @ zs"
    using deq_progress [of q y "ys @ zs"] by auto
  with Cons.IH [of q1] show ?case by auto
qed simp

end

section \<open>Ring\<close>

record 'a Ring =
  ring_data :: "'a list"

text \<open>The capacity is ignored.\<close>

definition Ring_new :: "sz \<Rightarrow> 'a Ring" where
  "Ring_new capacity = \<lparr>ring_data = []\<rparr>"

text \<open>\<^verbatim>\<open>pop\<close> calls \<^verbatim>\<open>front\<close> without a test: on an empty deque that is undefined.\<close>

definition ring_pop :: "'a Ring \<Rightarrow> ('a \<times> 'a Ring) res" where
  "ring_pop r =
     (case ring_data r of
        [] \<Rightarrow> Inl Undefined_behaviour
      | value # rest \<Rightarrow> Inr (value, r\<lparr>ring_data := rest\<rparr>))"

definition ring_try_pop :: "'a Ring \<Rightarrow> ('a \<times> 'a Ring) option" where
  "ring_try_pop r =
     (if ring_data r = [] then None
      else Some (hd (ring_data r), r\<lparr>ring_data := tl (ring_data r)\<rparr>))"

definition ring_push :: "'a \<Rightarrow> 'a Ring \<Rightarrow> 'a Ring" where
  "ring_push value r = r\<lparr>ring_data := ring_data r @ [value]\<rparr>"

definition ring_emplace :: "'a \<Rightarrow> 'a Ring \<Rightarrow> 'a Ring" where
  "ring_emplace value r = r\<lparr>ring_data := ring_data r @ [value]\<rparr>"

definition ring_size :: "'a Ring \<Rightarrow> nat" where
  "ring_size r = length (ring_data r)"

interpretation ring: fifo ring_push ring_try_pop ring_data
  by unfold_locales (auto simp: ring_push_def ring_try_pop_def split: if_splits)

lemma ring_emplace_push: "ring_emplace = ring_push"
  by (simp add: fun_eq_iff ring_emplace_def ring_push_def)

lemma ring_pop_try_pop: "ring_pop r = (case ring_try_pop r of None \<Rightarrow> Inl Undefined_behaviour | Some x \<Rightarrow> Inr x)"
  by (simp add: ring_pop_def ring_try_pop_def split: list.splits)

section \<open>Properties\<close>

text \<open>
  The ring is a first-in first-out queue. For any sequence of \<^verbatim>\<open>push\<close> and \<^verbatim>\<open>try_pop\<close>, what was
  popped followed by what is left is what was there followed by what was pushed, so nothing is
  lost, duplicated or reordered. As many calls of \<^verbatim>\<open>try_pop\<close> as there are elements return the rest
  in order and leave the ring empty, where \<^verbatim>\<open>pop\<close> is undefined.
\<close>

theorem ring_fifo:
  assumes "fifo_run ring_push ring_try_pop os r = (xs, r')"
  shows "xs @ ring_data r' = ring_data r @ enqueued os \<and>
     ring_size r' + length xs = ring_size r + length (enqueued os) \<and>
     (\<exists>r''. fifo_run ring_push ring_try_pop (replicate (ring_size r') Deq) r' = (ring_data r', r'') \<and>
        ring_pop r'' = Inl Undefined_behaviour)"
proof -
  have eq: "xs @ ring_data r' = ring_data r @ enqueued os"
    using assms by (rule ring.conservation)
  have "ring_size r' + length xs = ring_size r + length (enqueued os)"
    using arg_cong [OF eq, of length] by (simp add: ring_size_def)
  moreover obtain r'' where "fifo_run ring_push ring_try_pop (replicate (ring_size r') Deq) r' = (ring_data r', r'')" "ring_data r'' = []"
    using ring.drain [of r' "ring_data r'" "[]"] by (auto simp: ring_size_def)
  ultimately show ?thesis
    using eq by (auto simp: ring_pop_def)
qed

theorem ring_fifo_witness:
  "\<exists>r'. fifo_run ring_push ring_try_pop [Enq (1 :: nat), Enq 2, Deq] (Ring_new 4) = ([1], r') \<and> ring_data r' = [2]"
proof -
  obtain r' where r: "fifo_run ring_push ring_try_pop [Enq (1 :: nat), Enq 2, Deq] (Ring_new 4) = ([1], r')"
    by (simp add: Ring_new_def ring_push_def ring_try_pop_def)
  from ring_fifo [OF this] show ?thesis using r by (simp add: Ring_new_def)
qed

end
