(* ===== verification/Toad_Executor.thy ===== *)
theory Toad_Executor
  imports Toad_Ring
begin

text \<open>
  \<^verbatim>\<open>include/concurrency/task.hpp\<close> and \<^verbatim>\<open>include/concurrency/executor.hpp\<close>. A coroutine is known by the address of
  its frame, a number; the frames are an explicit store, and using a frame that was destroyed,
  or asking a running coroutine whether it is done, is undefined. The bodies of coroutines are
  not modelled: a resumed coroutine may suspend or finish, and any thread that holds the handle
  of a suspended coroutine may spawn it.
\<close>

section \<open>Task\<close>

datatype coro_status = At_suspension | Running | Final | Freed

record frame =
  cf_status :: coro_status
  cf_corr_id :: u64
  cf_parent_corr_id :: u64

type_synonym frames = "nat \<Rightarrow> frame"

text \<open>\<^verbatim>\<open>std::coroutine_handle::done\<close>, \<^verbatim>\<open>resume\<close> up to the transfer of control, and \<^verbatim>\<open>destroy\<close>.\<close>

definition coro_done :: "frames \<Rightarrow> nat \<Rightarrow> bool res" where
  "coro_done fs h =
     (case cf_status (fs h) of
        At_suspension \<Rightarrow> Inr False | Final \<Rightarrow> Inr True | _ \<Rightarrow> Inl Undefined_behaviour)"

definition coro_start :: "frames \<Rightarrow> nat \<Rightarrow> frames res" where
  "coro_start fs h =
     (if cf_status (fs h) = At_suspension then Inr (fs(h := (fs h)\<lparr>cf_status := Running\<rparr>)) else Inl Undefined_behaviour)"

definition coro_destroy :: "frames \<Rightarrow> nat \<Rightarrow> frames res" where
  "coro_destroy fs h =
     (if cf_status (fs h) = At_suspension \<or> cf_status (fs h) = Final
      then Inr (fs(h := (fs h)\<lparr>cf_status := Freed\<rparr>)) else Inl Undefined_behaviour)"

text \<open>A \<^verbatim>\<open>Task\<close> owns at most one frame. Moves, \<^verbatim>\<open>leak\<close> and the destructor.\<close>

type_synonym Task = "nat option"

definition Task_move :: "Task \<Rightarrow> Task \<times> Task" where
  "Task_move other = (other, None)"

definition Task_dtor :: "frames \<Rightarrow> Task \<Rightarrow> frames res" where
  "Task_dtor fs task = (case task of None \<Rightarrow> Inr fs | Some h \<Rightarrow> coro_destroy fs h)"

definition Task_move_assign :: "frames \<Rightarrow> bool \<Rightarrow> Task \<Rightarrow> Task \<Rightarrow> (frames \<times> Task \<times> Task) res" where
  "Task_move_assign fs self_assign this other =
     (if self_assign then Inr (fs, this, this)
      else rbind (case this of None \<Rightarrow> Inr fs | Some h \<Rightarrow> coro_destroy fs h) (\<lambda>fs. Inr (fs, other, None)))"

definition Task_leak :: "Task \<Rightarrow> Task" where
  "Task_leak task = None"

definition set_parent_corr_id :: "frames \<Rightarrow> nat \<Rightarrow> u64 \<Rightarrow> frames res" where
  "set_parent_corr_id fs h i =
     (if cf_status (fs h) = Freed then Inl Undefined_behaviour
      else Inr (fs(h := (fs h)\<lparr>cf_parent_corr_id := i\<rparr>)))"

section \<open>Executor\<close>

text \<open>
  Where a worker thread stands in its loop: waiting on the condition variable, with a task taken
  from the queue, inside the body of the coroutine it resumed, back from the resume and about to
  ask whether the task is done, and after the loop.
\<close>

datatype worker_pc = Waiting | Taken nat | In_body nat | Resume_returned nat | Exited

record Executor =
  ex_queue :: "nat list"
  ex_is_done :: bool
  ex_frames :: frames
  ex_worker :: "nat \<Rightarrow> worker_pc"
  ex_corr :: "nat \<Rightarrow> u64"
  ex_parent_corr :: "nat \<Rightarrow> u64"

definition Executor_new :: "frames \<Rightarrow> Executor" where
  "Executor_new fs = \<lparr>ex_queue = [], ex_is_done = False, ex_frames = fs, ex_worker = (\<lambda>_. Waiting),
     ex_corr = (\<lambda>_. 0), ex_parent_corr = (\<lambda>_. 0)\<rparr>"

definition queue_push :: "nat \<Rightarrow> nat list \<Rightarrow> nat list" where
  "queue_push h q = q @ [h]"

definition queue_pop :: "nat list \<Rightarrow> (nat \<times> nat list) option" where
  "queue_pop q = (case q of [] \<Rightarrow> None | h # rest \<Rightarrow> Some (h, rest))"

text \<open>
  \<^verbatim>\<open>Executor::spawn\<close> on thread \<open>t\<close>. A task that is already done is not queued, and the parameter that owns
  it is destroyed on return.
\<close>

definition executor_spawn :: "nat \<Rightarrow> nat \<Rightarrow> Executor \<Rightarrow> Executor res" where
  "executor_spawn t h s =
     rbind (set_parent_corr_id (ex_frames s) h (ex_corr s t)) (\<lambda>fs.
     rbind (coro_done fs h) (\<lambda>d.
     if d then rbind (Task_dtor fs (Some h)) (\<lambda>fs. Inr (s\<lparr>ex_frames := fs\<rparr>))
     else Inr (s\<lparr>ex_frames := fs, ex_queue := queue_push h (ex_queue s)\<rparr>)))"

definition set_worker :: "nat \<Rightarrow> worker_pc \<Rightarrow> Executor \<Rightarrow> Executor" where
  "set_worker n pc s = s\<lparr>ex_worker := (ex_worker s)(n := pc)\<rparr>"

definition set_corr :: "nat \<Rightarrow> u64 \<Rightarrow> u64 \<Rightarrow> Executor \<Rightarrow> Executor" where
  "set_corr n c p s = s\<lparr>ex_corr := (ex_corr s)(n := c), ex_parent_corr := (ex_parent_corr s)(n := p)\<rparr>"

text \<open>
  \<^verbatim>\<open>worker_thread\<close>, cut where other threads can interleave: the critical section that leaves the
  loop or takes a task; the start of the task; the end of the iteration, where the destructor
  of the local \<^verbatim>\<open>Task\<close> runs unless it was leaked.
\<close>

definition worker_take :: "nat \<Rightarrow> Executor \<Rightarrow> Executor option" where
  "worker_take n s =
     (if ex_worker s n = Waiting \<and> (ex_is_done s \<or> ex_queue s \<noteq> []) then
        (case queue_pop (ex_queue s) of
           None \<Rightarrow> Some (set_worker n Exited s)
         | Some (h, q) \<Rightarrow> Some (set_worker n (Taken h) (s\<lparr>ex_queue := q\<rparr>)))
      else None)"

definition worker_end :: "nat \<Rightarrow> Task \<Rightarrow> Executor \<Rightarrow> Executor res" where
  "worker_end n task s =
     (let s = set_corr n 0 0 s
      in rbind (Task_dtor (ex_frames s) task) (\<lambda>fs. Inr (set_worker n Waiting (s\<lparr>ex_frames := fs\<rparr>))))"

definition worker_begin :: "nat \<Rightarrow> Executor \<Rightarrow> Executor res option" where
  "worker_begin n s =
     (case ex_worker s n of
        Taken h \<Rightarrow> Some (
          if cf_status (ex_frames s h) = Freed then Inl Undefined_behaviour
          else
            let s = set_corr n (cf_corr_id (ex_frames s h)) (cf_parent_corr_id (ex_frames s h)) s in
            rbind (coro_done (ex_frames s) h) (\<lambda>d.
            if d then worker_end n (Some h) s
            else rbind (coro_start (ex_frames s) h) (\<lambda>fs. Inr (set_worker n (In_body h) (s\<lparr>ex_frames := fs\<rparr>)))))
      | _ \<Rightarrow> None)"

definition worker_check :: "nat \<Rightarrow> Executor \<Rightarrow> Executor res option" where
  "worker_check n s =
     (case ex_worker s n of
        Resume_returned h \<Rightarrow> Some (
          rbind (coro_done (ex_frames s) h) (\<lambda>d.
          worker_end n (if \<not> d then Task_leak (Some h) else Some h) s))
      | _ \<Rightarrow> None)"

text \<open>The destructor sets the flag under the lock; the workers leave their loops by \<open>worker_take\<close>.\<close>

definition executor_shutdown :: "Executor \<Rightarrow> Executor" where
  "executor_shutdown s = s\<lparr>ex_is_done := True\<rparr>"

text \<open>What the running coroutine does: reach a suspension point, or its end.\<close>

definition body_returns :: "coro_status \<Rightarrow> nat \<Rightarrow> Executor \<Rightarrow> Executor option" where
  "body_returns st n s =
     (case ex_worker s n of
        In_body h \<Rightarrow>
          Some (set_worker n (Resume_returned h) (s\<lparr>ex_frames := (ex_frames s)(h := (ex_frames s h)\<lparr>cf_status := st\<rparr>)\<rparr>))
      | _ \<Rightarrow> None)"

text \<open>The caller of \<^verbatim>\<open>spawn\<close> holds the only handle: the coroutine is neither queued nor already taken.\<close>

definition spawnable :: "Executor \<Rightarrow> nat \<Rightarrow> bool" where
  "spawnable s h \<longleftrightarrow> cf_status (ex_frames s h) = At_suspension \<and> h \<notin> set (ex_queue s) \<and> (\<forall>n. ex_worker s n \<noteq> Taken h)"

datatype executor_event = Spawn nat nat | Take nat | Begin nat | Body_suspends nat | Body_finishes nat | Check_done nat
  | Shutdown

inductive executor_step :: "Executor \<Rightarrow> executor_event \<Rightarrow> Executor res \<Rightarrow> bool" where
  spawn: "spawnable s h \<Longrightarrow> executor_step s (Spawn t h) (executor_spawn t h s)"
| take: "worker_take n s = Some s' \<Longrightarrow> executor_step s (Take n) (Inr s')"
| beg: "worker_begin n s = Some r \<Longrightarrow> executor_step s (Begin n) r"
| suspends: "body_returns At_suspension n s = Some s' \<Longrightarrow> executor_step s (Body_suspends n) (Inr s')"
| finishes: "body_returns Final n s = Some s' \<Longrightarrow> executor_step s (Body_finishes n) (Inr s')"
| check: "worker_check n s = Some r \<Longrightarrow> executor_step s (Check_done n) r"
| shutdown: "executor_step s Shutdown (Inr (executor_shutdown s))"

inductive_simps executor_step_simps [simp]:
  "executor_step s (Spawn t h) r" "executor_step s (Take n) r" "executor_step s (Begin n) r"
  "executor_step s (Body_suspends n) r" "executor_step s (Body_finishes n) r" "executor_step s (Check_done n) r"
  "executor_step s Shutdown r"

inductive executor_run :: "Executor \<Rightarrow> executor_event list \<Rightarrow> Executor res \<Rightarrow> bool" where
  nil: "executor_run s [] (Inr s)"
| cons: "executor_step s e (Inr s') \<Longrightarrow> executor_run s' es r \<Longrightarrow> executor_run s (e # es) r"
| fault: "executor_step s e (Inl f) \<Longrightarrow> executor_run s (e # es) (Inl f)"

inductive_cases executor_run_ConsE: "executor_run s (e # es) r"

text \<open>The same steps as a function, to evaluate concrete runs.\<close>

fun executor_next :: "executor_event \<Rightarrow> Executor \<Rightarrow> Executor res option" where
  "executor_next (Spawn t h) s = (if spawnable s h then Some (executor_spawn t h s) else None)"
| "executor_next (Take n) s = map_option Inr (worker_take n s)"
| "executor_next (Begin n) s = worker_begin n s"
| "executor_next (Body_suspends n) s = map_option Inr (body_returns At_suspension n s)"
| "executor_next (Body_finishes n) s = map_option Inr (body_returns Final n s)"
| "executor_next (Check_done n) s = worker_check n s"
| "executor_next Shutdown s = Some (Inr (executor_shutdown s))"

lemma executor_next_iff: "executor_step s e r \<longleftrightarrow> executor_next e s = Some r"
  by (cases e) auto

fun executor_exec :: "executor_event list \<Rightarrow> Executor \<Rightarrow> Executor res option" where
  "executor_exec [] s = Some (Inr s)"
| "executor_exec (e # es) s =
     (case executor_next e s of
        None \<Rightarrow> None
      | Some (Inl f) \<Rightarrow> Some (Inl f)
      | Some (Inr s') \<Rightarrow> executor_exec es s')"

lemma executor_exec_run: "executor_exec es s = Some r \<Longrightarrow> executor_run s es r"
proof (induction es arbitrary: s)
  case (Cons e es)
  then show ?case
    by (auto simp del: executor_step_simps executor_next.simps split: option.splits sum.splits
        intro: executor_run.intros simp: executor_next_iff)
qed (auto intro: executor_run.nil)

text \<open>All frames of a fresh executor stand at their initial suspension.\<close>

definition frames_new :: "(nat \<Rightarrow> u64) \<Rightarrow> frames" where
  "frames_new ids = (\<lambda>h. \<lparr>cf_status = At_suspension, cf_corr_id = ids h, cf_parent_corr_id = 0\<rparr>)"

section \<open>Who owns a coroutine\<close>

definition executor_inv :: "Executor \<Rightarrow> bool" where
  "executor_inv s \<longleftrightarrow>
     distinct (ex_queue s) \<and>
     (\<forall>h. h \<in> set (ex_queue s) \<longrightarrow> cf_status (ex_frames s h) = At_suspension) \<and>
     (\<forall>n h. ex_worker s n = Taken h \<longrightarrow> cf_status (ex_frames s h) = At_suspension \<and> h \<notin> set (ex_queue s)) \<and>
     (\<forall>n k h. ex_worker s n = Taken h \<longrightarrow> ex_worker s k = Taken h \<longrightarrow> n = k) \<and>
     (\<forall>n h. ex_worker s n = In_body h \<longrightarrow> cf_status (ex_frames s h) = Running \<and> ex_corr s n = cf_corr_id (ex_frames s h)) \<and>
     (\<forall>n k h. ex_worker s n = In_body h \<longrightarrow> ex_worker s k = In_body h \<longrightarrow> n = k)"

lemma executor_invD:
  assumes "executor_inv s"
  shows "distinct (ex_queue s)" "h \<in> set (ex_queue s) \<Longrightarrow> cf_status (ex_frames s h) = At_suspension"
    and "ex_worker s n = Taken h \<Longrightarrow> cf_status (ex_frames s h) = At_suspension \<and> h \<notin> set (ex_queue s)"
    and "ex_worker s n = Taken h \<Longrightarrow> ex_worker s k = Taken h \<Longrightarrow> n = k"
    and "ex_worker s n = In_body h \<Longrightarrow> cf_status (ex_frames s h) = Running \<and> ex_corr s n = cf_corr_id (ex_frames s h)"
    and "ex_worker s n = In_body h \<Longrightarrow> ex_worker s k = In_body h \<Longrightarrow> n = k"
  using assms by (auto simp: executor_inv_def)

lemma executor_invI:
  assumes "distinct (ex_queue s)" and "\<And>h. h \<in> set (ex_queue s) \<Longrightarrow> cf_status (ex_frames s h) = At_suspension"
    and "\<And>n h. ex_worker s n = Taken h \<Longrightarrow> cf_status (ex_frames s h) = At_suspension \<and> h \<notin> set (ex_queue s)"
    and "\<And>n k h. ex_worker s n = Taken h \<Longrightarrow> ex_worker s k = Taken h \<Longrightarrow> n = k"
    and "\<And>n h. ex_worker s n = In_body h \<Longrightarrow> cf_status (ex_frames s h) = Running \<and> ex_corr s n = cf_corr_id (ex_frames s h)"
    and "\<And>n k h. ex_worker s n = In_body h \<Longrightarrow> ex_worker s k = In_body h \<Longrightarrow> n = k"
  shows "executor_inv s"
  using assms unfolding executor_inv_def by blast

lemma executor_inv_new: "executor_inv (Executor_new fs)"
  by (simp add: executor_inv_def Executor_new_def)

text \<open>
  \<^verbatim>\<open>co_await suspend(times)\<close> in the coroutine that worker \<open>n\<close> runs. The coroutine is suspended when
  \<^verbatim>\<open>await_suspend\<close> decrements the counter and spawns it. Nothing reads the counter afterwards. A
  decrement that overflows is undefined.
\<close>

definition suspend_await_ready :: "int \<Rightarrow> bool" where
  "suspend_await_ready n_times \<longleftrightarrow> n_times = 0"

definition suspend_await_suspend :: "nat \<Rightarrow> nat \<Rightarrow> int \<Rightarrow> Executor \<Rightarrow> (int \<times> Executor) res" where
  "suspend_await_suspend n h n_times s =
     (if n_times = - (2 ^ 31) then Inl Undefined_behaviour
      else rbind (executor_spawn n h s) (\<lambda>s. Inr (n_times - 1, s)))"

definition co_await_suspend :: "nat \<Rightarrow> int \<Rightarrow> Executor \<Rightarrow> Executor res option" where
  "co_await_suspend n n_times s =
     (case ex_worker s n of
        In_body h \<Rightarrow>
          if suspend_await_ready n_times then Some (Inr s)
          else map_option (\<lambda>s. rbind (suspend_await_suspend n h n_times s) (\<lambda>(n_times, s). Inr s)) (body_returns At_suspension n s)
      | _ \<Rightarrow> None)"

lemmas coro_defs = coro_done_def coro_start_def coro_destroy_def Task_dtor_def Task_leak_def set_parent_corr_id_def

lemmas executor_run_defs = coro_defs worker_take_def worker_begin_def worker_check_def worker_end_def body_returns_def
  set_worker_def set_corr_def queue_push_def queue_pop_def executor_shutdown_def Let_def

lemma executor_inv_spawn:
  assumes "executor_inv s" and "spawnable s h" and "executor_spawn t h s = Inr s'"
  shows "executor_inv s'"
proof -
  have "s' = s\<lparr>ex_frames := (ex_frames s)(h := (ex_frames s h)\<lparr>cf_parent_corr_id := ex_corr s t\<rparr>), ex_queue := ex_queue s @ [h]\<rparr>"
    using assms(2,3) by (simp add: executor_spawn_def spawnable_def coro_defs queue_push_def)
  with assms(1,2) show ?thesis
    by (auto simp: executor_inv_def spawnable_def)
qed

lemma executor_inv_take:
  assumes inv: "executor_inv s" and "worker_take n s = Some s'"
  shows "executor_inv s'"
proof (cases "ex_queue s")
  case Nil
  with assms show ?thesis
    by (auto simp: worker_take_def queue_pop_def set_worker_def executor_inv_def split: if_splits)
next
  case (Cons h q)
  with assms(2) have "s' = s\<lparr>ex_worker := (ex_worker s)(n := Taken h), ex_queue := q\<rparr>"
    by (auto simp: worker_take_def queue_pop_def set_worker_def split: if_splits)
  moreover have "h \<notin> set q" "distinct q" "cf_status (ex_frames s h) = At_suspension" "\<And>k. ex_worker s k \<noteq> Taken h"
    using executor_invD(1-3) [OF inv] Cons by fastforce+
  ultimately show ?thesis
    using inv Cons by (auto simp: executor_inv_def)
qed

lemma worker_begin_inv:
  assumes inv: "executor_inv s" and "worker_begin n s = Some r"
  shows "\<exists>h s'. ex_worker s n = Taken h \<and> r = Inr s' \<and> executor_inv s' \<and>
     s' = s\<lparr>ex_corr := (ex_corr s)(n := cf_corr_id (ex_frames s h)),
       ex_parent_corr := (ex_parent_corr s)(n := cf_parent_corr_id (ex_frames s h)),
       ex_frames := (ex_frames s)(h := (ex_frames s h)\<lparr>cf_status := Running\<rparr>), ex_worker := (ex_worker s)(n := In_body h)\<rparr>"
proof -
  obtain h where h: "ex_worker s n = Taken h"
    using assms(2) by (auto simp: worker_begin_def split: worker_pc.splits)
  have st: "cf_status (ex_frames s h) = At_suspension" "h \<notin> set (ex_queue s)"
    using executor_invD(3) [OF inv h] by auto
  have only: "ex_worker s k = Taken h \<Longrightarrow> k = n" "ex_worker s k \<noteq> In_body h" for k
    using executor_invD(4) [OF inv h, of k] executor_invD(5) [OF inv, of k h] st(1) by auto
  let ?s = "s\<lparr>ex_corr := (ex_corr s)(n := cf_corr_id (ex_frames s h)),
       ex_parent_corr := (ex_parent_corr s)(n := cf_parent_corr_id (ex_frames s h)),
       ex_frames := (ex_frames s)(h := (ex_frames s h)\<lparr>cf_status := Running\<rparr>), ex_worker := (ex_worker s)(n := In_body h)\<rparr>"
  have "r = Inr ?s"
    using assms(2) h st(1) by (simp add: worker_begin_def coro_defs set_corr_def set_worker_def Let_def)
  moreover have "executor_inv ?s"
    using inv only st(2) by (auto simp: executor_inv_def)
  ultimately show ?thesis using h by blast
qed

lemma executor_inv_body:
  assumes inv: "executor_inv s" and "body_returns st n s = Some s'" and "st = At_suspension \<or> st = Final"
  shows "executor_inv s'"
proof -
  obtain h where h: "ex_worker s n = In_body h"
    using assms(2) by (auto simp: body_returns_def split: worker_pc.splits)
  have "cf_status (ex_frames s h) = Running" and "\<And>k. ex_worker s k = In_body h \<Longrightarrow> k = n"
    using executor_invD(5,6) [OF inv h] by auto
  then have own: "h \<notin> set (ex_queue s)" "\<And>k. ex_worker s k \<noteq> Taken h" "\<And>k. k \<noteq> n \<Longrightarrow> ex_worker s k \<noteq> In_body h"
    using executor_invD(2) [OF inv, of h] executor_invD(3) [OF inv, of _ h] by auto
  have s': "s' = s\<lparr>ex_frames := (ex_frames s)(h := (ex_frames s h)\<lparr>cf_status := st\<rparr>),
      ex_worker := (ex_worker s)(n := Resume_returned h)\<rparr>"
    using assms(2) h by (simp add: body_returns_def set_worker_def)
  show ?thesis
    unfolding s' by (rule executor_invI) (use own executor_invD [OF inv] in \<open>auto split: if_splits\<close>)
qed

lemma executor_inv_check:
  assumes inv: "executor_inv s" and "worker_check n s = Some (Inr s')"
  shows "executor_inv s'"
proof -
  obtain h where h: "ex_worker s n = Resume_returned h"
    using assms(2) by (auto simp: worker_check_def split: worker_pc.splits)
  then have "cf_status (ex_frames s h) = At_suspension \<and>
       s' = set_worker n Waiting (set_corr n 0 0 s) \<or>
     cf_status (ex_frames s h) = Final \<and>
       s' = set_worker n Waiting (set_corr n 0 0 s)\<lparr>ex_frames := (ex_frames s)(h := (ex_frames s h)\<lparr>cf_status := Freed\<rparr>)\<rparr>"
    using assms(2)
    by (auto simp: worker_check_def worker_end_def coro_defs set_corr_def set_worker_def Let_def split: coro_status.splits)
  then obtain fs where s': "s' = s\<lparr>ex_corr := (ex_corr s)(n := 0), ex_parent_corr := (ex_parent_corr s)(n := 0),
      ex_worker := (ex_worker s)(n := Waiting), ex_frames := fs\<rparr>"
    and fs: "fs = ex_frames s \<or> cf_status (ex_frames s h) = Final \<and> fs = (ex_frames s)(h := (ex_frames s h)\<lparr>cf_status := Freed\<rparr>)"
    by (auto simp: set_corr_def set_worker_def)
  have same: "cf_corr_id (fs g) = cf_corr_id (ex_frames s g)"
    "cf_status (ex_frames s g) = At_suspension \<or> cf_status (ex_frames s g) = Running \<Longrightarrow> cf_status (fs g) = cf_status (ex_frames s g)" for g
    using fs by auto
  show ?thesis
    unfolding s' by (rule executor_invI) (use same executor_invD [OF inv] in \<open>auto split: if_splits\<close>)
qed

lemma executor_step_inv:
  assumes "executor_inv s" and "executor_step s e (Inr s')"
  shows "executor_inv s'"
proof (cases e)
  case (Spawn t h)
  with assms show ?thesis by (auto dest: executor_inv_spawn [OF assms(1)] sym)
next
  case (Take n)
  with assms show ?thesis by (auto dest: executor_inv_take)
next
  case (Begin n)
  with assms worker_begin_inv [OF assms(1), of n "Inr s'"] show ?thesis by auto
next
  case (Body_suspends n)
  with assms show ?thesis by (auto dest: executor_inv_body)
next
  case (Body_finishes n)
  with assms show ?thesis by (auto dest: executor_inv_body)
next
  case (Check_done n)
  with assms show ?thesis by (auto dest: executor_inv_check)
next
  case Shutdown
  with assms show ?thesis by (auto simp: executor_inv_def executor_shutdown_def)
qed

lemma executor_run_inv:
  "executor_run s es r \<Longrightarrow> executor_inv s \<Longrightarrow> r = Inr s' \<Longrightarrow> executor_inv s'"
  by (induction rule: executor_run.induct) (auto dest: executor_step_inv)

section \<open>The run queue\<close>

interpretation runq: fifo queue_push queue_pop "\<lambda>q. q"
  by unfold_locales (auto simp: queue_push_def queue_pop_def split: list.splits)

text \<open>The tasks spawned and taken by a sequence of events, in order.\<close>

fun spawns :: "executor_event list \<Rightarrow> nat list" where
  "spawns [] = []"
| "spawns (Spawn t h # es) = h # spawns es"
| "spawns (_ # es) = spawns es"

fun taken_by :: "executor_event \<Rightarrow> Executor \<Rightarrow> nat list" where
  "taken_by (Take n) s = (case queue_pop (ex_queue s) of None \<Rightarrow> [] | Some (h, q) \<Rightarrow> [h])"
| "taken_by _ s = []"

inductive executor_trace :: "Executor \<Rightarrow> executor_event list \<Rightarrow> nat list \<Rightarrow> Executor \<Rightarrow> bool" where
  nil: "executor_trace s [] [] s"
| cons: "executor_step s e (Inr s') \<Longrightarrow> executor_trace s' es ts s'' \<Longrightarrow> executor_trace s (e # es) (taken_by e s @ ts) s''"

lemma executor_step_queue:
  assumes "executor_step s e (Inr s')"
  shows "\<exists>os. enqueued os = spawns [e] \<and> fifo_run queue_push queue_pop os (ex_queue s) = (taken_by e s, ex_queue s')"
proof (cases e)
  case (Spawn t h)
  then have "ex_queue s' = queue_push h (ex_queue s)"
    using assms by (auto simp: executor_spawn_def spawnable_def coro_defs dest: sym)
  then show ?thesis
    using Spawn by (intro exI [of _ "[Enq h]"]) simp
next
  case (Take n)
  then show ?thesis
    using assms by (intro exI [of _ "[Deq]"]) (auto simp: worker_take_def set_worker_def split: if_splits option.splits)
next
  case (Begin n)
  then have "ex_queue s' = ex_queue s"
    using assms
    by (auto simp: worker_begin_def worker_end_def set_corr_def set_worker_def coro_defs Let_def rbind_eq_Inr
        split: worker_pc.splits if_splits coro_status.splits)
  then show ?thesis
    using Begin by (intro exI [of _ "[]"]) simp
next
  case (Check_done n)
  then have "ex_queue s' = ex_queue s"
    using assms
    by (auto simp: worker_check_def worker_end_def set_corr_def set_worker_def coro_defs Let_def rbind_eq_Inr
        split: worker_pc.splits if_splits coro_status.splits)
  then show ?thesis
    using Check_done by (intro exI [of _ "[]"]) simp
qed (use assms in \<open>auto simp: body_returns_def set_worker_def executor_shutdown_def intro!: exI [of _ "[]"] split: worker_pc.splits\<close>)

lemma fifo_run_append:
  "fifo_run enq deq (os @ os') q =
     (let (xs, q1) = fifo_run enq deq os q; (ys, q2) = fifo_run enq deq os' q1 in (xs @ ys, q2))"
proof (induction os arbitrary: q)
  case (Cons c os)
  then show ?case by (cases c) (auto split: option.splits prod.splits)
qed simp

lemma enqueued_append [simp]: "enqueued (os @ os') = enqueued os @ enqueued os'"
  by (induction os rule: enqueued.induct) simp_all

lemma spawns_Cons: "spawns (e # es) = spawns [e] @ spawns es"
  by (cases e) simp_all

lemma executor_trace_fifo:
  "executor_trace s es ts s' \<Longrightarrow>
     \<exists>os. enqueued os = spawns es \<and> fifo_run queue_push queue_pop os (ex_queue s) = (ts, ex_queue s')"
proof (induction rule: executor_trace.induct)
  case (nil s)
  show ?case by (intro exI [of _ "[]"]) simp
next
  case (cons s e s' es ts s'')
  from executor_step_queue [OF cons.hyps(1)] cons.IH obtain os1 os2 where
    "enqueued os1 = spawns [e]" "fifo_run queue_push queue_pop os1 (ex_queue s) = (taken_by e s, ex_queue s')"
    "enqueued os2 = spawns es" "fifo_run queue_push queue_pop os2 (ex_queue s') = (ts, ex_queue s'')"
    by blast
  then show ?case
    by (intro exI [of _ "os1 @ os2"]) (simp add: fifo_run_append spawns_Cons [of e es])
qed

section \<open>One worker\<close>

fun worker_zero :: "executor_event \<Rightarrow> bool" where
  "worker_zero (Take n) = (n = 0)"
| "worker_zero (Begin n) = (n = 0)"
| "worker_zero (Body_suspends n) = (n = 0)"
| "worker_zero (Body_finishes n) = (n = 0)"
| "worker_zero (Check_done n) = (n = 0)"
| "worker_zero _ = True"

definition single_inv :: "Executor \<Rightarrow> bool" where
  "single_inv s \<longleftrightarrow> executor_inv s \<and>
     (\<forall>h. ex_worker s 0 = Resume_returned h \<longrightarrow> cf_status (ex_frames s h) = At_suspension \<or> cf_status (ex_frames s h) = Final)"

lemma single_step:
  assumes "single_inv s" and "executor_step s e r" and "worker_zero e"
  shows "\<exists>s'. r = Inr s' \<and> single_inv s'"
proof -
  have inv: "executor_inv s"
    and ret: "ex_worker s 0 = Resume_returned h \<Longrightarrow> cf_status (ex_frames s h) = At_suspension \<or> cf_status (ex_frames s h) = Final" for h
    using assms(1) by (auto simp: single_inv_def)
  have "\<exists>s'. r = Inr s' \<and> (\<forall>h. ex_worker s' 0 = Resume_returned h \<longrightarrow>
      cf_status (ex_frames s' h) = At_suspension \<or> cf_status (ex_frames s' h) = Final)"
  proof (cases e)
    case (Spawn t h)
    with assms(2) ret show ?thesis
      by (auto simp: executor_spawn_def spawnable_def coro_defs)
  next
    case (Take n)
    with assms(2) ret show ?thesis
      by (auto simp: worker_take_def set_worker_def split: if_splits option.splits)
  next
    case (Begin n)
    with assms(2,3) worker_begin_inv [OF inv, of n r] show ?thesis by auto
  next
    case (Check_done n)
    with assms(2,3) ret show ?thesis
      by (auto simp: worker_check_def worker_end_def coro_defs set_corr_def set_worker_def Let_def split: worker_pc.splits)
  qed (use assms(2,3) ret in \<open>auto simp: body_returns_def set_worker_def executor_shutdown_def split: worker_pc.splits\<close>)
  then obtain s' where "r = Inr s'" "\<forall>h. ex_worker s' 0 = Resume_returned h \<longrightarrow>
      cf_status (ex_frames s' h) = At_suspension \<or> cf_status (ex_frames s' h) = Final" by blast
  moreover from this have "executor_inv s'"
    using executor_step_inv [OF inv] assms(2) by blast
  ultimately show ?thesis by (simp add: single_inv_def)
qed

lemma single_run:
  "executor_run s es r \<Longrightarrow> single_inv s \<Longrightarrow> (\<And>e. e \<in> set es \<Longrightarrow> worker_zero e) \<Longrightarrow> \<exists>s'. r = Inr s'"
proof (induction rule: executor_run.induct)
  case (cons s e s' es r)
  then show ?case using single_step [of s e "Inr s'"] by auto
next
  case (fault s e f es)
  then show ?case using single_step [of s e "Inl f"] by auto
qed simp

section \<open>Shutdown\<close>

definition drain_events :: "nat \<Rightarrow> nat \<Rightarrow> executor_event list" where
  "drain_events n k = concat (replicate k [Take n, Begin n, Body_finishes n, Check_done n]) @ [Take n]"

lemma drain_run:
  assumes "ex_is_done s" and "ex_worker s n = Waiting" and "ex_queue s = hs" and "distinct hs"
    and "\<And>h. h \<in> set hs \<Longrightarrow> cf_status (ex_frames s h) = At_suspension"
  shows "\<exists>s'. executor_exec (drain_events n (length hs)) s = Some (Inr s') \<and> ex_queue s' = [] \<and> ex_worker s' n = Exited \<and>
     (\<forall>h. cf_status (ex_frames s' h) = (if h \<in> set hs then Freed else cf_status (ex_frames s h)))"
  using assms
proof (induction hs arbitrary: s)
  case Nil
  then show ?case
    by (simp add: drain_events_def executor_run_defs)
next
  case (Cons h hs)
  let ?t = "s\<lparr>ex_queue := hs, ex_corr := (ex_corr s)(n := 0), ex_parent_corr := (ex_parent_corr s)(n := 0),
      ex_frames := (ex_frames s)(h := (ex_frames s h)\<lparr>cf_status := Freed\<rparr>), ex_worker := (ex_worker s)(n := Waiting)\<rparr>"
  have "executor_exec (drain_events n (length (h # hs))) s = executor_exec (drain_events n (length hs)) ?t"
    using Cons.prems by (simp add: drain_events_def executor_run_defs)
  moreover have "\<exists>s'. executor_exec (drain_events n (length hs)) ?t = Some (Inr s') \<and> ex_queue s' = [] \<and> ex_worker s' n = Exited \<and>
     (\<forall>g. cf_status (ex_frames s' g) = (if g \<in> set hs then Freed else cf_status (ex_frames ?t g)))"
    using Cons.prems by (intro Cons.IH) auto
  then obtain s' where s': "executor_exec (drain_events n (length hs)) ?t = Some (Inr s')" "ex_queue s' = []"
      "ex_worker s' n = Exited" "\<forall>g. cf_status (ex_frames s' g) = (if g \<in> set hs then Freed else cf_status (ex_frames ?t g))"
    by blast
  moreover have "cf_status (ex_frames s' g) = (if g \<in> set (h # hs) then Freed else cf_status (ex_frames s g))" for g
    using s'(4) by simp
  ultimately show ?case by auto
qed

section \<open>Properties\<close>



text \<open>
  C19: tasks are taken in the order in which they were spawned. For any interleaving of any number
  of workers and spawning threads, the tasks taken so far followed by the queue are the initial
  queue followed by the tasks spawned so far: none is lost, duplicated or overtaken.
\<close>

theorem executor_fifo:
  assumes "executor_trace s es ts s'"
  shows "ts @ ex_queue s' = ex_queue s @ spawns es"
proof -
  obtain os where "enqueued os = spawns es" "fifo_run queue_push queue_pop os (ex_queue s) = (ts, ex_queue s')"
    using executor_trace_fifo [OF assms] by blast
  with runq.conservation [OF this(2)] show ?thesis by simp
qed

theorem executor_fifo_witness:
  "\<exists>ts s. executor_trace (Executor_new (frames_new (\<lambda>_. 0))) [Spawn 9 4] ts s \<and> ts @ ex_queue s = [4]"
proof -
  obtain s where s: "executor_step (Executor_new (frames_new (\<lambda>_. 0))) (Spawn 9 4) (Inr s)"
    by (simp add: executor_run_defs Executor_new_def frames_new_def spawnable_def executor_spawn_def)
  from executor_trace.cons [OF s executor_trace.nil]
  have "executor_trace (Executor_new (frames_new (\<lambda>_. 0))) [Spawn 9 4] [] s" by simp
  moreover from executor_fifo [OF this] have "[] @ ex_queue s = [4]"
    by (simp add: Executor_new_def)
  ultimately show ?thesis by blast
qed

text \<open>
  With one worker thread nothing undefined happens: whatever threads spawn and however the
  coroutines behave, no destroyed or running coroutine is asked or resumed.
\<close>

theorem executor_single_worker_safe:
  assumes "executor_run (Executor_new fs) es r" and "\<forall>e\<in>set es. worker_zero e"
  shows "\<exists>s. r = Inr s"
  using single_run [OF assms(1)] assms(2) executor_inv_new [of fs]
  by (auto simp: single_inv_def Executor_new_def)

theorem executor_single_worker_safe_witness:
  "\<exists>r s. executor_run (Executor_new (frames_new (\<lambda>_. 0))) [Spawn 9 4, Take 0, Begin 0, Body_suspends 0, Spawn 9 4, Check_done 0] r \<and>
     r = Inr s"
proof -
  obtain r where r: "executor_exec [Spawn 9 4, Take 0, Begin 0, Body_suspends 0, Spawn 9 4, Check_done 0]
      (Executor_new (frames_new (\<lambda>_. 0))) = Some r"
    by (simp add: executor_run_defs Executor_new_def frames_new_def spawnable_def executor_spawn_def)
  from executor_single_worker_safe [OF executor_exec_run [OF r]] executor_exec_run [OF r] show ?thesis by auto
qed

text \<open>
  With two workers there is a race. A coroutine that suspends can be spawned by another
  thread at once; a second worker can resume it, finish it and destroy its frame before the
  first worker, back from its own resume, asks whether the task is done.
\<close>

theorem executor_race:
  "executor_run (Executor_new (frames_new ids))
     [Spawn 9 h, Take 0, Begin 0, Body_suspends 0, Spawn 9 h, Take 1, Begin 1, Body_finishes 1, Check_done 1, Check_done 0]
     (Inl Undefined_behaviour)"
  by (rule executor_exec_run)
    (simp add: executor_run_defs Executor_new_def frames_new_def spawnable_def executor_spawn_def)

text \<open>
  \<^verbatim>\<open>suspend(times)\<close> gives way once, however large \<^verbatim>\<open>times\<close> is: the coroutine goes to the end of the queue one
  time, and the same state results for every other non-zero argument.
\<close>

theorem suspend_once:
  assumes "executor_inv s" and "ex_worker s n = In_body h" and "n_times \<noteq> 0" and "- (2 ^ 31) < n_times"
  shows "\<exists>s'. co_await_suspend n n_times s = Some (Inr s') \<and> co_await_suspend n 1 s = Some (Inr s') \<and>
     ex_queue s' = ex_queue s @ [h] \<and> cf_status (ex_frames s' h) = At_suspension \<and> ex_worker s' n = Resume_returned h"
  using assms executor_invD(5) [OF assms(1,2)]
  by (simp add: co_await_suspend_def suspend_await_ready_def suspend_await_suspend_def executor_spawn_def executor_run_defs)



end
