(* ===== verification/Toad_Promise.thy ===== *)
theory Toad_Promise
  imports Toad_Executor Toad_Format
begin

text \<open>
  \<^verbatim>\<open>include/prng.hpp\<close> and what \<^verbatim>\<open>Task::promise_type\<close> of \<^verbatim>\<open>concurrency/task.hpp\<close> does when a coroutine is made. The standard library's
  generator is a state of type \<open>'g\<close>: \<open>mt\<close> makes one from a seed, and \<open>dist lo hi\<close> is a draw of
  \<^verbatim>\<open>std::uniform_int_distribution(lo, hi)\<close>, which is undefined when \<open>lo\<close> exceeds \<open>hi\<close>.
\<close>

section \<open>The code\<close>

text \<open>\<^verbatim>\<open>get_thread_rng\<close>: the thread-local generator is made, from a seed of \<^verbatim>\<open>random_device\<close>, when thread \<open>t\<close> first asks.\<close>

definition get_thread_rng :: "(u32 \<Rightarrow> 'g) \<Rightarrow> u32 \<Rightarrow> nat \<Rightarrow> (nat \<rightharpoonup> 'g) \<Rightarrow> 'g" where
  "get_thread_rng mt seed t rngs = (case rngs t of None \<Rightarrow> mt seed | Some rng \<Rightarrow> rng)"

definition thread_safe_random_u32_in ::
  "(u32 \<Rightarrow> 'g) \<Rightarrow> (u32 \<Rightarrow> u32 \<Rightarrow> 'g \<Rightarrow> u32 \<times> 'g) \<Rightarrow> u32 \<Rightarrow> nat \<Rightarrow> u32 \<Rightarrow> u32 \<Rightarrow> (nat \<rightharpoonup> 'g) \<Rightarrow> (u32 \<times> (nat \<rightharpoonup> 'g)) res" where
  "thread_safe_random_u32_in mt dist seed t lo hi rngs =
     (if lo > hi then Inl Undefined_behaviour
      else let (x, rng) = dist lo hi (get_thread_rng mt seed t rngs) in Inr (x, rngs(t \<mapsto> rng)))"

definition thread_safe_random_u32 ::
  "(u32 \<Rightarrow> 'g) \<Rightarrow> (u32 \<Rightarrow> u32 \<Rightarrow> 'g \<Rightarrow> u32 \<times> 'g) \<Rightarrow> u32 \<Rightarrow> nat \<Rightarrow> (nat \<rightharpoonup> 'g) \<Rightarrow> (u32 \<times> (nat \<rightharpoonup> 'g)) res" where
  "thread_safe_random_u32 mt dist seed t = thread_safe_random_u32_in mt dist seed t 0 (NOT 0)"

text \<open>
  A coroutine is made on thread \<open>t\<close> with its frame at \<open>h\<close>: the members of the promise are initialised, \<^verbatim>\<open>get_return_object\<close> makes the
  \<^verbatim>\<open>Task\<close> and \<^verbatim>\<open>initial_suspend\<close> suspends.
\<close>

definition promise_new ::
  "(u32 \<Rightarrow> 'g) \<Rightarrow> (u32 \<Rightarrow> u32 \<Rightarrow> 'g \<Rightarrow> u32 \<times> 'g) \<Rightarrow> u32 \<Rightarrow> nat \<Rightarrow> nat \<Rightarrow> frames \<Rightarrow> (nat \<rightharpoonup> 'g) \<Rightarrow> (Task \<times> frames \<times> (nat \<rightharpoonup> 'g)) res" where
  "promise_new mt dist seed t h fs rngs =
     rbind (thread_safe_random_u32 mt dist seed t rngs) (\<lambda>(corr_id, rngs).
     Inr (Some h, fs(h := \<lparr>cf_status = At_suspension, cf_corr_id = ucast corr_id, cf_parent_corr_id = 0\<rparr>), rngs))"

definition set_corr_id :: "frames \<Rightarrow> nat \<Rightarrow> u64 \<Rightarrow> frames res" where
  "set_corr_id fs h i =
     (if cf_status (fs h) = Freed then Inl Undefined_behaviour
      else Inr (fs(h := (fs h)\<lparr>cf_corr_id := i\<rparr>)))"

section \<open>Processes\<close>

text \<open>
  An executor without coroutines, in which coroutines are made at free addresses and the executor
  takes its steps. No code calls \<open>set_corr_id\<close>.
\<close>

definition no_frames :: frames where
  "no_frames = (\<lambda>_. \<lparr>cf_status = Freed, cf_corr_id = 0, cf_parent_corr_id = 0\<rparr>)"

inductive coro_reachable :: "(u32 \<Rightarrow> 'g) \<Rightarrow> (u32 \<Rightarrow> u32 \<Rightarrow> 'g \<Rightarrow> u32 \<times> 'g) \<Rightarrow> Executor \<Rightarrow> (nat \<rightharpoonup> 'g) \<Rightarrow> bool" for mt dist where
  start: "coro_reachable mt dist (Executor_new no_frames) Map.empty"
| make: "coro_reachable mt dist s rngs \<Longrightarrow> cf_status (ex_frames s h) = Freed \<Longrightarrow>
    promise_new mt dist seed t h (ex_frames s) rngs = Inr (task, fs, rngs') \<Longrightarrow>
    coro_reachable mt dist (s\<lparr>ex_frames := fs\<rparr>) rngs'"
| step: "coro_reachable mt dist s rngs \<Longrightarrow> executor_step s e (Inr s') \<Longrightarrow> coro_reachable mt dist s' rngs"

definition corr_bounded :: "Executor \<Rightarrow> bool" where
  "corr_bounded s \<longleftrightarrow> (\<forall>h. unat (cf_corr_id (ex_frames s h)) < 2 ^ 32) \<and> (\<forall>h. unat (cf_parent_corr_id (ex_frames s h)) < 2 ^ 32) \<and>
     (\<forall>n. unat (ex_corr s n) < 2 ^ 32) \<and> (\<forall>n. unat (ex_parent_corr s n) < 2 ^ 32)"

lemma corr_bounded_step:
  assumes "corr_bounded s" and "executor_step s e (Inr s')"
  shows "corr_bounded s'"
  using assms
  by (cases e) (auto simp: corr_bounded_def executor_spawn_def executor_run_defs rbind_eq_Inr
    split: if_splits worker_pc.splits option.splits coro_status.splits)

lemma coro_reachable_bounded: "coro_reachable mt dist s rngs \<Longrightarrow> corr_bounded s"
proof (induction rule: coro_reachable.induct)
  case start
  then show ?case
    by (simp add: corr_bounded_def Executor_new_def no_frames_def)
next
  case (make s rngs h seed t task fs rngs')
  have "unat (ucast x :: u64) < 2 ^ 32" for x :: u32
    using unsigned_less [of x, where 'a = nat] by (simp add: unsigned_ucast_eq take_bit_nat_eq_self)
  with make show ?case
    by (auto simp: corr_bounded_def promise_new_def rbind_eq_Inr)
qed (rule corr_bounded_step)

section \<open>Number formats that pad\<close>

text \<open>A number that fits the width is printed with exactly that many digits.\<close>

locale padded_format = number_format +
  assumes hex_width: "0 < w \<Longrightarrow> n < 16 ^ w \<Longrightarrow> length (hex w n) = w"
begin

lemma correlation_id_digits:
  "unat i < 2 ^ 32 \<Longrightarrow> length (format_correlation_id hex i) = 8 \<and> (\<forall>c. c \<in> set (format_correlation_id hex i) \<longrightarrow> hex_char c)"
  using hex_width [of 8 "unat i"] hex_digits by (simp add: format_correlation_id_def)

lemma correlation_id_inj: "format_correlation_id hex i = format_correlation_id hex j \<longleftrightarrow> i = j"
  by (simp add: format_correlation_id_def hex_inj word_unat_eq_iff)

end

lemma length_positional: "2 \<le> b \<Longrightarrow> 0 < w \<Longrightarrow> n < b ^ w \<Longrightarrow> length (positional b n) \<le> w"
proof (induction b n arbitrary: w rule: positional.induct)
  case (1 b n)
  show ?case
  proof (cases "n < b")
    case True
    with 1(3) show ?thesis by (simp add: positional.simps)
  next
    case False
    then obtain v where w: "w = Suc v" "0 < v"
      using 1(3,4) by (cases w; cases "w - 1") auto
    then have "n div b < b ^ v"
      using 1(4) by (simp add: less_mult_imp_div_less mult.commute)
    with 1(1) [of v] 1(2) False w show ?thesis
      by (simp add: positional.simps [of b n])
  qed
qed

interpretation padded_positional: padded_format "positional 10" "\<lambda>w n. padded w (positional 16 n)"
  by unfold_locales (use length_positional [of 16] in \<open>auto simp: padded_def\<close>)

section \<open>Properties\<close>

text \<open>
  A draw lies between its bounds when the distribution keeps its promise, the draw that the promise
  makes is always defined, and a thread's draw leaves the generators of the other threads alone.
\<close>

theorem thread_safe_random_u32_spec:
  assumes "\<And>lo hi g. lo \<le> hi \<Longrightarrow> lo \<le> fst (dist lo hi g) \<and> fst (dist lo hi g) \<le> hi"
  shows "(\<forall>x rngs'. thread_safe_random_u32_in mt dist seed t lo hi rngs = Inr (x, rngs') \<longrightarrow> lo \<le> x \<and> x \<le> hi \<and> (\<forall>k. k \<noteq> t \<longrightarrow> rngs' k = rngs k)) \<and>
     (thread_safe_random_u32_in mt dist seed t lo hi rngs = Inl Undefined_behaviour \<longleftrightarrow> hi < lo) \<and>
     (\<exists>x rngs'. thread_safe_random_u32 mt dist seed t rngs = Inr (x, rngs'))"
  using assms [of lo hi "get_thread_rng mt seed t rngs"]
  by (auto simp: thread_safe_random_u32_in_def thread_safe_random_u32_def Let_def case_prod_beta not_less)

theorem thread_safe_random_u32_spec_witness:
  "\<exists>x rngs'. thread_safe_random_u32 (\<lambda>s. s) (\<lambda>lo hi g. (lo, g + 1)) 9 3 Map.empty = Inr (x, rngs')"
  using thread_safe_random_u32_spec [of "\<lambda>lo hi g. (lo, g + 1)" "\<lambda>s. s" 9 3 0 1 Map.empty] by simp

text \<open>
  C36: the correlation ids in the log. In every state of a process whose coroutines are made by the
  promise, the correlation id of every thread, which the log prints with each line, is a 32-bit draw or zero,
  so the field \<^verbatim>\<open>{:08X}\<close> is exactly eight hexadecimal digits for any library that pads to the width and
  prints no more digits than needed, although the id is a 64-bit number.
\<close>

theorem correlation_id_width:
  assumes "coro_reachable mt dist s rngs" and "padded_format dec hex"
  shows "length (format_correlation_id hex (ex_corr s n)) = 8 \<and> (\<forall>c. c \<in> set (format_correlation_id hex (ex_corr s n)) \<longrightarrow> hex_char c) \<and>
     (format_correlation_id hex (ex_corr s n) = format_correlation_id hex (ex_corr s k) \<longleftrightarrow> ex_corr s n = ex_corr s k)"
proof -
  have "unat (ex_corr s n) < 2 ^ 32"
    using coro_reachable_bounded [OF assms(1)] unfolding corr_bounded_def by blast
  with padded_format.correlation_id_digits [OF assms(2)] padded_format.correlation_id_inj [OF assms(2)] show ?thesis
    by blast
qed

theorem correlation_id_width_witness:
  "\<exists>s rngs. coro_reachable (\<lambda>s :: u32. s) (\<lambda>lo hi g. (g, g + 1)) s rngs \<and> ex_corr s 0 = 0xBEEF \<and>
     length (format_correlation_id (\<lambda>w n. padded w (positional 16 n)) (ex_corr s 0)) = 8"
proof -
  let ?mt = "\<lambda>s :: u32. s" and ?dist = "\<lambda>(lo :: u32) (hi :: u32) (g :: u32). (g, g + 1)"
  let ?e0 = "Executor_new no_frames"
  let ?fs = "no_frames(7 := \<lparr>cf_status = At_suspension, cf_corr_id = 0xBEEF, cf_parent_corr_id = 0\<rparr>)"
  have m: "promise_new ?mt ?dist 0xBEEF 4 7 (ex_frames ?e0) Map.empty = Inr (Some 7, ?fs, [4 \<mapsto> 0xBEF0])"
    by (simp add: promise_new_def thread_safe_random_u32_def thread_safe_random_u32_in_def get_thread_rng_def Executor_new_def)
  obtain s where "executor_exec [Spawn 4 7, Take 0, Begin 0] (?e0\<lparr>ex_frames := ?fs\<rparr>) = Some (Inr s)" and id: "ex_corr s 0 = 0xBEEF"
    by (simp add: spawnable_def executor_spawn_def executor_run_defs Executor_new_def)
  then obtain s1 s2 where st: "executor_step (?e0\<lparr>ex_frames := ?fs\<rparr>) (Spawn 4 7) (Inr s1)" "executor_step s1 (Take 0) (Inr s2)"
    "executor_step s2 (Begin 0) (Inr s)"
    by (auto simp: executor_next_iff simp del: executor_next.simps executor_step_simps split: option.splits sum.splits)
  have "coro_reachable ?mt ?dist (?e0\<lparr>ex_frames := ?fs\<rparr>) [4 \<mapsto> 0xBEF0]"
    by (rule coro_reachable.make [OF coro_reachable.start _ m]) (simp add: Executor_new_def no_frames_def)
  then have "coro_reachable ?mt ?dist s [4 \<mapsto> 0xBEF0]"
    using st by (meson coro_reachable.step)
  with correlation_id_width [OF this padded_positional.padded_format_axioms, of 0 0] id show ?thesis
    by blast
qed

end
