(* ===== verification/Toad_Notify.thy ===== *)
theory Toad_Notify
  imports Toad_Prelude
begin

text \<open>
  \<^verbatim>\<open>include/concurrency/notify.hpp\<close>: the intrusive stack of suspended coroutines. Awaiters and
  notifying threads are numbered, every access to shared memory is one event, and any
  interleaving of events is allowed; memory is sequentially consistent. An awaiter lives in the
  frame of its coroutine, so it is gone once the coroutine has resumed: reading its \<^verbatim>\<open>next\<close>
  afterwards is a fault.
\<close>

section \<open>The code as a transition system\<close>

text \<open>
  Where a \<^verbatim>\<open>co_await\<close> stands: before \<^verbatim>\<open>await_ready\<close>, between it and \<^verbatim>\<open>push_awaiter_\<close>, in the loop of
  \<^verbatim>\<open>push_awaiter_\<close> with its local \<^verbatim>\<open>old_head\<close> (before and after the store to \<^verbatim>\<open>next\<close>), suspended,
  handed to \<^verbatim>\<open>spawn\<close>, and past the \<^verbatim>\<open>co_await\<close>.
\<close>

datatype await_pc = At_start | Suspending | Push_loop "nat option" | Push_cas "nat option"
  | Suspended | Woken | Resumed

text \<open>
  Where a \<^verbatim>\<open>notify_all\<close> stands: not called, after the store to \<^verbatim>\<open>fired_\<close>, at the test of the loop
  with its local \<^verbatim>\<open>current\<close>, between \<^verbatim>\<open>spawn\<close> and the load of \<^verbatim>\<open>next\<close>, returned.
\<close>

datatype notify_pc = Not_called | Stored | Walking "nat option" | Spawned nat | Returned

record Notify =
  nf_head :: "nat option"
  nf_fired :: bool
  nf_next :: "nat \<Rightarrow> nat option"
  nf_await :: "nat \<Rightarrow> await_pc"
  nf_notify :: "nat \<Rightarrow> notify_pc"
  nf_fault :: bool

definition Notify_new :: Notify where
  "Notify_new = \<lparr>nf_head = None, nf_fired = False, nf_next = (\<lambda>_. None), nf_await = (\<lambda>_. At_start),
     nf_notify = (\<lambda>_. Not_called), nf_fault = False\<rparr>"

datatype notify_event = Await_ready nat | Push_load nat | Push_next nat | Push_cas_try nat bool | Resume nat
  | Fire nat | Exchange nat | Spawn_current nat | Read_next nat | Walk_end nat

fun set_await :: "nat \<Rightarrow> await_pc \<Rightarrow> Notify \<Rightarrow> Notify" where
  "set_await a pc s = s\<lparr>nf_await := (nf_await s)(a := pc)\<rparr>"

fun set_notify :: "nat \<Rightarrow> notify_pc \<Rightarrow> Notify \<Rightarrow> Notify" where
  "set_notify n pc s = s\<lparr>nf_notify := (nf_notify s)(n := pc)\<rparr>"

text \<open>\<^verbatim>\<open>await_ready\<close> of awaiter \<open>a\<close>.\<close>

definition await_ready_step :: "nat \<Rightarrow> Notify \<Rightarrow> Notify option" where
  "await_ready_step a s =
     (case nf_await s a of
        At_start \<Rightarrow> Some (set_await a (if nf_fired s then Resumed else Suspending) s)
      | _ \<Rightarrow> None)"

text \<open>
  \<^verbatim>\<open>push_awaiter_\<close>: the load of \<^verbatim>\<open>head_\<close>, the store to \<^verbatim>\<open>next\<close>, and one attempt of the weak
  compare-and-exchange, which may fail spuriously and reloads \<^verbatim>\<open>old_head\<close> when it fails.
\<close>

fun push_awaiter_step :: "notify_event \<Rightarrow> Notify \<Rightarrow> Notify option" where
  "push_awaiter_step (Push_load a) s =
     (if nf_await s a = Suspending then Some (set_await a (Push_loop (nf_head s)) s) else None)"
| "push_awaiter_step (Push_next a) s =
     (case nf_await s a of
        Push_loop h \<Rightarrow> Some (set_await a (Push_cas h) (s\<lparr>nf_next := (nf_next s)(a := h)\<rparr>))
      | _ \<Rightarrow> None)"
| "push_awaiter_step (Push_cas_try a spurious) s =
     (case nf_await s a of
        Push_cas h \<Rightarrow>
          Some (if nf_head s = h \<and> \<not> spurious then set_await a Suspended (s\<lparr>nf_head := Some a\<rparr>)
                else set_await a (Push_loop (nf_head s)) s)
      | _ \<Rightarrow> None)"
| "push_awaiter_step _ s = None"

text \<open>\<^verbatim>\<open>notify_all\<close>, one access at a time.\<close>

fun notify_all_step :: "notify_event \<Rightarrow> Notify \<Rightarrow> Notify option" where
  "notify_all_step (Fire n) s =
     (if nf_notify s n = Not_called then Some (set_notify n Stored (s\<lparr>nf_fired := True\<rparr>)) else None)"
| "notify_all_step (Exchange n) s =
     (if nf_notify s n = Stored then Some (set_notify n (Walking (nf_head s)) (s\<lparr>nf_head := None\<rparr>)) else None)"
| "notify_all_step (Spawn_current n) s =
     (case nf_notify s n of
        Walking (Some a) \<Rightarrow> Some (set_notify n (Spawned a) (set_await a Woken s))
      | _ \<Rightarrow> None)"
| "notify_all_step (Read_next n) s =
     (case nf_notify s n of
        Spawned a \<Rightarrow>
          Some (if nf_await s a = Resumed then s\<lparr>nf_fault := True\<rparr>
                else set_notify n (Walking (nf_next s a)) s)
      | _ \<Rightarrow> None)"
| "notify_all_step (Walk_end n) s =
     (if nf_notify s n = Walking None then Some (set_notify n Returned s) else None)"
| "notify_all_step _ s = None"

fun notify_step :: "notify_event \<Rightarrow> Notify \<Rightarrow> Notify option" where
  "notify_step e s =
     (if nf_fault s then None
      else case e of
        Await_ready a \<Rightarrow> await_ready_step a s
      | Resume a \<Rightarrow> if nf_await s a = Woken then Some (set_await a Resumed s) else None
      | Push_load a \<Rightarrow> push_awaiter_step e s
      | Push_next a \<Rightarrow> push_awaiter_step e s
      | Push_cas_try a b \<Rightarrow> push_awaiter_step e s
      | _ \<Rightarrow> notify_all_step e s)"

fun notify_run :: "notify_event list \<Rightarrow> Notify \<Rightarrow> Notify option" where
  "notify_run [] s = Some s"
| "notify_run (e # es) s = (case notify_step e s of None \<Rightarrow> None | Some s' \<Rightarrow> notify_run es s')"

text \<open>\<^verbatim>\<open>done\<close>, which is also the condition under which \<^verbatim>\<open>wait_blocking\<close> leaves its loop.\<close>

definition notify_done :: "Notify \<Rightarrow> bool" where
  "notify_done s = nf_fired s"

inductive notify_reachable :: "Notify \<Rightarrow> bool" where
  start: "notify_reachable Notify_new"
| step: "notify_reachable s \<Longrightarrow> notify_step e s = Some s' \<Longrightarrow> notify_reachable s'"

lemma notify_run_reachable: "notify_reachable s \<Longrightarrow> notify_run es s = Some s' \<Longrightarrow> notify_reachable s'"
proof (induction es arbitrary: s)
  case (Cons e es)
  then show ?case
    by (auto simp del: notify_step.simps split: option.splits intro: notify_reachable.step)
qed simp

lemma notify_run_append:
  "notify_run (es @ fs) s = (case notify_run es s of None \<Rightarrow> None | Some s' \<Rightarrow> notify_run fs s')"
  by (induction es arbitrary: s) (auto simp del: notify_step.simps split: option.splits)

text \<open>
  \<^verbatim>\<open>wait_blocking\<close> spins on \<^verbatim>\<open>fired_\<close>: \<open>loads i\<close> is what its \<open>i\<close>-th load gives. The loop need not end; the result is the
  number of the load that ended it.
\<close>

partial_function (option) notify_wait_blocking :: "(nat \<Rightarrow> bool) \<Rightarrow> nat \<Rightarrow> nat option" where
  "notify_wait_blocking loads i = (if \<not> loads i then notify_wait_blocking loads (i + 1) else Some i)"

text \<open>An endless execution, in which nothing may happen for any time.\<close>

definition notify_execution :: "(nat \<Rightarrow> Notify) \<Rightarrow> bool" where
  "notify_execution run \<longleftrightarrow> notify_reachable (run 0) \<and> (\<forall>i. run (Suc i) = run i \<or> (\<exists>e. notify_step e (run i) = Some (run (Suc i))))"

section \<open>The abstract stack\<close>

text \<open>The awaiters found by following \<^verbatim>\<open>next\<close> from a pointer.\<close>

fun chain :: "(nat \<Rightarrow> nat option) \<Rightarrow> nat option \<Rightarrow> nat list \<Rightarrow> bool" where
  "chain nx p [] = (p = None)"
| "chain nx p (x # xs) = (p = Some x \<and> chain nx (nx x) xs)"

lemma chain_upd [simp]: "a \<notin> set xs \<Longrightarrow> chain (nx(a := v)) p xs = chain nx p xs"
  by (induction xs arbitrary: p) auto

lemma chain_None [simp]: "chain nx None xs = (xs = [])"
  by (cases xs) auto

lemma chain_unique: "chain nx p xs \<Longrightarrow> chain nx p ys \<Longrightarrow> xs = ys"
proof (induction xs arbitrary: p ys)
  case (Cons x xs)
  then show ?case by (cases ys) auto
qed (cases ys; simp)

fun walk_from :: "(nat \<Rightarrow> nat option) \<Rightarrow> notify_pc \<Rightarrow> nat option" where
  "walk_from nx (Walking p) = p"
| "walk_from nx (Spawned a) = nx a"
| "walk_from nx _ = None"

text \<open>
  The abstract state is the stack \<open>xs\<close> and, for every notifier \<open>n\<close>, the list \<open>ws n\<close> of the awaiters it
  took and has still to wake. No awaiter is in two places, and the suspended awaiters are
  exactly those in one of the lists.
\<close>

definition stack_ok ::
  "(nat \<Rightarrow> nat option) \<Rightarrow> nat option \<Rightarrow> (nat \<Rightarrow> notify_pc) \<Rightarrow> nat list \<Rightarrow> (nat \<Rightarrow> nat list) \<Rightarrow> bool" where
  "stack_ok nx h pcs xs ws \<longleftrightarrow> chain nx h xs \<and> distinct xs \<and>
     (\<forall>n. chain nx (walk_from nx (pcs n)) (ws n)) \<and> (\<forall>n. distinct (ws n)) \<and> (\<forall>n. set xs \<inter> set (ws n) = {}) \<and>
     (\<forall>n k. n \<noteq> k \<longrightarrow> set (ws n) \<inter> set (ws k) = {})"

definition waiting :: "nat list \<Rightarrow> (nat \<Rightarrow> nat list) \<Rightarrow> nat \<Rightarrow> bool" where
  "waiting xs ws a \<longleftrightarrow> a \<in> set xs \<or> (\<exists>n. a \<in> set (ws n))"

definition notify_abs :: "Notify \<Rightarrow> nat list \<Rightarrow> (nat \<Rightarrow> nat list) \<Rightarrow> bool" where
  "notify_abs s xs ws \<longleftrightarrow>
     stack_ok (nf_next s) (nf_head s) (nf_notify s) xs ws \<and>
     (\<forall>a. nf_await s a = Suspended \<longleftrightarrow> waiting xs ws a) \<and>
     (\<forall>a h. nf_await s a = Push_cas h \<longrightarrow> nf_next s a = h) \<and>
     (\<forall>n a. nf_notify s n = Spawned a \<longrightarrow> nf_await s a = Woken \<or> nf_await s a = Resumed)"

text \<open>What an event does to the abstract state: a push, a grab of the whole stack, one wake-up.\<close>

fun notify_abs_step :: "notify_event \<Rightarrow> Notify \<Rightarrow> nat list \<times> (nat \<Rightarrow> nat list) \<Rightarrow> nat list \<times> (nat \<Rightarrow> nat list)" where
  "notify_abs_step (Push_cas_try a spurious) s (xs, ws) =
     (if nf_await s a = Push_cas (nf_head s) \<and> \<not> spurious then a # xs else xs, ws)"
| "notify_abs_step (Exchange n) s (xs, ws) = ([], ws(n := xs))"
| "notify_abs_step (Spawn_current n) s (xs, ws) = (xs, ws(n := tl (ws n)))"
| "notify_abs_step _ s (xs, ws) = (xs, ws)"

lemma notify_abs_new: "notify_abs Notify_new [] (\<lambda>_. [])"
  by (simp add: notify_abs_def stack_ok_def waiting_def Notify_new_def)

lemma stack_ok_push:
  "stack_ok nx h pcs xs ws \<Longrightarrow> \<not> waiting xs ws a \<Longrightarrow> nx a = h \<Longrightarrow> stack_ok nx (Some a) pcs (a # xs) ws"
  by (auto simp: stack_ok_def waiting_def)

lemma stack_ok_exchange:
  "stack_ok nx h pcs xs ws \<Longrightarrow> pcs n = Stored \<Longrightarrow> stack_ok nx None (pcs(n := Walking h)) [] (ws(n := xs))"
  by (auto simp: stack_ok_def)

lemma stack_ok_spawn:
  assumes "stack_ok nx h pcs xs ws" and "pcs n = Walking (Some a)"
  obtains ys where "ws n = a # ys" "stack_ok nx h (pcs(n := Spawned a)) xs (ws(n := ys))" "\<not> waiting xs (ws(n := ys)) a"
proof -
  have "chain nx (Some a) (ws n)"
    using assms unfolding stack_ok_def by (metis walk_from.simps(1))
  then obtain ys where ys: "ws n = a # ys" "chain nx (nx a) ys"
    by (cases "ws n") auto
  have d: "distinct (a # ys)" "set xs \<inter> set (a # ys) = {}" "k \<noteq> n \<Longrightarrow> set (ws k) \<inter> set (a # ys) = {}" for k
    using assms(1) ys(1) unfolding stack_ok_def by metis+
  have sub: "set ((ws(n := ys)) k) \<subseteq> set (ws k)" for k
    using ys(1) by auto
  have disj: "set xs \<inter> set (ws k) = {}" "i \<noteq> k \<Longrightarrow> set (ws i) \<inter> set (ws k) = {}" for i k
    using assms(1) unfolding stack_ok_def by metis+
  have "set xs \<inter> set ((ws(n := ys)) k) = {}" for k
    using disj(1) [of k] sub [of k] by blast
  moreover have "set ((ws(n := ys)) i) \<inter> set ((ws(n := ys)) k) = {}" if "i \<noteq> k" for i k
    using disj(2) [OF that] sub [of i] sub [of k] by blast
  moreover have "chain nx (walk_from nx ((pcs(n := Spawned a)) k)) ((ws(n := ys)) k)" "distinct ((ws(n := ys)) k)" for k
    using assms(1) ys d(1) by (simp_all add: stack_ok_def)
  ultimately have "stack_ok nx h (pcs(n := Spawned a)) xs (ws(n := ys))"
    using assms(1) unfolding stack_ok_def by blast
  moreover have "\<not> waiting xs (ws(n := ys)) a"
    using d by (auto simp: waiting_def)
  ultimately show thesis using ys(1) that by blast
qed

lemma stack_ok_pc:
  "stack_ok nx h pcs xs ws \<Longrightarrow> walk_from nx pc = walk_from nx (pcs n) \<Longrightarrow> stack_ok nx h (pcs(n := pc)) xs ws"
  by (auto simp: stack_ok_def)

lemma stack_ok_next:
  assumes "stack_ok nx h pcs xs ws" and "\<not> waiting xs ws a" and "\<And>n. pcs n \<noteq> Spawned a"
  shows "stack_ok (nx(a := v)) h pcs xs ws"
proof -
  have "walk_from (nx(a := v)) (pcs n) = walk_from nx (pcs n)" for n
    using assms(3) [of n] by (cases "pcs n") auto
  then show ?thesis
    using assms(1,2) by (simp add: stack_ok_def waiting_def)
qed

lemma waiting_split:
  "waiting xs ws b \<longleftrightarrow> b \<in> set xs \<or> b \<in> set (ws n) \<or> (\<exists>k. k \<noteq> n \<and> b \<in> set (ws k))"
  by (auto simp: waiting_def)

lemma waiting_move: "ws n = [] \<Longrightarrow> waiting [] (ws(n := xs)) a \<longleftrightarrow> waiting xs ws a"
  by (auto simp: waiting_split [of _ _ _ n])

lemma waiting_pop: "ws n = a # ys \<Longrightarrow> waiting xs ws b \<longleftrightarrow> b = a \<or> waiting xs (ws(n := ys)) b"
  by (auto simp: waiting_split [of _ _ _ n])

lemma notify_absD:
  assumes "notify_abs s xs ws"
  shows "stack_ok (nf_next s) (nf_head s) (nf_notify s) xs ws"
    and "nf_await s a = Suspended \<longleftrightarrow> waiting xs ws a"
    and "nf_await s a = Push_cas h \<Longrightarrow> nf_next s a = h"
    and "nf_notify s n = Spawned a \<Longrightarrow> nf_await s a = Woken \<or> nf_await s a = Resumed"
  using assms by (auto simp: notify_abs_def)

lemma notify_abs_flags [simp]:
  "notify_abs (s\<lparr>nf_fired := b\<rparr>) xs ws = notify_abs s xs ws" "notify_abs (s\<lparr>nf_fault := b\<rparr>) xs ws = notify_abs s xs ws"
  by (simp_all add: notify_abs_def)

text \<open>Events that move one awaiter between unsuspended positions, or one notifier.\<close>

lemma notify_abs_set_await:
  assumes "notify_abs s xs ws" and "nf_await s a \<noteq> Suspended" and "pc \<noteq> Suspended"
    and "\<And>h. pc = Push_cas h \<Longrightarrow> nf_next s a = h"
    and "nf_await s a = Woken \<or> nf_await s a = Resumed \<Longrightarrow> pc = Woken \<or> pc = Resumed"
  shows "notify_abs (set_await a pc s) xs ws"
  using assms unfolding notify_abs_def by auto

lemma notify_abs_set_notify:
  assumes "notify_abs s xs ws" and "walk_from (nf_next s) pc = walk_from (nf_next s) (nf_notify s n)"
    and "\<And>a. pc \<noteq> Spawned a"
  shows "notify_abs (set_notify n pc s) xs ws"
  using assms stack_ok_pc [OF notify_absD(1) [OF assms(1)] assms(2)] unfolding notify_abs_def by auto

lemma push_awaiter_abs:
  assumes abs: "notify_abs s xs ws" and "push_awaiter_step e s = Some s'"
  shows "case notify_abs_step e s (xs, ws) of (xs', ws') \<Rightarrow> notify_abs s' xs' ws'"
proof (cases "(e, s)" rule: push_awaiter_step.cases)
  case (1 a t)
  then have "nf_await s a = Suspending" "s' = set_await a (Push_loop (nf_head s)) s"
    using assms(2) by (auto split: if_splits)
  with 1 abs show ?thesis
    by (simp del: set_await.simps) (rule notify_abs_set_await, simp_all)
next
  case (2 a t)
  then obtain h where h: "nf_await s a = Push_loop h"
    and s': "s' = set_await a (Push_cas h) (s\<lparr>nf_next := (nf_next s)(a := h)\<rparr>)"
    using assms(2) by (auto split: await_pc.splits)
  have "\<not> waiting xs ws a" "\<And>n. nf_notify s n \<noteq> Spawned a"
    using h notify_absD(2) [OF abs, of a] notify_absD(4) [OF abs, of _ a] by auto
  then have "stack_ok ((nf_next s)(a := h)) (nf_head s) (nf_notify s) xs ws"
    by (rule stack_ok_next [OF notify_absD(1) [OF abs]])
  then have "notify_abs (s\<lparr>nf_next := (nf_next s)(a := h)\<rparr>) xs ws"
    using abs h by (auto simp: notify_abs_def)
  with 2 h show ?thesis
    by (simp add: s' del: set_await.simps) (rule notify_abs_set_await, simp_all)
next
  case (3 a sp t)
  then obtain h where h: "nf_await s a = Push_cas h"
    using assms(2) by (auto split: await_pc.splits)
  then have w: "\<not> waiting xs ws a" "nf_next s a = h" "\<And>n. nf_notify s n \<noteq> Spawned a"
    using notify_absD(2) [OF abs, of a] notify_absD(3) [OF abs, of a] notify_absD(4) [OF abs, of _ a] by auto
  show ?thesis
  proof (cases "nf_head s = h \<and> \<not> sp")
    case True
    then have "s' = set_await a Suspended (s\<lparr>nf_head := Some a\<rparr>)"
      using assms(2) 3 h by simp
    moreover have "stack_ok (nf_next s) (Some a) (nf_notify s) (a # xs) ws"
      using w True by (intro stack_ok_push [OF notify_absD(1) [OF abs]]) simp_all
    moreover have "waiting (a # xs) ws b \<longleftrightarrow> b = a \<or> waiting xs ws b" for b
      by (auto simp: waiting_def)
    ultimately show ?thesis
      using abs True 3 h w by (auto simp: notify_abs_def)
  next
    case False
    then have s': "s' = set_await a (Push_loop (nf_head s)) s" and "notify_abs_step e s (xs, ws) = (xs, ws)"
      using assms(2) 3 h by auto
    with abs h show ?thesis
      by (simp del: set_await.simps) (rule notify_abs_set_await, simp_all)
  qed
qed (use assms in auto)

lemma notify_all_abs:
  assumes abs: "notify_abs s xs ws" and "notify_all_step e s = Some s'"
  shows "case notify_abs_step e s (xs, ws) of (xs', ws') \<Rightarrow> notify_abs s' xs' ws'"
proof (cases "(e, s)" rule: notify_all_step.cases)
  case (1 n t)
  then have "nf_notify s n = Not_called" "s' = set_notify n Stored (s\<lparr>nf_fired := True\<rparr>)"
    using assms(2) by (auto split: if_splits)
  with 1 abs show ?thesis
    by (simp del: set_notify.simps) (rule notify_abs_set_notify, simp_all)
next
  case (2 n t)
  then have n: "nf_notify s n = Stored" and s': "s' = set_notify n (Walking (nf_head s)) (s\<lparr>nf_head := None\<rparr>)"
    using assms(2) by (auto split: if_splits)
  then have "ws n = []"
    using notify_absD(1) [OF abs] unfolding stack_ok_def by (metis walk_from.simps(4) chain_None)
  then show ?thesis
    using abs 2 n stack_ok_exchange [OF notify_absD(1) [OF abs] n]
    by (auto simp: s' notify_abs_def waiting_move)
next
  case (3 n t)
  then obtain a where n: "nf_notify s n = Walking (Some a)"
    and s': "s' = set_notify n (Spawned a) (set_await a Woken s)"
    using assms(2) by (auto split: notify_pc.splits option.splits)
  obtain ys where ys: "ws n = a # ys" "\<not> waiting xs (ws(n := ys)) a"
      "stack_ok (nf_next s) (nf_head s) ((nf_notify s)(n := Spawned a)) xs (ws(n := ys))"
    by (rule stack_ok_spawn [OF notify_absD(1) [OF abs] n])
  then show ?thesis
    using abs 3 waiting_pop [of ws n a ys xs] by (auto simp: s' notify_abs_def)
next
  case (4 n t)
  then obtain a where n: "nf_notify s n = Spawned a"
    and s': "s' = (if nf_await s a = Resumed then s\<lparr>nf_fault := True\<rparr> else set_notify n (Walking (nf_next s a)) s)"
    using assms(2) by (auto split: notify_pc.splits)
  with 4 abs show ?thesis
    by (auto simp: s' simp del: set_notify.simps intro!: notify_abs_set_notify)
next
  case (5 n t)
  then have "nf_notify s n = Walking None" "s' = set_notify n Returned s"
    using assms(2) by (auto split: if_splits)
  with 5 abs show ?thesis
    by (simp del: set_notify.simps) (rule notify_abs_set_notify, simp_all)
qed (use assms in auto)

lemma notify_step_abs:
  assumes abs: "notify_abs s xs ws" and "notify_step e s = Some s'"
  shows "case notify_abs_step e s (xs, ws) of (xs', ws') \<Rightarrow> notify_abs s' xs' ws'"
proof -
  have "push_awaiter_step e s = Some s' \<or> notify_all_step e s = Some s' \<or>
      (\<exists>a. e = Await_ready a \<and> await_ready_step a s = Some s') \<or>
      (\<exists>a. e = Resume a \<and> nf_await s a = Woken \<and> s' = set_await a Resumed s)"
    using assms(2) by (cases e) (auto split: if_splits)
  then consider "push_awaiter_step e s = Some s'" | "notify_all_step e s = Some s'"
    | a where "e = Await_ready a" "await_ready_step a s = Some s'"
    | a where "e = Resume a" "nf_await s a = Woken" "s' = set_await a Resumed s"
    by blast
  then show ?thesis
  proof cases
    case 1
    with abs show ?thesis by (rule push_awaiter_abs)
  next
    case 2
    with abs show ?thesis by (rule notify_all_abs)
  next
    case (3 a)
    then have "nf_await s a = At_start" "s' = set_await a (if nf_fired s then Resumed else Suspending) s"
      by (auto simp: await_ready_step_def split: await_pc.splits)
    with abs 3(1) show ?thesis
      by (auto simp del: set_await.simps intro!: notify_abs_set_await)
  next
    case (4 a)
    with abs show ?thesis
      by (simp del: set_await.simps) (rule notify_abs_set_await, simp_all)
  qed
qed

lemma notify_reachable_abs: "notify_reachable s \<Longrightarrow> \<exists>xs ws. notify_abs s xs ws"
proof (induction rule: notify_reachable.induct)
  case start
  show ?case using notify_abs_new by blast
next
  case (step s e s')
  then obtain xs ws where "notify_abs s xs ws" by blast
  with notify_step_abs [OF this step.hyps(2)] show ?case
    by (cases "notify_abs_step e s (xs, ws)") auto
qed

section \<open>Runs of notify\_all\<close>

text \<open>The events of a \<^verbatim>\<open>notify_all\<close> that finds \<open>k\<close> awaiters, from the exchange on.\<close>

definition walk_events :: "nat \<Rightarrow> nat \<Rightarrow> notify_event list" where
  "walk_events n k = concat (replicate k [Spawn_current n, Read_next n]) @ [Walk_end n]"

lemma walk_events_Suc: "walk_events n (Suc k) = Spawn_current n # Read_next n # walk_events n k"
  by (simp add: walk_events_def)

lemma walk_run:
  assumes "chain (nf_next s) p xs" and "nf_notify s n = Walking p" and "\<not> nf_fault s"
  shows "notify_run (walk_events n (length xs)) s =
     Some (s\<lparr>nf_await := (\<lambda>a. if a \<in> set xs then Woken else nf_await s a), nf_notify := (nf_notify s)(n := Returned)\<rparr>)"
  using assms
proof (induction xs arbitrary: s p)
  case Nil
  then show ?case by (simp add: walk_events_def fun_upd_def)
next
  case (Cons x xs)
  let ?t = "s\<lparr>nf_await := (nf_await s)(x := Woken), nf_notify := (nf_notify s)(n := Walking (nf_next s x))\<rparr>"
  have "notify_run (walk_events n (length (x # xs))) s = notify_run (walk_events n (length xs)) ?t"
    using Cons.prems by (simp add: walk_events_Suc)
  also have "\<dots> = Some (?t\<lparr>nf_await := (\<lambda>a. if a \<in> set xs then Woken else nf_await ?t a),
      nf_notify := (nf_notify ?t)(n := Returned)\<rparr>)"
    using Cons.prems by (intro Cons.IH) simp_all
  also have "\<dots> = Some (s\<lparr>nf_await := (\<lambda>a. if a \<in> set (x # xs) then Woken else nf_await s a),
      nf_notify := (nf_notify s)(n := Returned)\<rparr>)"
    by (simp add: fun_eq_iff)
  finally show ?case .
qed

text \<open>The same with the exchange, from the stack on.\<close>

lemma exchange_walk_run:
  assumes "chain (nf_next s) (nf_head s) xs" and "\<not> nf_fault s" and "nf_notify s n = Stored"
  shows "\<exists>xs s'. chain (nf_next s) (nf_head s) xs \<and> notify_run (Exchange n # walk_events n (length xs)) s = Some s' \<and>
     nf_head s' = None \<and> nf_notify s' n = Returned \<and> \<not> nf_fault s' \<and>
     (\<forall>a. nf_await s' a = (if a \<in> set xs then Woken else nf_await s a))"
proof -
  let ?t = "s\<lparr>nf_head := None, nf_notify := (nf_notify s)(n := Walking (nf_head s))\<rparr>"
  have "notify_run (Exchange n # walk_events n (length xs)) s = notify_run (walk_events n (length xs)) ?t"
    using assms(2,3) by simp
  moreover define s' where "s' = ?t\<lparr>nf_await := (\<lambda>a. if a \<in> set xs then Woken else nf_await s a),
      nf_notify := (nf_notify s)(n := Returned)\<rparr>"
  moreover have "notify_run (walk_events n (length xs)) ?t = Some s'"
    using walk_run [of ?t "nf_head s" xs n] assms(1,2) by (simp add: s'_def cong: if_cong)
  ultimately have "notify_run (Exchange n # walk_events n (length xs)) s = Some s'"
    by (simp only:)
  moreover have "nf_head s' = None \<and> nf_notify s' n = Returned \<and> \<not> nf_fault s' \<and>
      (\<forall>a. nf_await s' a = (if a \<in> set xs then Woken else nf_await s a))"
    using assms(2) by (simp add: s'_def)
  ultimately show ?thesis
    using assms(1) by blast
qed

text \<open>Without another \<^verbatim>\<open>notify_all\<close>, nothing wakes a suspended awaiter.\<close>

fun is_Fire :: "notify_event \<Rightarrow> bool" where
  "is_Fire (Fire n) = True"
| "is_Fire _ = False"

text \<open>Only \<^verbatim>\<open>notify_all\<close> stores to \<^verbatim>\<open>fired_\<close>, and before its first call nobody walks.\<close>

lemma notify_step_fired:
  "notify_step e s = Some s' \<Longrightarrow> \<not> is_Fire e \<Longrightarrow> nf_fired s' = nf_fired s"
  by (cases e) (auto simp: await_ready_step_def split: if_splits await_pc.splits notify_pc.splits option.splits)

lemma notify_run_fired:
  "notify_run es s = Some s' \<Longrightarrow> (\<And>e. e \<in> set es \<Longrightarrow> \<not> is_Fire e) \<Longrightarrow> nf_fired s' = nf_fired s"
proof (induction es arbitrary: s)
  case (Cons e es)
  then show ?case
    by (auto simp del: notify_step.simps split: option.splits dest: notify_step_fired)
qed simp

lemma notify_step_Fire: "notify_step (Fire n) s = Some s' \<Longrightarrow> nf_fired s'"
  by (auto split: if_splits)

lemma notify_step_idle:
  "notify_step e s = Some s' \<Longrightarrow> \<not> is_Fire e \<Longrightarrow> (\<And>n. nf_notify s n = Not_called) \<Longrightarrow> nf_notify s' = nf_notify s"
  by (cases e) (auto simp: await_ready_step_def split: if_splits await_pc.splits)

lemma notify_idle_before_fire:
  "notify_reachable s \<Longrightarrow> \<not> nf_fired s \<Longrightarrow> nf_notify s n = Not_called"
proof (induction arbitrary: n rule: notify_reachable.induct)
  case (step s e s')
  show ?case
  proof (cases "is_Fire e")
    case True
    then show ?thesis
      using step notify_step_Fire by (cases e) (auto simp del: notify_step.simps)
  next
    case False
    with step notify_step_fired [OF step.hyps(2) False] notify_step_idle [OF step.hyps(2) False] show ?thesis by simp
  qed
qed (simp add: Notify_new_def)

definition quiet :: "Notify \<Rightarrow> bool" where
  "quiet s \<longleftrightarrow> (\<forall>n. nf_notify s n = Not_called \<or> nf_notify s n = Returned)"

lemma quiet_step:
  assumes "quiet s" and "nf_await s a = Suspended" and "notify_step e s = Some s'" and "\<not> is_Fire e"
  shows "quiet s' \<and> nf_await s' a = Suspended"
proof -
  have q: "nf_notify s n = Not_called \<or> nf_notify s n = Returned" for n
    using assms(1) by (simp add: quiet_def)
  then have "nf_notify s' = nf_notify s \<and> nf_await s' a = Suspended"
  proof (cases e)
    case (Await_ready b)
    then show ?thesis
      using assms(2,3) by (auto simp: await_ready_step_def split: await_pc.splits if_splits)
  next
    case (Push_cas_try b sp)
    then show ?thesis
      using assms(2,3) by (auto split: await_pc.splits if_splits)
  next
    case (Push_next b)
    then show ?thesis
      using assms(2,3) by (auto split: await_pc.splits if_splits)
  next
    case (Spawn_current n)
    then show ?thesis
      using assms(3) q [of n] by (auto split: if_splits)
  next
    case (Read_next n)
    then show ?thesis
      using assms(3) q [of n] by (auto split: if_splits)
  next
    case (Walk_end n)
    then show ?thesis
      using assms(3) q [of n] by (auto split: if_splits)
  next
    case (Exchange n)
    then show ?thesis
      using assms(3) q [of n] by (auto split: if_splits)
  qed (use assms in \<open>auto split: if_splits\<close>)
  with assms(1) show ?thesis by (simp add: quiet_def)
qed

lemma quiet_run:
  "quiet s \<Longrightarrow> nf_await s a = Suspended \<Longrightarrow> notify_run (filter (\<lambda>e. \<not> is_Fire e) es) s = Some s' \<Longrightarrow>
     nf_await s' a = Suspended"
proof (induction es arbitrary: s)
  case (Cons e es)
  show ?case
  proof (cases "is_Fire e")
    case False
    with Cons.prems(3) obtain t where "notify_step e s = Some t" "notify_run (filter (\<lambda>e. \<not> is_Fire e) es) t = Some s'"
      by (auto simp del: notify_step.simps split: option.splits)
    with quiet_step [OF Cons.prems(1,2) _ False] Cons.IH show ?thesis by blast
  qed (use Cons in simp)
qed simp

section \<open>Properties\<close>

text \<open>
  C2: the pointers of \<^verbatim>\<open>Notify\<close> implement a stack under every interleaving: if the state
  represents the stack \<open>xs\<close> and the lists \<open>ws\<close> of the notifiers, then after any event it represents
  what the abstract operation gives, where a successful compare-and-exchange pushes, the
  exchange takes the whole stack, and a wake-up removes the first of a notifier's list.
\<close>

theorem notify_refines_stack:
  assumes "notify_abs s xs ws" and "notify_step e s = Some s'"
    and "notify_abs_step e s (xs, ws) = (xs', ws')"
  shows "notify_abs s' xs' ws'"
  using notify_step_abs [OF assms(1,2)] assms(3) by simp

theorem notify_refines_stack_witness:
  "\<exists>s. notify_run [Await_ready 7, Push_load 7, Push_next 7, Push_cas_try 7 False] Notify_new = Some s \<and>
     notify_abs s [7] (\<lambda>_. [])"
proof -
  obtain s1 s2 s3 s4 where s: "notify_step (Await_ready 7) Notify_new = Some s1" "notify_step (Push_load 7) s1 = Some s2"
    "notify_step (Push_next 7) s2 = Some s3" "notify_step (Push_cas_try 7 False) s3 = Some s4"
    and cas: "nf_await s3 7 = Push_cas (nf_head s3)"
    by (simp add: Notify_new_def await_ready_step_def)
  have "notify_abs s3 [] (\<lambda>_. [])"
    by (rule notify_refines_stack [OF notify_refines_stack [OF notify_refines_stack [OF notify_abs_new s(1)] s(2)] s(3)]) simp_all
  from notify_refines_stack [OF this s(4)] cas have "notify_abs s4 [7] (\<lambda>_. [])" by simp
  with s show ?thesis
    by (simp del: notify_step.simps)
qed

text \<open>
  C23: no suspended awaiter is forgotten. In every reachable state it can be found by following
  \<^verbatim>\<open>next\<close> from \<^verbatim>\<open>head_\<close> or from the position of a \<^verbatim>\<open>notify_all\<close> that is still walking; and what a
  \<^verbatim>\<open>notify_all\<close> is about to wake is suspended, so nothing is resumed twice.
\<close>

theorem notify_no_waiter_forgotten:
  assumes "notify_reachable s"
  shows "(nf_await s a = Suspended \<longleftrightarrow>
       (\<exists>xs. chain (nf_next s) (nf_head s) xs \<and> a \<in> set xs) \<or>
       (\<exists>n xs. chain (nf_next s) (walk_from (nf_next s) (nf_notify s n)) xs \<and> a \<in> set xs)) \<and>
     (nf_notify s n = Walking (Some a) \<longrightarrow> nf_await s a = Suspended)"
proof -
  obtain xs ws where abs: "notify_abs s xs ws"
    using notify_reachable_abs [OF assms] by blast
  then have st: "chain (nf_next s) (nf_head s) xs"
    "\<And>n. chain (nf_next s) (walk_from (nf_next s) (nf_notify s n)) (ws n)"
    by (auto simp: notify_abs_def stack_ok_def)
  have sus: "nf_await s a = Suspended \<longleftrightarrow>
       (\<exists>xs. chain (nf_next s) (nf_head s) xs \<and> a \<in> set xs) \<or>
       (\<exists>n xs. chain (nf_next s) (walk_from (nf_next s) (nf_notify s n)) xs \<and> a \<in> set xs)"
    using notify_absD(2) [OF abs, of a] st chain_unique by (metis waiting_def)
  moreover have "\<exists>ys. ws n = a # ys" if "nf_notify s n = Walking (Some a)"
    using st(2) [of n] that by (cases "ws n") simp_all
  then have "nf_await s a = Suspended" if "nf_notify s n = Walking (Some a)"
    using that notify_absD(2) [OF abs, of a] unfolding waiting_def by (metis list.set_intros(1))
  ultimately show ?thesis by blast
qed

theorem notify_no_waiter_forgotten_witness:
  "\<exists>s. notify_run [Await_ready 7, Push_load 7, Push_next 7, Push_cas_try 7 False] Notify_new = Some s \<and>
     ((\<exists>xs. chain (nf_next s) (nf_head s) xs \<and> 7 \<in> set xs) \<or>
       (\<exists>n xs. chain (nf_next s) (walk_from (nf_next s) (nf_notify s n)) xs \<and> 7 \<in> set xs))"
proof -
  obtain s where s: "notify_run [Await_ready 7, Push_load 7, Push_next 7, Push_cas_try 7 False] Notify_new = Some s"
    "nf_await s 7 = Suspended"
    by (simp add: Notify_new_def await_ready_step_def)
  from notify_no_waiter_forgotten [OF notify_run_reachable [OF notify_reachable.start s(1)], of 7] s show ?thesis by blast
qed

text \<open>
  C22: a \<^verbatim>\<open>notify_all\<close> that runs undisturbed from its exchange on ends, wakes exactly the awaiters
  that were on the stack, and leaves the stack empty.
\<close>

theorem notify_all_wakes_stack:
  assumes "notify_reachable s" and "\<not> nf_fault s" and "nf_notify s n = Stored"
  shows "\<exists>xs s'. chain (nf_next s) (nf_head s) xs \<and> notify_run (Exchange n # walk_events n (length xs)) s = Some s' \<and>
     nf_head s' = None \<and> nf_notify s' n = Returned \<and> \<not> nf_fault s' \<and>
     (\<forall>a. nf_await s' a = (if a \<in> set xs then Woken else nf_await s a))"
proof -
  obtain xs where "chain (nf_next s) (nf_head s) xs"
    using notify_reachable_abs [OF assms(1)] by (auto simp: notify_abs_def stack_ok_def)
  then show ?thesis
    by (rule exchange_walk_run [OF _ assms(2,3)])
qed

theorem notify_all_wakes_stack_witness:
  "\<exists>s k s'. notify_run [Await_ready 0, Push_load 0, Push_next 0, Push_cas_try 0 False, Fire 0] Notify_new = Some s \<and>
     notify_run (Exchange 0 # walk_events 0 k) s = Some s' \<and> nf_await s' 0 = Woken"
proof -
  obtain s where s: "notify_run [Await_ready 0, Push_load 0, Push_next 0, Push_cas_try 0 False, Fire 0] Notify_new = Some s"
    "nf_head s = Some 0" "\<not> nf_fault s" "nf_notify s 0 = Stored"
    by (simp add: Notify_new_def await_ready_step_def)
  from notify_all_wakes_stack [OF notify_run_reachable [OF notify_reachable.start s(1)] s(3,4)]
  obtain xs s' where x: "chain (nf_next s) (nf_head s) xs" "notify_run (Exchange 0 # walk_events 0 (length xs)) s = Some s'"
    "\<forall>a. nf_await s' a = (if a \<in> set xs then Woken else nf_await s a)" by blast
  from x(1) s(2) have "0 \<in> set xs" by (cases xs) auto
  with x(3) have "nf_await s' 0 = Woken" by simp
  with s(1) x(2) show ?thesis by blast
qed

text \<open>
  A wake-up can be lost. There is an execution in which \<^verbatim>\<open>await_ready\<close> finds the event not
  fired, \<^verbatim>\<open>notify_all\<close> then runs to its end, and only then the awaiter pushes itself: the event has
  fired, nobody is walking, and the coroutine stays suspended whatever else happens, until
  \<^verbatim>\<open>notify_all\<close> is called again.
\<close>

theorem notify_lost_wakeup:
  "\<exists>s. notify_reachable s \<and> notify_done s \<and> nf_notify s 0 = Returned \<and> nf_await s 0 = Suspended \<and>
     (\<forall>es. case notify_run (filter (\<lambda>e. \<not> is_Fire e) es) s of None \<Rightarrow> True | Some s' \<Rightarrow> nf_await s' 0 = Suspended)"
proof -
  obtain s where s: "notify_run [Await_ready 0, Fire 0, Exchange 0, Walk_end 0, Push_load 0, Push_next 0, Push_cas_try 0 False]
      Notify_new = Some s" "notify_done s" "nf_notify s = (\<lambda>_. Not_called)(0 := Returned)" "nf_await s 0 = Suspended"
    by (simp add: Notify_new_def await_ready_step_def notify_done_def)
  have "quiet s"
    using s(3) by (simp add: quiet_def)
  then have "case notify_run (filter (\<lambda>e. \<not> is_Fire e) es) s of None \<Rightarrow> True | Some s' \<Rightarrow> nf_await s' 0 = Suspended" for es
    using quiet_run [where s = s and a = 0 and es = es] s(4) by (auto split: option.splits)
  with s notify_run_reachable [OF notify_reachable.start s(1)] show ?thesis by auto
qed

text \<open>
  \<^verbatim>\<open>notify_all\<close> can read a destroyed awaiter. There is an execution in which a coroutine woken
  by \<^verbatim>\<open>spawn\<close> resumes on another thread before \<^verbatim>\<open>notify_all\<close> loads the \<^verbatim>\<open>next\<close> of its awaiter.
\<close>

theorem notify_use_after_free: "\<exists>s. notify_reachable s \<and> nf_fault s"
proof -
  obtain s where "notify_run [Await_ready 0, Push_load 0, Push_next 0, Push_cas_try 0 False, Fire 0, Exchange 0,
      Spawn_current 0, Resume 0, Read_next 0] Notify_new = Some s" "nf_fault s"
    by (simp add: Notify_new_def await_ready_step_def)
  then show ?thesis
    using notify_run_reachable [OF notify_reachable.start] by blast
qed

lemma notify_wait_returns: "i \<le> j \<Longrightarrow> loads j \<Longrightarrow> \<exists>k. notify_wait_blocking loads i = Some k \<and> i \<le> k \<and> k \<le> j"
proof (induction "j - i" arbitrary: i)
  case 0
  then show ?case
    by (subst notify_wait_blocking.simps) simp
next
  case (Suc d)
  show ?case
  proof (cases "loads i")
    case True
    then show ?thesis
      using Suc.prems by (subst notify_wait_blocking.simps) simp
  next
    case False
    with Suc obtain k where "notify_wait_blocking loads (i + 1) = Some k" "i + 1 \<le> k" "k \<le> j"
      by (metis Suc_eq_plus1 diff_Suc_1 diff_Suc_Suc diff_diff_left le_less_Suc_eq less_or_eq_imp_le not_less zero_less_diff zero_less_Suc)
    with False show ?thesis
      by (subst notify_wait_blocking.simps) simp
  qed
qed

lemma notify_wait_result:
  assumes "notify_wait_blocking loads i = Some k"
  shows "i \<le> k \<and> loads k"
proof (rule notify_wait_blocking.raw_induct [where P = "\<lambda>loads i k. i \<le> k \<and> loads k", OF _ assms])
  fix f :: "(nat \<Rightarrow> bool) \<Rightarrow> nat \<Rightarrow> nat option" and loads and i k :: nat
  assume "\<And>loads i k. f loads i = Some k \<Longrightarrow> i \<le> k \<and> loads k"
    and "(if \<not> loads i then f loads (i + 1) else Some i) = Some k"
  then show "i \<le> k \<and> loads k"
    by (auto split: if_splits dest: Suc_leD)
qed

lemma notify_execution_fired:
  assumes "notify_execution run" and "nf_fired (run i)" and "i \<le> j"
  shows "nf_fired (run j)"
  using assms(3)
proof (induction rule: dec_induct)
  case (step k)
  have "run (Suc k) = run k \<or> (\<exists>e. notify_step e (run k) = Some (run (Suc k)))"
    using assms(1) by (simp add: notify_execution_def)
  with step.IH show ?case
    by (metis is_Fire.elims(2) notify_step_Fire notify_step_fired)
qed (rule assms(2))



end
