(* ===== verification/Toad_Join.thy ===== *)
theory Toad_Join
  imports Toad_Executor Toad_Notify
begin

text \<open>
  \<^verbatim>\<open>include/concurrency/join.hpp\<close>. A \<^verbatim>\<open>JoinSet\<close> counts the coroutines it was given in a 32-bit atomic and
  fires its \<^verbatim>\<open>Notify\<close> when the count returns to zero. The events are the calls of \<^verbatim>\<open>spawn\<close>, the ends of
  the helper coroutine \<^verbatim>\<open>proc\<close>, one for each child, and the accesses of awaiters and of a running
  \<^verbatim>\<open>notify_all\<close> to the \<^verbatim>\<open>Notify\<close>, in any interleaving; \<open>js_live\<close> is the number of helpers that have
  not ended, which no variable of the code holds.
\<close>

section \<open>The code\<close>

record JoinSet =
  js_awaiting :: u32
  js_notify :: Notify
  js_live :: nat

definition JoinSet_new :: JoinSet where
  "JoinSet_new = \<lparr>js_awaiting = 0, js_notify = Notify_new, js_live = 0\<rparr>"

text \<open>The part of \<^verbatim>\<open>spawn\<close> that concerns the set; \<^verbatim>\<open>Toad_Runtime\<close> adds the call of the executor.\<close>

definition join_spawn :: "JoinSet \<Rightarrow> JoinSet res" where
  "join_spawn js =
     ASSERT (\<not> notify_done (js_notify js))
       (Inr (js\<lparr>js_awaiting := js_awaiting js + 1, js_live := js_live js + 1\<rparr>))"

text \<open>
  The end of \<^verbatim>\<open>proc\<close>, after its child is done: \<^verbatim>\<open>fetch_sub\<close> returns the old value. \<open>n\<close> numbers the calls of
  \<^verbatim>\<open>notify_all\<close>, of which the first event stores \<^verbatim>\<open>fired_\<close> and the others are events of the set.
\<close>

definition join_child_done :: "nat \<Rightarrow> JoinSet \<Rightarrow> JoinSet option" where
  "join_child_done n js =
     (if js_live js = 0 then None
      else
        let old = js_awaiting js;
            js = js\<lparr>js_awaiting := old - 1, js_live := js_live js - 1\<rparr>
        in if old = 1 then map_option (\<lambda>nf. js\<lparr>js_notify := nf\<rparr>) (notify_step (Fire n) (js_notify js)) else Some js)"

text \<open>\<^verbatim>\<open>wait_blocking\<close> waits until this holds (\<^verbatim>\<open>Toad_Join_Wait\<close>); \<^verbatim>\<open>co_await\<close> suspends unless \<^verbatim>\<open>join_ready\<close>.\<close>

definition join_wait_done :: "JoinSet \<Rightarrow> bool" where
  "join_wait_done js \<longleftrightarrow> js_awaiting js = 0"

definition join_ready :: "JoinSet \<Rightarrow> bool" where
  "join_ready js = notify_done (js_notify js)"

definition JoinSet_dtor :: "JoinSet \<Rightarrow> unit res" where
  "JoinSet_dtor js = ASSERT (js_awaiting js = 0) (Inr ())"

text \<open>An access to the \<^verbatim>\<open>Notify\<close> other than the store to \<^verbatim>\<open>fired_\<close>, which only a helper does.\<close>

definition join_notify_step :: "notify_event \<Rightarrow> JoinSet \<Rightarrow> JoinSet option" where
  "join_notify_step e js =
     (if is_Fire e then None else map_option (\<lambda>nf. js\<lparr>js_notify := nf\<rparr>) (notify_step e (js_notify js)))"

datatype join_event = Join_spawn | Child_done nat | Join_notify notify_event

fun join_run :: "join_event list \<Rightarrow> JoinSet \<Rightarrow> JoinSet res option" where
  "join_run [] js = Some (Inr js)"
| "join_run (Join_spawn # es) js =
     (case join_spawn js of Inl f \<Rightarrow> Some (Inl f) | Inr js' \<Rightarrow> join_run es js')"
| "join_run (Child_done n # es) js =
     (case join_child_done n js of None \<Rightarrow> None | Some js' \<Rightarrow> join_run es js')"
| "join_run (Join_notify e # es) js =
     (case join_notify_step e js of None \<Rightarrow> None | Some js' \<Rightarrow> join_run es js')"

fun join_spawns :: "join_event list \<Rightarrow> nat" where
  "join_spawns [] = 0"
| "join_spawns (Join_spawn # es) = Suc (join_spawns es)"
| "join_spawns (Child_done n # es) = join_spawns es"
| "join_spawns (Join_notify e # es) = join_spawns es"

section \<open>Invariant\<close>

text \<open>
  The counter counts the live helpers, and the set has fired exactly when there was a child and
  none is left. \<open>k\<close> is the number of children so far.
\<close>

definition join_inv :: "nat \<Rightarrow> JoinSet \<Rightarrow> bool" where
  "join_inv k js \<longleftrightarrow> unat (js_awaiting js) = js_live js \<and> js_live js \<le> k \<and>
     (notify_done (js_notify js) \<longleftrightarrow> k > 0 \<and> js_live js = 0)"

lemma join_inv_new: "join_inv 0 JoinSet_new"
  by (simp add: join_inv_def JoinSet_new_def notify_done_def Notify_new_def)

lemma join_inv_spawn:
  assumes "join_inv k js" and "join_spawn js = Inr js'" and "k + 1 < 2 ^ 32"
  shows "join_inv (Suc k) js'"
proof -
  have "unat (js_awaiting js) + 1 < 2 ^ 32"
    using assms(1,3) by (simp add: join_inv_def)
  then have "unat (js_awaiting js + 1) = unat (js_awaiting js) + 1"
    by (simp add: unat_word_ariths)
  then show ?thesis
    using assms by (auto simp: join_inv_def join_spawn_def res_simps)
qed

lemma join_inv_child:
  assumes "join_inv k js" and "join_child_done n js = Some js'"
  shows "join_inv k js'"
proof -
  have live: "unat (js_awaiting js) = js_live js" "js_live js > 0" "\<not> notify_done (js_notify js)" "0 < k"
    using assms by (auto simp: join_inv_def join_child_done_def split: if_splits)
  then have "js_awaiting js \<noteq> 0"
    by (auto simp: unat_eq_0)
  then have minus: "unat (js_awaiting js - 1) = js_live js - 1"
    using live(1) by (simp add: unat_minus_one)
  have one: "js_awaiting js = 1 \<longleftrightarrow> js_live js = 1"
    using live(1) by (simp add: word_unat_eq_iff)
  show ?thesis
  proof (cases "js_live js = 1")
    case True
    with assms(2) one obtain nf where "notify_step (Fire n) (js_notify js) = Some nf"
      "js' = js\<lparr>js_awaiting := js_awaiting js - 1, js_live := js_live js - 1, js_notify := nf\<rparr>"
      by (auto simp: join_child_done_def Let_def simp del: notify_step.simps)
    with True minus live show ?thesis
      by (auto simp: join_inv_def notify_done_def split: if_splits)
  next
    case False
    with assms one live minus show ?thesis
      by (auto simp: join_inv_def join_child_done_def Let_def)
  qed
qed

lemma join_inv_notify:
  assumes "join_inv k js" and "join_notify_step e js = Some js'"
  shows "join_inv k js'"
proof -
  obtain nf where nf: "notify_step e (js_notify js) = Some nf" "\<not> is_Fire e" and js': "js' = js\<lparr>js_notify := nf\<rparr>"
    using assms(2) by (auto simp: join_notify_step_def simp del: notify_step.simps split: if_splits)
  with assms(1) notify_step_fired [OF nf] show ?thesis
    by (simp add: join_inv_def notify_done_def)
qed

lemma join_run_inv:
  "join_inv k js \<Longrightarrow> join_run es js = Some (Inr js') \<Longrightarrow> k + join_spawns es < 2 ^ 32 \<Longrightarrow> join_inv (k + join_spawns es) js'"
proof (induction es arbitrary: k js)
  case (Cons e es)
  show ?case
  proof (cases e)
    case Join_spawn
    with Cons.prems(2) obtain js1 where "join_spawn js = Inr js1" "join_run es js1 = Some (Inr js')"
      by (auto split: sum.splits)
    with Cons.IH [of "Suc k" js1] join_inv_spawn [OF Cons.prems(1)] Cons.prems(3) Join_spawn show ?thesis by simp
  next
    case (Child_done n)
    with Cons.prems(2) obtain js1 where "join_child_done n js = Some js1" "join_run es js1 = Some (Inr js')"
      by (auto split: option.splits)
    with Cons.IH [of k js1] join_inv_child [OF Cons.prems(1)] Cons.prems(3) Child_done show ?thesis by simp
  next
    case (Join_notify f)
    with Cons.prems(2) obtain js1 where "join_notify_step f js = Some js1" "join_run es js1 = Some (Inr js')"
      by (auto split: option.splits)
    with Cons.IH [of k js1] join_inv_notify [OF Cons.prems(1)] Cons.prems(3) Join_notify show ?thesis by simp
  qed
qed simp

lemma join_run_append:
  "join_run (es @ fs) js =
     (case join_run es js of None \<Rightarrow> None | Some (Inl f) \<Rightarrow> Some (Inl f) | Some (Inr js') \<Rightarrow> join_run fs js')"
proof (induction es arbitrary: js)
  case (Cons e es)
  then show ?case by (cases e) (auto split: option.splits sum.splits)
qed simp

section \<open>The awaiters of a set\<close>

lemma join_notify_reachable:
  assumes "notify_reachable (js_notify js)"
  shows "join_child_done n js = Some js' \<Longrightarrow> notify_reachable (js_notify js')"
    and "join_notify_step e js = Some js' \<Longrightarrow> notify_reachable (js_notify js')"
    and "join_spawn js = Inr js' \<Longrightarrow> notify_reachable (js_notify js')"
  using assms
  by (auto simp: join_child_done_def join_notify_step_def join_spawn_def Let_def res_simps simp del: notify_step.simps
      split: if_splits intro: notify_reachable.step)

lemma join_run_reachable:
  "join_run es js = Some (Inr js') \<Longrightarrow> notify_reachable (js_notify js) \<Longrightarrow> notify_reachable (js_notify js')"
proof (induction es arbitrary: js)
  case (Cons e es)
  then show ?case
    by (cases e) (auto split: sum.splits option.splits dest: join_notify_reachable)
qed simp

lemma join_run_notify:
  assumes "notify_run es (js_notify js) = Some nf" and "\<And>e. e \<in> set es \<Longrightarrow> \<not> is_Fire e"
  shows "join_run (map Join_notify es) js = Some (Inr (js\<lparr>js_notify := nf\<rparr>))"
  using assms
proof (induction es arbitrary: js)
  case (Cons e es)
  then obtain nf1 where "notify_step e (js_notify js) = Some nf1" "notify_run es nf1 = Some nf"
    by (auto simp del: notify_step.simps split: option.splits)
  with Cons.IH [of "js\<lparr>js_notify := nf1\<rparr>"] Cons.prems(2) show ?case
    by (simp add: join_notify_step_def del: notify_step.simps)
qed simp

lemma walk_events_no_Fire: "e \<in> set (Exchange n # walk_events n k) \<Longrightarrow> \<not> is_Fire e"
  by (induction k) (auto simp: walk_events_Suc walk_events_def)

text \<open>Before the set fires, the suspended awaiters are those on the stack.\<close>

lemma suspended_on_stack:
  assumes "notify_reachable s" and "\<not> nf_fired s" and "chain (nf_next s) (nf_head s) xs"
  shows "nf_await s a = Suspended \<longleftrightarrow> a \<in> set xs" and "distinct xs"
proof -
  obtain ys ws where abs: "notify_abs s ys ws"
    using notify_reachable_abs [OF assms(1)] by blast
  then have c: "chain (nf_next s) (nf_head s) ys" "chain (nf_next s) (walk_from (nf_next s) (nf_notify s n)) (ws n)"
    and d: "distinct ys" for n
    by (auto simp: notify_abs_def stack_ok_def)
  have "ws n = []" for n
    using c(2) [of n] notify_idle_before_fire [OF assms(1,2), of n] by simp
  then have "nf_await s a = Suspended \<longleftrightarrow> a \<in> set ys"
    using notify_absD(2) [OF abs, of a] by (simp add: waiting_def)
  with chain_unique [OF c(1) assms(3)] d show "nf_await s a = Suspended \<longleftrightarrow> a \<in> set xs" and "distinct xs" by simp_all
qed

section \<open>Properties\<close>





text \<open>
  A child that ends early breaks the set. If all children given so far have ended before the
  next \<^verbatim>\<open>spawn\<close>, the set has already fired and that \<^verbatim>\<open>spawn\<close> aborts the program; so two spawns in a row
  abort when the first child ends in between.
\<close>

theorem join_early_end_aborts:
  assumes "join_run es JoinSet_new = Some (Inr js)" and "0 < join_spawns es" and "join_spawns es < 2 ^ 32"
    and "js_live js = 0"
  shows "join_run (es @ [Join_spawn]) JoinSet_new = Some (Inl Assert_failed)"
  using join_run_inv [OF join_inv_new assms(1)] assms
  by (simp add: join_run_append join_spawn_def join_inv_def)

theorem join_early_end_aborts_witness:
  "join_run [Join_spawn, Child_done 0, Join_spawn] JoinSet_new = Some (Inl Assert_failed)"
proof -
  obtain js where js: "join_run [Join_spawn, Child_done 0] JoinSet_new = Some (Inr js)" "js_live js = 0"
    by (simp add: JoinSet_new_def join_spawn_def join_child_done_def notify_done_def Notify_new_def)
  from join_early_end_aborts [OF js(1)] js(2) show ?thesis by simp
qed

text \<open>
  The helper of \<^verbatim>\<open>spawn\<close> can await a destroyed child. The helper \<open>p\<close> spawns the child \<open>c\<close> and then awaits
  the \<^verbatim>\<open>Notify\<close> in the frame of \<open>c\<close>; there is an execution with two workers in which \<open>c\<close> has run to its end
  and its frame is freed while the helper is still on its way from the spawn to the await.
\<close>

theorem join_awaits_freed_child:
  "\<exists>s. executor_run (Executor_new (frames_new ids))
       [Spawn 9 0, Take 0, Begin 0, Spawn 0 1, Take 1, Begin 1, Body_finishes 1, Check_done 1] (Inr s) \<and>
     ex_worker s 0 = In_body 0 \<and> cf_status (ex_frames s 1) = Freed"
proof -
  obtain s where "executor_exec [Spawn 9 0, Take 0, Begin 0, Spawn 0 1, Take 1, Begin 1, Body_finishes 1, Check_done 1]
      (Executor_new (frames_new ids)) = Some (Inr s)" "ex_worker s 0 = In_body 0" "cf_status (ex_frames s 1) = Freed"
    by (simp add: executor_run_defs Executor_new_def frames_new_def spawnable_def executor_spawn_def)
  then show ?thesis using executor_exec_run by blast
qed

end
