(* ===== verification/Toad_Sockets.thy ===== *)
theory Toad_Sockets
  imports Toad_Prelude
begin

text \<open>
  \<^verbatim>\<open>include/net/socket.hpp\<close> and \<^verbatim>\<open>include/net/listener.hpp\<close>: owners of file descriptors. The world has the objects
  that are alive, by number, with the descriptor each holds, the descriptors that are open in
  the kernel, and how often the program closed one that was not open.
\<close>

section \<open>The code\<close>

record fd_world =
  fw_objs :: "nat \<Rightarrow> int option"
  fw_open :: "int set"
  fw_bad :: nat

definition fd_close :: "int \<Rightarrow> fd_world \<Rightarrow> fd_world" where
  "fd_close fd w = (if fd \<in> fw_open w then w\<lparr>fw_open := fw_open w - {fd}\<rparr> else w\<lparr>fw_bad := fw_bad w + 1\<rparr>)"

definition fd_set :: "nat \<Rightarrow> int option \<Rightarrow> fd_world \<Rightarrow> fd_world" where
  "fd_set k v w = w\<lparr>fw_objs := (fw_objs w)(k := v)\<rparr>"

text \<open>\<^verbatim>\<open>Socket(int)\<close>\<close>

definition Socket_new :: "nat \<Rightarrow> int \<Rightarrow> fd_world \<Rightarrow> fd_world" where
  "Socket_new this sockfd w = fd_set this (Some sockfd) w"

text \<open>
  The body that the move constructor and the move assignment share. A constructor starts from
  the default \<^verbatim>\<open>_sockfd = -1\<close>.
\<close>

definition Socket_take :: "nat \<Rightarrow> nat \<Rightarrow> fd_world \<Rightarrow> fd_world" where
  "Socket_take this other w =
     (if this = other then w
      else
        let w = (if fw_objs w this \<noteq> Some (-1) then fd_close (the (fw_objs w this)) w else w);
            w = fd_set this (fw_objs w other) w
        in fd_set other (Some (-1)) w)"

definition Socket_move :: "nat \<Rightarrow> nat \<Rightarrow> fd_world \<Rightarrow> fd_world" where
  "Socket_move this other w = Socket_take this other (fd_set this (Some (-1)) w)"

definition Socket_move_assign :: "nat \<Rightarrow> nat \<Rightarrow> fd_world \<Rightarrow> fd_world" where
  "Socket_move_assign this other w = Socket_take this other w"

definition Socket_dtor :: "nat \<Rightarrow> fd_world \<Rightarrow> fd_world" where
  "Socket_dtor this w =
     (let w = (if fw_objs w this \<noteq> Some (-1) then fd_close (the (fw_objs w this)) w else w)
      in fd_set this None w)"

text \<open>
  A program that uses sockets the way C++ lets it: the kernel opens a fresh descriptor for a new
  object, live objects are moved and destroyed, and a new object stands at an unused place.
\<close>

datatype socket_op = New nat int | Move nat nat | Move_assign nat nat | Destroy nat

fun socket_op_ok :: "socket_op \<Rightarrow> fd_world \<Rightarrow> bool" where
  "socket_op_ok (New k fd) w = (fw_objs w k = None \<and> 0 \<le> fd \<and> fd \<notin> fw_open w)"
| "socket_op_ok (Move k other) w = (fw_objs w k = None \<and> fw_objs w other \<noteq> None)"
| "socket_op_ok (Move_assign k other) w = (fw_objs w k \<noteq> None \<and> fw_objs w other \<noteq> None)"
| "socket_op_ok (Destroy k) w = (fw_objs w k \<noteq> None)"

fun socket_do :: "socket_op \<Rightarrow> fd_world \<Rightarrow> fd_world" where
  "socket_do (New k fd) w = Socket_new k fd (w\<lparr>fw_open := insert fd (fw_open w)\<rparr>)"
| "socket_do (Move k other) w = Socket_move k other w"
| "socket_do (Move_assign k other) w = Socket_move_assign k other w"
| "socket_do (Destroy k) w = Socket_dtor k w"

definition fd_start :: fd_world where
  "fd_start = \<lparr>fw_objs = (\<lambda>_. None), fw_open = {}, fw_bad = 0\<rparr>"

inductive socket_reachable :: "fd_world \<Rightarrow> bool" where
  start: "socket_reachable fd_start"
| step: "socket_reachable w \<Longrightarrow> socket_op_ok e w \<Longrightarrow> socket_reachable (socket_do e w)"

section \<open>Listener\<close>

record Listener =
  ls_sockfd :: int
  ls_port :: u16

text \<open>The constructor from another listener does not initialise the port: \<open>junk\<close> is what was there.\<close>

definition Listener_move :: "u16 \<Rightarrow> Listener \<Rightarrow> Listener \<times> Listener" where
  "Listener_move junk other = (\<lparr>ls_sockfd = ls_sockfd other, ls_port = junk\<rparr>, other\<lparr>ls_sockfd := 0\<rparr>)"

definition Listener_move_assign :: "bool \<Rightarrow> Listener \<Rightarrow> Listener \<Rightarrow> Listener \<times> Listener" where
  "Listener_move_assign self_assign this other =
     (if self_assign then (this, this)
      else (this\<lparr>ls_sockfd := ls_sockfd other\<rparr>, other\<lparr>ls_sockfd := 0\<rparr>))"

text \<open>The descriptors a destructor closes.\<close>

definition Listener_dtor :: "Listener \<Rightarrow> int list" where
  "Listener_dtor l = (if ls_sockfd l \<noteq> 0 then [ls_sockfd l] else [])"

section \<open>Ownership\<close>

text \<open>The open descriptors are exactly those held by live objects, each by one object.\<close>

definition holds :: "fd_world \<Rightarrow> nat \<Rightarrow> int \<Rightarrow> bool" where
  "holds w k fd \<longleftrightarrow> fd \<noteq> -1 \<and> fw_objs w k = Some fd"

definition owned :: "fd_world \<Rightarrow> bool" where
  "owned w \<longleftrightarrow> fw_bad w = 0 \<and> (\<forall>fd. fd \<in> fw_open w \<longleftrightarrow> (\<exists>k. holds w k fd)) \<and>
     (\<forall>j k fd. holds w j fd \<longrightarrow> holds w k fd \<longrightarrow> j = k)"

lemma ownedI:
  assumes "fw_bad w = 0" and "\<And>fd. fd \<in> fw_open w \<longleftrightarrow> (\<exists>k. holds w k fd)"
    and "\<And>j k fd. holds w j fd \<Longrightarrow> holds w k fd \<Longrightarrow> j = k"
  shows "owned w"
  using assms unfolding owned_def by blast

lemma ownedD:
  assumes "owned w"
  shows "fw_bad w = 0" and "fd \<in> fw_open w \<longleftrightarrow> (\<exists>k. holds w k fd)"
    and "holds w j fd \<Longrightarrow> holds w k fd \<Longrightarrow> j = k"
  using assms unfolding owned_def by blast+

text \<open>Letting go of what an object holds, closing it if it is a descriptor.\<close>

definition release :: "nat \<Rightarrow> fd_world \<Rightarrow> fd_world" where
  "release k w = (if fw_objs w k \<noteq> Some (-1) then fd_close (the (fw_objs w k)) w else w)"

lemma release_simps [simp]: "fw_objs (release k w) = fw_objs w"
  by (simp add: release_def fd_close_def)

lemma owned_release:
  assumes "owned w" and "fw_objs w k \<noteq> None" and "v = None \<or> v = Some (-1)"
  shows "owned (fd_set k v (release k w))"
proof -
  let ?w = "fd_set k v (release k w)"
  have h: "holds ?w j x \<longleftrightarrow> j \<noteq> k \<and> holds w j x" for j x
    using assms(3) by (auto simp: holds_def fd_set_def)
  obtain fd where fd: "fw_objs w k = Some fd"
    using assms(2) by auto
  have closing: "fd = -1 \<or> fd \<in> fw_open w"
    using ownedD(2) [OF assms(1), of fd] fd by (auto simp: holds_def)
  show ?thesis
  proof (rule ownedI)
    show "fw_bad ?w = 0"
      using closing ownedD(1) [OF assms(1)] fd by (auto simp: release_def fd_close_def fd_set_def)
    show "j = i" if "holds ?w j x" "holds ?w i x" for i j x
      using that h ownedD(3) [OF assms(1)] by blast
    show "x \<in> fw_open ?w \<longleftrightarrow> (\<exists>j. holds ?w j x)" for x
    proof (cases "holds w k x")
      case True
      then have "x \<notin> fw_open ?w"
        using closing fd by (auto simp: release_def fd_close_def fd_set_def holds_def)
      moreover have "\<not> holds ?w j x" for j
        using h True ownedD(3) [OF assms(1)] by blast
      ultimately show ?thesis by blast
    next
      case False
      then have "x \<in> fw_open ?w \<longleftrightarrow> x \<in> fw_open w"
        using closing fd by (auto simp: release_def fd_close_def fd_set_def holds_def)
      then show ?thesis
        using False h ownedD(2) [OF assms(1), of x] by blast
    qed
  qed
qed

text \<open>Handing a descriptor from \<open>j\<close> to an object \<open>k\<close> that holds none.\<close>

lemma owned_transfer:
  assumes "owned w" and "fw_objs w k = None \<or> fw_objs w k = Some (-1)" and "j \<noteq> k"
  shows "owned (fd_set j (Some (-1)) (fd_set k (fw_objs w j) w))"
proof -
  let ?w = "fd_set j (Some (-1)) (fd_set k (fw_objs w j) w)"
  have h: "holds ?w i x \<longleftrightarrow> (if i = k then holds w j x else i \<noteq> j \<and> holds w i x)" for i x
    using assms(3) by (auto simp: holds_def fd_set_def)
  have k: "\<not> holds w k x" for x
    using assms(2) by (auto simp: holds_def)
  have w: "fw_bad ?w = fw_bad w" "fw_open ?w = fw_open w"
    by (simp_all add: fd_set_def)
  show ?thesis
  proof (rule ownedI)
    show "a = b" if "holds ?w a x" "holds ?w b x" for a b x
      using that h ownedD(3) [OF assms(1)] by metis
    show "x \<in> fw_open ?w \<longleftrightarrow> (\<exists>i. holds ?w i x)" for x
      using h k ownedD(2) [OF assms(1), of x] w(2) assms(3) by metis
  qed (use w ownedD(1) [OF assms(1)] in simp)
qed

lemma owned_start: "owned fd_start"
  by (rule ownedI) (simp_all add: fd_start_def holds_def)

lemma owned_take:
  assumes "owned w" and "fw_objs w k \<noteq> None"
  shows "owned (Socket_take k j w)"
proof (cases "k = j")
  case False
  have "Socket_take k j w = fd_set j (Some (-1)) (fd_set k (fw_objs (fd_set k (Some (-1)) (release k w)) j) (fd_set k (Some (-1)) (release k w)))"
    using False by (simp add: Socket_take_def Let_def release_def fd_set_def fd_close_def)
  moreover have "owned (fd_set k (Some (-1)) (release k w))"
    using assms by (intro owned_release) simp_all
  then have "owned (fd_set j (Some (-1)) (fd_set k (fw_objs (fd_set k (Some (-1)) (release k w)) j) (fd_set k (Some (-1)) (release k w))))"
    using False by (intro owned_transfer) (simp_all add: fd_set_def)
  ultimately show ?thesis by simp
qed (use assms in \<open>simp add: Socket_take_def\<close>)

lemma owned_step:
  assumes "owned w" and "socket_op_ok e w"
  shows "owned (socket_do e w)"
proof (cases e)
  case (New k fd)
  let ?w = "Socket_new k fd (w\<lparr>fw_open := insert fd (fw_open w)\<rparr>)"
  have h: "holds ?w i x \<longleftrightarrow> (if i = k then x = fd else holds w i x)" for i x
    using New assms(2) by (auto simp: holds_def Socket_new_def fd_set_def)
  have k: "\<not> holds w k x" "\<not> holds w i fd" for x i
    using New assms(2) ownedD(2) [OF assms(1), of fd] by (auto simp: holds_def)
  have "owned ?w"
  proof (rule ownedI)
    show "a = b" if "holds ?w a x" "holds ?w b x" for a b x
      using that h k ownedD(3) [OF assms(1)] by metis
    show "x \<in> fw_open ?w \<longleftrightarrow> (\<exists>i. holds ?w i x)" for x
    proof -
      have "x \<in> fw_open ?w \<longleftrightarrow> x = fd \<or> x \<in> fw_open w"
        by (simp add: Socket_new_def fd_set_def)
      then show ?thesis
        using h k ownedD(2) [OF assms(1), of x] by metis
    qed
  qed (use ownedD(1) [OF assms(1)] in \<open>simp add: Socket_new_def fd_set_def\<close>)
  with New show ?thesis by simp
next
  case (Move k j)
  have "owned (fd_set k (Some (-1)) w)"
  proof (rule ownedI)
    have h: "holds (fd_set k (Some (-1)) w) i x \<longleftrightarrow> holds w i x" for i x
      using Move assms(2) by (auto simp: holds_def fd_set_def)
    show "x \<in> fw_open (fd_set k (Some (-1)) w) \<longleftrightarrow> (\<exists>i. holds (fd_set k (Some (-1)) w) i x)" for x
      using h ownedD(2) [OF assms(1), of x] by (simp add: fd_set_def)
    show "a = b" if "holds (fd_set k (Some (-1)) w) a x" "holds (fd_set k (Some (-1)) w) b x" for a b x
      using that h ownedD(3) [OF assms(1)] by blast
  qed (use ownedD(1) [OF assms(1)] in \<open>simp add: fd_set_def\<close>)
  with Move show ?thesis
    by (simp add: Socket_move_def) (rule owned_take, simp_all add: fd_set_def)
next
  case (Move_assign k j)
  with assms show ?thesis
    by (simp add: Socket_move_assign_def owned_take)
next
  case (Destroy k)
  have "owned (fd_set k None (release k w))"
    using assms Destroy by (intro owned_release) simp_all
  with Destroy show ?thesis
    by (simp add: Socket_dtor_def release_def Let_def)
qed

lemma socket_reachable_owned: "socket_reachable w \<Longrightarrow> owned w"
  by (induction rule: socket_reachable.induct) (auto intro: owned_start owned_step)

section \<open>Properties\<close>

text \<open>
  C29: \<^verbatim>\<open>Socket\<close> neither leaks nor closes twice. However sockets are created, moved, assigned and
  destroyed, no call of \<^verbatim>\<open>close\<close> ever fails for a descriptor that is not open, every open
  descriptor is held by exactly one live socket, and when the last socket is gone nothing is open.
\<close>

theorem socket_ownership:
  assumes "socket_reachable w"
  shows "fw_bad w = 0 \<and> (fd \<in> fw_open w \<longrightarrow> (\<exists>!k. fw_objs w k = Some fd)) \<and>
     (fw_objs w = (\<lambda>_. None) \<longrightarrow> fw_open w = {})"
proof -
  have o: "owned w"
    using assms by (rule socket_reachable_owned)
  have "\<exists>!k. fw_objs w k = Some fd" if opened: "fd \<in> fw_open w"
  proof -
    obtain k where k: "holds w k fd"
      using opened ownedD(2) [OF o, of fd] by auto
    have "j = k" if "fw_objs w j = Some fd" for j
    proof -
      have "holds w j fd" using that k by (simp add: holds_def)
      then show ?thesis using k by (rule ownedD(3) [OF o])
    qed
    with k show ?thesis by (auto simp: holds_def)
  qed
  moreover have "fw_open w = {}" if "fw_objs w = (\<lambda>_. None)"
    using ownedD(2) [OF o] that by (auto simp: holds_def)
  ultimately show ?thesis
    using ownedD(1) [OF o] by blast
qed

theorem socket_ownership_witness:
  "fw_bad (socket_do (Destroy 1) (socket_do (Destroy 0) (socket_do (Move 1 0) (socket_do (New 0 5) fd_start)))) = 0"
proof -
  have "socket_reachable (socket_do (Destroy 1) (socket_do (Destroy 0) (socket_do (Move 1 0) (socket_do (New 0 5) fd_start))))"
    by (intro socket_reachable.intros)
      (simp_all add: fd_start_def Socket_new_def Socket_move_def Socket_take_def Socket_dtor_def fd_set_def Let_def)
  from socket_ownership [OF this] show ?thesis by blast
qed

text \<open>
  \<^verbatim>\<open>Listener\<close> does leak. Assigning a listener over one that holds a descriptor drops that
  descriptor without closing it: destroying both afterwards closes the new one only. Moving a
  listener loses its port.
\<close>

theorem Listener_move_assign_leaks:
  assumes "ls_sockfd a \<noteq> 0" and "ls_sockfd b \<noteq> 0" and "ls_sockfd a \<noteq> ls_sockfd b"
    and "Listener_move_assign False a b = (a', b')"
  shows "Listener_dtor a' @ Listener_dtor b' = [ls_sockfd b] \<and> ls_sockfd a \<notin> set (Listener_dtor a' @ Listener_dtor b') \<and>
     ls_port (fst (Listener_move junk b)) = junk"
  using assms by (auto simp: Listener_move_assign_def Listener_dtor_def Listener_move_def)

theorem Listener_move_assign_leaks_witness:
  "Listener_dtor (fst (Listener_move_assign False \<lparr>ls_sockfd = 3, ls_port = 80\<rparr> \<lparr>ls_sockfd = 4, ls_port = 81\<rparr>)) = [4]"
  using Listener_move_assign_leaks [of "\<lparr>ls_sockfd = 3, ls_port = 80\<rparr>" "\<lparr>ls_sockfd = 4, ls_port = 81\<rparr>"
      "\<lparr>ls_sockfd = 4, ls_port = 80\<rparr>" "\<lparr>ls_sockfd = 0, ls_port = 81\<rparr>"]
  by (simp add: Listener_move_assign_def Listener_dtor_def)

end
