(* ===== verification/Toad_Iocontext.thy ===== *)
theory Toad_Iocontext
  imports Toad_Bytestream Toad_Addr Toad_Sockets
begin

text \<open>
  \<^verbatim>\<open>include/concurrency/pending.hpp\<close> and \<^verbatim>\<open>include/concurrency/iocontext.hpp\<close>: operations submitted to io\_uring and
  what the event loop does with their completions. Futures are numbered, and resolving one is
  an output. The vectors that a read appends to belong to coroutines; the context holds
  references, so they are a store \<open>io_vecs\<close>. The arrays that \<^verbatim>\<open>submit_write_some\<close> allocates with \<^verbatim>\<open>new\<close> and
  \<^verbatim>\<open>~PendingWriteSome\<close> deletes are a store \<open>io_arrays\<close>. The kernel is a parameter: it decides which
  operations complete, with which result and which data.
\<close>

section \<open>Pending operations\<close>

datatype PendingVariant =
    PendingReadSome int nat Buffer
  | PendingListen int nat
  | PendingConnect int "u16 \<times> IPv4" nat
  | PendingWriteSome int "nat option"
  | PendingReadSomeVec int nat nat sz

text \<open>
  The moves and the destructor of \<^verbatim>\<open>PendingWriteSome\<close>, which owns its array; the pointer is the address
  of an array or null. The move assignment does not delete the array it overwrites.
\<close>

definition PendingWriteSome_move :: "int \<times> nat option \<Rightarrow> (int \<times> nat option) \<times> (int \<times> nat option)" where
  "PendingWriteSome_move = (\<lambda>(sockfd, buffer). ((sockfd, buffer), (sockfd, None)))"

definition PendingWriteSome_move_assign ::
  "bool \<Rightarrow> int \<times> nat option \<Rightarrow> int \<times> nat option \<Rightarrow> (int \<times> nat option) \<times> (int \<times> nat option)" where
  "PendingWriteSome_move_assign self_assign this pw =
     (if self_assign then (this, this) else ((fst pw, snd pw), (fst pw, None)))"

definition PendingWriteSome_dtor :: "nat option \<Rightarrow> (nat \<Rightarrow> u8 list option) \<Rightarrow> (nat \<Rightarrow> u8 list option) res" where
  "PendingWriteSome_dtor buffer arrays =
     (case buffer of
        None \<Rightarrow> Inr arrays
      | Some a \<Rightarrow> if arrays a \<noteq> None then Inr (arrays(a := None)) else Inl Undefined_behaviour)"

text \<open>The entries of the submission queue.\<close>

datatype sqe =
    Sqe_accept int
  | Sqe_connect int "u16 \<times> IPv4"
  | Sqe_read_buffer int Buffer sz
  | Sqe_read_vec int nat sz sz
  | Sqe_write int nat sz

datatype resolution =
    Set_socket nat int
  | Set_opt_socket nat "int option"
  | Set_opt_buffer nat "Buffer option"
  | Set_size nat sz

record IOContext =
  io_entries :: nat
  io_sq :: "(sqe \<times> nat) list"
  io_flight :: "nat list"
  io_heap :: "nat \<Rightarrow> PendingVariant option"
  io_next :: nat
  io_future :: nat
  io_mem :: mem
  io_vecs :: "nat \<Rightarrow> u8 list"
  io_arrays :: "nat \<Rightarrow> u8 list option"
  io_next_array :: nat

definition IOContext_new :: "nat \<Rightarrow> mem \<Rightarrow> (nat \<Rightarrow> u8 list) \<Rightarrow> IOContext" where
  "IOContext_new entries m vecs = \<lparr>io_entries = entries, io_sq = [], io_flight = [], io_heap = (\<lambda>_. None), io_next = 0,
     io_future = 0, io_mem = m, io_vecs = vecs, io_arrays = (\<lambda>_. None), io_next_array = 0\<rparr>"

text \<open>The constructor: \<open>ret\<close> is the result of \<^verbatim>\<open>io_uring_queue_init\<close>.\<close>

definition IOContext_init :: "int \<Rightarrow> nat \<Rightarrow> mem \<Rightarrow> (nat \<Rightarrow> u8 list) \<Rightarrow> IOContext res" where
  "IOContext_init ret entries m vecs = ASSERT (\<not> ret < 0) (Inr (IOContext_new entries m vecs))"

text \<open>
  The destructor: \<^verbatim>\<open>io_uring_queue_exit\<close> unmaps the ring with all entries of its queues. The operations that the
  entries point to are on the heap and stay.
\<close>

definition IOContext_dtor :: "IOContext \<Rightarrow> IOContext" where
  "IOContext_dtor io = io\<lparr>io_sq := [], io_flight := []\<rparr>"

text \<open>\<^verbatim>\<open>new_listener\<close>, with the results of \<^verbatim>\<open>socket\<close>, \<^verbatim>\<open>bind\<close> and \<^verbatim>\<open>listen\<close>.\<close>

definition new_listener :: "int \<Rightarrow> int \<Rightarrow> int \<Rightarrow> u16 \<Rightarrow> Listener res" where
  "new_listener sockfd bind_res listen_res port =
     ASSERT (\<not> bind_res < 0) (ASSERT (\<not> listen_res < 0) (Inr \<lparr>ls_sockfd = sockfd, ls_port = port\<rparr>))"

section \<open>Submission\<close>

text \<open>
  \<^verbatim>\<open>new PendingVariant\<close> and \<^verbatim>\<open>io_uring_get_sqe\<close> with the writes through its result, which is null when the
  submission queue is full.
\<close>

definition io_push :: "PendingVariant \<Rightarrow> sqe \<Rightarrow> IOContext \<Rightarrow> IOContext res" where
  "io_push pending e io =
     (let p = io_next io; io = io\<lparr>io_heap := (io_heap io)(p := Some pending), io_next := p + 1\<rparr>
      in if length (io_sq io) < io_entries io then Inr (io\<lparr>io_sq := io_sq io @ [(e, p)]\<rparr>) else Inl Undefined_behaviour)"

text \<open>The same after \<^verbatim>\<open>make_future\<close>, with the number of the future.\<close>

definition io_submit :: "(nat \<Rightarrow> PendingVariant) \<Rightarrow> sqe \<Rightarrow> IOContext \<Rightarrow> (IOContext \<times> nat) res" where
  "io_submit pending e io =
     (let handle = io_future io
      in rbind (io_push (pending handle) e (io\<lparr>io_future := handle + 1\<rparr>)) (\<lambda>io. Inr (io, handle)))"

definition submit_accept_ipv4 :: "int \<Rightarrow> IOContext \<Rightarrow> (IOContext \<times> nat) res" where
  "submit_accept_ipv4 sockfd io = io_submit (\<lambda>h. PendingListen sockfd h) (Sqe_accept sockfd) io"

text \<open>\<^verbatim>\<open>_submit_connect\<close>; \<open>sockfd\<close> is what \<^verbatim>\<open>socket\<close> returned.\<close>

definition submit_connect :: "int \<Rightarrow> u16 \<times> IPv4 \<Rightarrow> IOContext \<Rightarrow> (IOContext \<times> nat) res" where
  "submit_connect sockfd addr io = io_submit (\<lambda>h. PendingConnect sockfd addr h) (Sqe_connect sockfd addr) io"

text \<open>The port is stored in network order, most significant byte first.\<close>

definition htons :: "u16 \<Rightarrow> u16" where
  "htons v = be16 (lo8 v) (hi8 v)"

definition submit_connect_ipv4 :: "int \<Rightarrow> IPv4 \<Rightarrow> u16 \<Rightarrow> IOContext \<Rightarrow> (IOContext \<times> nat) res" where
  "submit_connect_ipv4 sockfd ip port io = submit_connect sockfd (htons port, ip) io"

definition submit_read_some :: "int \<Rightarrow> sz \<Rightarrow> IOContext \<Rightarrow> (IOContext \<times> nat) res" where
  "submit_read_some sockfd max_size io =
     (let (m, buffer) = Buffer_sized (io_mem io) max_size
      in io_submit (\<lambda>h. PendingReadSome sockfd h buffer) (Sqe_read_buffer sockfd buffer max_size) (io\<lparr>io_mem := m\<rparr>))"

text \<open>The \<^verbatim>\<open>resize\<close> comes before the first write through the entry.\<close>

definition submit_read_some_vec :: "int \<Rightarrow> nat \<Rightarrow> sz \<Rightarrow> IOContext \<Rightarrow> (IOContext \<times> nat) res" where
  "submit_read_some_vec sockfd vec max_size io =
     (let initial_size = of_nat (length (io_vecs io vec)) in
      rbind (vector_resize (io_vecs io vec) (initial_size + max_size)) (\<lambda>v.
      io_submit (\<lambda>h. PendingReadSomeVec sockfd h vec initial_size) (Sqe_read_vec sockfd vec initial_size max_size)
        (io\<lparr>io_vecs := (io_vecs io)(vec := v)\<rparr>)))"

text \<open>
  The array is copied, a temporary \<^verbatim>\<open>PendingWriteSome\<close> takes it, is moved into the variant on the heap and
  destroyed.
\<close>

definition submit_write_some :: "int \<Rightarrow> u8 list \<Rightarrow> IOContext \<Rightarrow> IOContext res" where
  "submit_write_some sockfd buffer io =
     (let buf = io_next_array io;
          arrays = (io_arrays io)(buf := Some buffer);
          ((fd, b), temporary) = PendingWriteSome_move (sockfd, Some buf)
      in rbind (PendingWriteSome_dtor (snd temporary) arrays) (\<lambda>arrays.
         io_push (PendingWriteSome fd b) (Sqe_write sockfd buf (of_nat (length buffer)))
           (io\<lparr>io_arrays := arrays, io_next_array := buf + 1\<rparr>)))"

section \<open>Completion\<close>

text \<open>The data the kernel put into the target of a read before it posted the completion.\<close>

definition kernel_store :: "PendingVariant \<Rightarrow> u8 list \<Rightarrow> IOContext \<Rightarrow> IOContext" where
  "kernel_store p data io =
     (case p of
        PendingReadSome fd h b \<Rightarrow>
          (case mem_store (io_mem io) (buf_shared b) (unat (buf_offset b)) data of
             None \<Rightarrow> io | Some m \<Rightarrow> io\<lparr>io_mem := m\<rparr>)
      | PendingReadSomeVec fd h vec i \<Rightarrow>
          io\<lparr>io_vecs := (io_vecs io)(vec := overwrite (io_vecs io vec) (unat i) data)\<rparr>
      | _ \<Rightarrow> io)"

text \<open>
  The five overloads of \<^verbatim>\<open>_handle_pending\<close>. The result of a completion is a 32-bit \<^verbatim>\<open>int\<close>; where the code
  uses it as a size it is converted to 64 bits unsigned.
\<close>

definition handle_pending :: "PendingVariant \<Rightarrow> int \<Rightarrow> IOContext \<Rightarrow> (IOContext \<times> resolution list) res" where
  "handle_pending p cqe_res io =
     (case p of
        PendingConnect sockfd addr h \<Rightarrow>
          Inr (io, [Set_opt_socket h (if cqe_res < 0 then None else Some sockfd)])
      | PendingReadSome sockfd h b \<Rightarrow>
          Inr (io, [Set_opt_buffer h (if cqe_res = 0 then None else Some (slice_to b (of_int cqe_res)))])
      | PendingReadSomeVec sockfd h vec initial_size \<Rightarrow>
          if cqe_res < 0 \<and> cqe_res = -104 then Inr (io, [])
          else
            rbind (vector_resize (io_vecs io vec) (initial_size + of_int cqe_res)) (\<lambda>v.
            Inr (io\<lparr>io_vecs := (io_vecs io)(vec := v)\<rparr>, [Set_size h (of_int cqe_res)]))
      | PendingListen sockfd h \<Rightarrow> Inr (io, [Set_socket h cqe_res])
      | PendingWriteSome sockfd b \<Rightarrow> Inr (io, []))"

text \<open>\<^verbatim>\<open>delete pending\<close>\<close>

definition delete_pending :: "nat \<Rightarrow> PendingVariant \<Rightarrow> IOContext \<Rightarrow> IOContext res" where
  "delete_pending user_data p io =
     rbind (case p of PendingWriteSome sockfd b \<Rightarrow> PendingWriteSome_dtor b (io_arrays io) | _ \<Rightarrow> Inr (io_arrays io)) (\<lambda>arrays.
     Inr (io\<lparr>io_heap := (io_heap io)(user_data := None), io_arrays := arrays\<rparr>))"

text \<open>
  The body of the loop of \<^verbatim>\<open>event_loop\<close> over the completions: dereference the pending operation, handle
  it, delete it, since no handler asks to keep it.
\<close>

definition complete_one :: "nat \<times> int \<times> u8 list \<Rightarrow> IOContext \<Rightarrow> (IOContext \<times> resolution list) res" where
  "complete_one = (\<lambda>(user_data, cqe_res, data) io.
     (case io_heap io user_data of
        None \<Rightarrow> Inl Undefined_behaviour
      | Some p \<Rightarrow>
          let io = kernel_store p data (io\<lparr>io_flight := remove1 user_data (io_flight io)\<rparr>)
          in rbind (handle_pending p cqe_res io) (\<lambda>(io, rs).
             rbind (delete_pending user_data p io) (\<lambda>io. Inr (io, rs)))))"

fun complete_batch :: "(nat \<times> int \<times> u8 list) list \<Rightarrow> IOContext \<Rightarrow> (IOContext \<times> resolution list) res" where
  "complete_batch [] io = Inr (io, [])"
| "complete_batch (c # cs) io =
     rbind (complete_one c io) (\<lambda>(io, rs).
     rbind (complete_batch cs io) (\<lambda>(io, rs'). Inr (io, rs @ rs')))"

text \<open>\<^verbatim>\<open>io_uring_submit\<close>\<close>

definition io_flush :: "IOContext \<Rightarrow> IOContext" where
  "io_flush io = io\<lparr>io_flight := io_flight io @ map snd (io_sq io), io_sq := []\<rparr>"

text \<open>
  The loop itself, over what \<^verbatim>\<open>io_uring_wait_cqe_timeout\<close> and \<^verbatim>\<open>io_uring_peek_batch_cqe\<close> answer in each round: a
  timeout goes on, an error leaves the loop, completions are handled in order.
\<close>

datatype wait_answer = Timeout | Wait_error | Completions "(nat \<times> int \<times> u8 list) list"

fun event_loop :: "wait_answer list \<Rightarrow> IOContext \<Rightarrow> (IOContext \<times> resolution list) res" where
  "event_loop [] io = Inr (io, [])"
| "event_loop (Timeout # ws) io = event_loop ws (io_flush io)"
| "event_loop (Wait_error # ws) io = Inr (io_flush io, [])"
| "event_loop (Completions cs # ws) io =
     rbind (complete_batch cs (io_flush io)) (\<lambda>(io, rs).
     rbind (event_loop ws io) (\<lambda>(io, rs'). Inr (io, rs @ rs')))"

section \<open>Sizes\<close>

lemma of_int_length: "of_int (int n) = (of_nat n :: sz)"
  by simp

lemma unat_neg_res:
  assumes "r < 0" and "- (2 ^ 31) \<le> r"
  shows "unat (of_int r :: sz) = 2 ^ 64 - nat (- r)"
proof -
  have "uint (of_int r :: sz) = r mod 2 ^ 64"
    by (simp add: uint_word_of_int_eq take_bit_eq_mod flip: of_int_of_nat_eq)
  also have "\<dots> = (r + 2 ^ 64) mod 2 ^ 64"
    by simp
  also have "\<dots> = r + 2 ^ 64"
    using assms by (intro mod_pos_pos_trivial) simp_all
  finally show ?thesis
    using assms by (simp add: unat_eq_nat_uint nat_diff_distrib)
qed

lemma buffer_store_start:
  assumes "buffer_ok (m, b)" and "length xs \<le> unat (buf_size b)"
  shows "\<exists>m'. mem_store m (buf_shared b) (unat (buf_offset b)) xs = Some m' \<and> buffer_ok (m', b) \<and>
     buffer_bytes (m', b) = xs @ drop (length xs) (buffer_bytes (m, b))"
  using buffer_store [OF assms(1), of 0 xs] assms(2) by (simp add: overwrite_def)

text \<open>What a submitted read into a vector leaves, before its completion.\<close>

lemma submit_read_some_vec_state:
  assumes "submit_read_some_vec fd vec n io = Inr (io1, h)"
    and "length (io_vecs io vec) + unat n < 2 ^ 63"
  shows "io_heap io1 (io_next io) = Some (PendingReadSomeVec fd h vec (of_nat (length (io_vecs io vec))))"
    and "io_vecs io1 vec = io_vecs io vec @ replicate (unat n) 0"
proof -
  let ?v = "io_vecs io vec"
  have sum: "unat (of_nat (length ?v) + n :: sz) = length ?v + unat n"
    using assms(2) unat_add_small [of "of_nat (length ?v)" n] by (simp add: unat_of_nat_64)
  have v: "vector_resize ?v (of_nat (length ?v) + n) = Inr (?v @ replicate (unat n) 0)"
    using assms(2) by (simp add: vector_resize_def vector_max_size_def sum)
  have io1: "io_submit (\<lambda>h. PendingReadSomeVec fd h vec (of_nat (length ?v))) (Sqe_read_vec fd vec (of_nat (length ?v)) n)
      (io\<lparr>io_vecs := (io_vecs io)(vec := ?v @ replicate (unat n) 0)\<rparr>) = Inr (io1, h)"
    using assms(1) by (simp add: submit_read_some_vec_def Let_def v)
  then show "io_heap io1 (io_next io) = Some (PendingReadSomeVec fd h vec (of_nat (length ?v)))"
    and "io_vecs io1 vec = ?v @ replicate (unat n) 0"
    by (auto simp: io_submit_def io_push_def Let_def rbind_eq_Inr split: if_splits)
qed

section \<open>Live operations\<close>

text \<open>
  The operations on the heap are exactly those in the submission queue or in the hands of the
  kernel, each once.
\<close>

definition io_names :: "IOContext \<Rightarrow> nat list" where
  "io_names io = map snd (io_sq io) @ io_flight io"

definition holds_array :: "IOContext \<Rightarrow> nat \<Rightarrow> nat \<Rightarrow> bool" where
  "holds_array io p a \<longleftrightarrow> (\<exists>fd. io_heap io p = Some (PendingWriteSome fd (Some a)))"

definition io_inv :: "IOContext \<Rightarrow> bool" where
  "io_inv io \<longleftrightarrow> distinct (io_names io) \<and> {p. io_heap io p \<noteq> None} = set (io_names io) \<and>
     (\<forall>p. p \<in> set (io_names io) \<longrightarrow> p < io_next io)"

text \<open>The arrays alive are exactly those that a live write holds, each held by one.\<close>

definition arrays_ok :: "IOContext \<Rightarrow> bool" where
  "arrays_ok io \<longleftrightarrow> (\<forall>a. io_arrays io a \<noteq> None \<longleftrightarrow> (\<exists>p. holds_array io p a)) \<and>
     (\<forall>p q a. holds_array io p a \<longrightarrow> holds_array io q a \<longrightarrow> p = q) \<and>
     (\<forall>a. io_arrays io a \<noteq> None \<longrightarrow> a < io_next_array io)"

lemma arrays_okD:
  assumes "arrays_ok io"
  shows "io_arrays io a \<noteq> None \<longleftrightarrow> (\<exists>p. holds_array io p a)" and "holds_array io p a \<Longrightarrow> holds_array io q a \<Longrightarrow> p = q"
    and "io_arrays io a \<noteq> None \<Longrightarrow> a < io_next_array io"
  using assms unfolding arrays_ok_def by blast+

lemma arrays_fresh: "arrays_ok io \<Longrightarrow> io_arrays io (io_next_array io) = None"
  using arrays_okD(3) [of io "io_next_array io"] by (cases "io_arrays io (io_next_array io)") auto

text \<open>What threads do to the context: submit an operation, flush, complete one the kernel has.\<close>

datatype io_event = Submit_accept int | Submit_connect int IPv4 u16 | Submit_read int sz | Submit_read_vec int nat sz
  | Submit_write int "u8 list" | Flush | Complete nat int "u8 list"

fun io_step :: "io_event \<Rightarrow> IOContext \<Rightarrow> IOContext res option" where
  "io_step (Submit_accept fd) io = Some (rbind (submit_accept_ipv4 fd io) (\<lambda>(io, h). Inr io))"
| "io_step (Submit_connect fd ip port) io = Some (rbind (submit_connect_ipv4 fd ip port io) (\<lambda>(io, h). Inr io))"
| "io_step (Submit_read fd n) io = Some (rbind (submit_read_some fd n io) (\<lambda>(io, h). Inr io))"
| "io_step (Submit_read_vec fd vec n) io = Some (rbind (submit_read_some_vec fd vec n io) (\<lambda>(io, h). Inr io))"
| "io_step (Submit_write fd bs) io = Some (submit_write_some fd bs io)"
| "io_step Flush io = Some (Inr (io_flush io))"
| "io_step (Complete p r data) io =
     (if p \<in> set (io_flight io) then Some (rbind (complete_one (p, r, data) io) (\<lambda>(io, rs). Inr io)) else None)"

inductive io_reachable :: "nat \<Rightarrow> IOContext \<Rightarrow> bool" for n where
  start: "io_reachable n (IOContext_new n m vecs)"
| step: "io_reachable n io \<Longrightarrow> io_step e io = Some (Inr io') \<Longrightarrow> io_reachable n io'"

subsection \<open>Submission\<close>

text \<open>Two contexts with the same operations, whatever their buffers and vectors hold.\<close>

definition same_ops :: "IOContext \<Rightarrow> IOContext \<Rightarrow> bool" where
  "same_ops io1 io \<longleftrightarrow> io_heap io1 = io_heap io \<and> io_sq io1 = io_sq io \<and> io_flight io1 = io_flight io \<and> io_next io1 = io_next io \<and>
     io_arrays io1 = io_arrays io \<and> io_next_array io1 = io_next_array io \<and> io_entries io1 = io_entries io"

lemma same_ops_inv: "same_ops io1 io \<Longrightarrow> io_inv io \<Longrightarrow> io_inv io1"
  by (simp add: same_ops_def io_inv_def io_names_def)

lemma same_ops_arrays: "same_ops io1 io \<Longrightarrow> arrays_ok io \<Longrightarrow> arrays_ok io1"
  by (simp add: same_ops_def arrays_ok_def holds_array_def)

fun is_write :: "PendingVariant \<Rightarrow> bool" where
  "is_write (PendingWriteSome fd b) = True"
| "is_write _ = False"

fun is_submit :: "io_event \<Rightarrow> bool" where
  "is_submit (Submit_write fd bs) = False"
| "is_submit Flush = False"
| "is_submit (Complete p r d) = False"
| "is_submit _ = True"

text \<open>Every submission but a write is one push on such a context.\<close>

lemma io_submit_push:
  assumes "io_submit pending e io = Inr (io', h)"
  shows "\<exists>io1. io_push (pending h) e io1 = Inr io' \<and> same_ops io1 io"
  using assms by (auto simp: io_submit_def Let_def rbind_eq_Inr same_ops_def)

lemma submit_push:
  assumes "io_step e io = Some (Inr io')" and "is_submit e"
  shows "\<exists>io1 p q. io_push p q io1 = Inr io' \<and> same_ops io1 io \<and> \<not> is_write p"
proof -
  obtain pending q io0 h where "io_submit pending q io0 = Inr (io', h)" "same_ops io0 io" "\<not> is_write (pending h)"
    using assms
  proof (cases e)
    case (Submit_read fd n)
    with assms(1) that show ?thesis
      by (auto simp: submit_read_some_def Let_def case_prod_beta rbind_eq_Inr same_ops_def)
  next
    case (Submit_read_vec fd vec n)
    with assms(1) that show ?thesis
      by (auto simp: submit_read_some_vec_def Let_def rbind_eq_Inr same_ops_def)
  qed (auto simp: submit_accept_ipv4_def submit_connect_ipv4_def submit_connect_def rbind_eq_Inr same_ops_def)
  with io_submit_push [OF this(1)] show ?thesis
    by (fastforce simp: same_ops_def)
qed

lemma io_push_state:
  assumes "io_push p e io = Inr io'"
  shows "io_heap io' = (io_heap io)(io_next io := Some p)" "io_next io' = Suc (io_next io)"
      "io_sq io' = io_sq io @ [(e, io_next io)]" "io_flight io' = io_flight io" "io_arrays io' = io_arrays io"
      "io_next_array io' = io_next_array io"
  using assms by (auto simp: io_push_def Let_def split: if_splits)

lemma io_inv_fresh: "io_inv io \<Longrightarrow> io_next io \<notin> set (io_names io) \<and> io_heap io (io_next io) = None"
  by (auto simp: io_inv_def)

lemma io_inv_push:
  assumes inv: "io_inv io" and "io_push p e io = Inr io'"
  shows "io_inv io'"
proof -
  note io' = io_push_state [OF assms(2)]
  have names: "set (io_names io') = insert (io_next io) (set (io_names io))"
    by (auto simp: io_names_def io')
  have "distinct (io_names io')"
    using inv io_inv_fresh [OF inv] by (auto simp: io_names_def io' io_inv_def)
  moreover have "{q. io_heap io' q \<noteq> None} = insert (io_next io) {q. io_heap io q \<noteq> None}"
    by (auto simp: io')
  ultimately show ?thesis
    using inv names by (simp add: io_inv_def io'(2) less_Suc_eq)
qed

lemma arrays_ok_push:
  assumes "io_inv io" and "arrays_ok io" and "io_push p e io = Inr io'" and "\<not> is_write p"
  shows "arrays_ok io'"
proof -
  have "holds_array io' q a \<longleftrightarrow> holds_array io q a" for q a
    using io_inv_fresh [OF assms(1)] assms(4) by (cases p) (auto simp: holds_array_def io_push_state [OF assms(3)])
  then show ?thesis
    using assms(2) by (simp add: arrays_ok_def io_push_state [OF assms(3)])
qed

text \<open>A write is a push after its array was allocated; the temporary holds nothing any more.\<close>

lemma submit_write_push:
  "submit_write_some fd bs io =
     io_push (PendingWriteSome fd (Some (io_next_array io))) (Sqe_write fd (io_next_array io) (of_nat (length bs)))
       (io\<lparr>io_arrays := (io_arrays io)(io_next_array io := Some bs), io_next_array := io_next_array io + 1\<rparr>)"
  by (simp add: submit_write_some_def PendingWriteSome_move_def PendingWriteSome_dtor_def Let_def)

lemma io_inv_write: "io_inv io \<Longrightarrow> submit_write_some fd bs io = Inr io' \<Longrightarrow> io_inv io'"
  unfolding submit_write_push by (erule io_inv_push [rotated]) (simp add: io_inv_def io_names_def)

lemma arrays_ok_write:
  assumes "io_inv io" and "arrays_ok io" and "submit_write_some fd bs io = Inr io'"
  shows "arrays_ok io'"
proof -
  note io' = io_push_state [OF assms(3) [unfolded submit_write_push]]
  note new = arrays_fresh [OF assms(2)]
  have h: "holds_array io' q a \<longleftrightarrow> (if q = io_next io then a = io_next_array io else holds_array io q a)" for q a
    by (auto simp: holds_array_def io')
  have none: "\<not> holds_array io q (io_next_array io)" "\<not> holds_array io (io_next io) a" for q a
    using new arrays_okD(1) [OF assms(2), of "io_next_array io"] io_inv_fresh [OF assms(1)] by (auto simp: holds_array_def)
  have "io_arrays io' a \<noteq> None \<longleftrightarrow> (\<exists>q. holds_array io' q a)" for a
    unfolding h io'(5) using arrays_okD(1) [OF assms(2), of a] none by (cases "a = io_next_array io") (auto, metis)
  moreover have "p = q" if "holds_array io' p a" "holds_array io' q a" for p q a
    using that arrays_okD(2) [OF assms(2), of p a q] none by (auto simp: h split: if_splits)
  moreover have "a < io_next_array io'" if "io_arrays io' a \<noteq> None" for a
    using that arrays_okD(3) [OF assms(2), of a] by (auto simp: io' split: if_splits)
  ultimately show ?thesis
    unfolding arrays_ok_def by blast
qed

subsection \<open>Completion\<close>

lemma kernel_store_frame [simp]:
  "same_ops (kernel_store p d io) io1 \<longleftrightarrow> same_ops io io1"
  by (auto simp: kernel_store_def same_ops_def split: PendingVariant.splits option.splits)

lemma handle_pending_frame: "handle_pending p r io = Inr (io', rs) \<Longrightarrow> same_ops io' io"
  by (auto simp: handle_pending_def rbind_eq_Inr same_ops_def split: PendingVariant.splits if_splits)

lemma handle_stored_frame: "handle_pending p r (kernel_store p data io) = Inr (io', rs) \<Longrightarrow> same_ops io' io"
  using handle_pending_frame [of p r "kernel_store p data io"] kernel_store_frame [of p data io io] by (auto simp: same_ops_def)

lemma handle_pending_no_ub: "handle_pending p r io \<noteq> Inl Undefined_behaviour"
  by (cases p) (simp_all add: handle_pending_def vector_resize_def)

text \<open>The arrays a deleted operation leaves.\<close>

fun without_array :: "PendingVariant \<Rightarrow> (nat \<Rightarrow> u8 list option) \<Rightarrow> nat \<Rightarrow> u8 list option" where
  "without_array (PendingWriteSome fd (Some a)) arrays = arrays(a := None)"
| "without_array _ arrays = arrays"

lemma delete_pending_no_array [simp]:
  "\<not> is_write p \<Longrightarrow> delete_pending u p io = Inr (io\<lparr>io_heap := (io_heap io)(u := None)\<rparr>)"
  by (cases p) (simp_all add: delete_pending_def)

lemma delete_pending_eq:
  assumes "\<And>fd a. p = PendingWriteSome fd (Some a) \<Longrightarrow> io_arrays io a \<noteq> None"
  shows "delete_pending u p io = Inr (io\<lparr>io_heap := (io_heap io)(u := None), io_arrays := without_array p (io_arrays io)\<rparr>)"
  using assms by (cases "(p, io_arrays io)" rule: without_array.cases) (auto simp: delete_pending_def PendingWriteSome_dtor_def)

lemma complete_one_frame:
  assumes "arrays_ok io" and "io_heap io u = Some p" and "complete_one (u, r, data) io = Inr (io', rs)"
  shows "io_heap io' = (io_heap io)(u := None)" "io_sq io' = io_sq io" "io_flight io' = remove1 u (io_flight io)"
    "io_next io' = io_next io" "io_arrays io' = without_array p (io_arrays io)" "io_next_array io' = io_next_array io"
proof -
  obtain io1 where io1: "handle_pending p r (kernel_store p data (io\<lparr>io_flight := remove1 u (io_flight io)\<rparr>)) = Inr (io1, rs)"
    and io': "delete_pending u p io1 = Inr io'"
    using assms(2,3) by (auto simp: complete_one_def Let_def rbind_eq_Inr)
  have same: "same_ops io1 (io\<lparr>io_flight := remove1 u (io_flight io)\<rparr>)"
    using io1 by (rule handle_stored_frame)
  have "io_arrays io1 a \<noteq> None" if "p = PendingWriteSome fd (Some a)" for fd a
    using arrays_okD(1) [OF assms(1), of a] assms(2) same that by (auto simp: holds_array_def same_ops_def)
  from delete_pending_eq [OF this] io' same show "io_heap io' = (io_heap io)(u := None)" "io_sq io' = io_sq io"
    "io_flight io' = remove1 u (io_flight io)" "io_next io' = io_next io" "io_arrays io' = without_array p (io_arrays io)"
    "io_next_array io' = io_next_array io"
    by (auto simp: same_ops_def)
qed

lemma complete_one_no_ub:
  assumes "arrays_ok io" and "io_heap io u = Some p"
  shows "complete_one (u, r, data) io \<noteq> Inl Undefined_behaviour"
proof -
  let ?io = "kernel_store p data (io\<lparr>io_flight := remove1 u (io_flight io)\<rparr>)"
  have "delete_pending u p io1 \<noteq> Inl Undefined_behaviour" if "handle_pending p r ?io = Inr (io1, rs)" for io1 rs
  proof -
    have "same_ops io1 (io\<lparr>io_flight := remove1 u (io_flight io)\<rparr>)"
      using that by (rule handle_stored_frame)
    then have "io_arrays io1 a \<noteq> None" if "p = PendingWriteSome fd (Some a)" for fd a
      using arrays_okD(1) [OF assms(1), of a] assms(2) that by (auto simp: holds_array_def same_ops_def)
    from delete_pending_eq [OF this] show ?thesis by simp
  qed
  then show ?thesis
    using assms(2) handle_pending_no_ub by (auto simp: complete_one_def Let_def rbind_eq_Inl)
qed

lemma io_inv_flush: "io_inv io \<Longrightarrow> io_inv (io_flush io)"
  by (auto simp: io_inv_def io_names_def io_flush_def)

lemma arrays_ok_flush: "arrays_ok io \<Longrightarrow> arrays_ok (io_flush io)"
  by (simp add: arrays_ok_def holds_array_def io_flush_def)

lemma flight_live: "io_inv io \<Longrightarrow> p \<in> set (io_flight io) \<Longrightarrow> \<exists>q. io_heap io p = Some q"
  by (auto simp: io_inv_def io_names_def)

lemma io_inv_complete:
  assumes inv: "io_inv io" "arrays_ok io" and fl: "p \<in> set (io_flight io)" and "complete_one (p, r, data) io = Inr (io', rs)"
  shows "io_inv io'"
proof -
  obtain q where "io_heap io p = Some q"
    using flight_live [OF inv(1) fl] by blast
  note io' = complete_one_frame [OF inv(2) this assms(4)]
  have d: "distinct (map snd (io_sq io) @ io_flight io)"
    using inv(1) by (simp add: io_inv_def io_names_def)
  then have n: "set (io_names io') = set (io_names io) - {p}"
    using fl by (auto simp: io_names_def io'(2,3) set_remove1_eq)
  moreover have "{q. io_heap io' q \<noteq> None} = {q. io_heap io q \<noteq> None} - {p}"
    by (auto simp: io'(1))
  ultimately have "{q. io_heap io' q \<noteq> None} = set (io_names io')"
    using inv(1) by (simp add: io_inv_def)
  moreover have "distinct (io_names io')"
    using d by (auto simp: io_names_def io'(2,3) dest: notin_set_remove1)
  ultimately show ?thesis
    using inv(1) n by (simp add: io_inv_def io'(4))
qed

lemma arrays_ok_complete:
  assumes ok: "arrays_ok io" and q: "io_heap io p = Some q" and "complete_one (p, r, data) io = Inr (io', rs)"
  shows "arrays_ok io'"
proof -
  note io' = complete_one_frame [OF ok q assms(3)]
  have h: "holds_array io' k a \<longleftrightarrow> k \<noteq> p \<and> holds_array io k a" for k a
    by (auto simp: holds_array_def io')
  have arr: "io_arrays io' a = (if holds_array io p a then None else io_arrays io a)" for a
    using q by (cases "(q, io_arrays io)" rule: without_array.cases) (auto simp: holds_array_def io')
  have "io_arrays io' a \<noteq> None \<longleftrightarrow> (\<exists>k. holds_array io' k a)" for a
    unfolding arr h using arrays_okD(1,2) [OF ok] by (metis (no_types))
  moreover have "a < io_next_array io'" if "io_arrays io' a \<noteq> None" for a
    using that arrays_okD(3) [OF ok, of a] unfolding arr io'(6) by (simp split: if_splits)
  ultimately show ?thesis
    using arrays_okD(2) [OF ok] unfolding arrays_ok_def h by blast
qed

lemma io_step_inv:
  assumes "io_inv io" and "arrays_ok io" and "io_step e io = Some (Inr io')"
  shows "io_inv io' \<and> arrays_ok io'"
proof (cases "is_submit e")
  case True
  with submit_push [OF assms(3)] obtain io1 p q where "io_push p q io1 = Inr io'" "same_ops io1 io" "\<not> is_write p"
    by blast
  with assms(1,2) same_ops_inv same_ops_arrays io_inv_push arrays_ok_push show ?thesis by blast
next
  case False
  then show ?thesis
  proof (cases e)
    case (Complete p r data)
    with assms flight_live [OF assms(1), of p] show ?thesis
      by (auto simp: rbind_eq_Inr split: if_splits intro: io_inv_complete arrays_ok_complete)
  next
    case (Submit_write fd bs)
    with assms io_inv_write arrays_ok_write show ?thesis by auto
  qed (use assms io_inv_flush arrays_ok_flush in auto)
qed

lemma io_reachable_inv: "io_reachable n io \<Longrightarrow> io_inv io \<and> arrays_ok io"
proof (induction rule: io_reachable.induct)
  case (start m vecs)
  show ?case by (simp add: io_inv_def io_names_def arrays_ok_def holds_array_def IOContext_new_def)
next
  case (step io e io')
  then show ?case using io_step_inv by blast
qed

text \<open>A step keeps a live write and its array, unless it completes that write.\<close>

lemma step_keeps_array:
  assumes inv: "io_inv io" "arrays_ok io" and p: "io_heap io p = Some (PendingWriteSome fd (Some a))"
    and e: "io_step e io = Some (Inr io')"
  shows "if \<exists>r data. e = Complete p r data then io_arrays io' a = None \<and> io_heap io' p = None
        else io_arrays io' a = io_arrays io a \<and> io_arrays io a \<noteq> None \<and> io_heap io' p = io_heap io p"
proof -
  have pa: "holds_array io p a" "io_arrays io a \<noteq> None" "p \<noteq> io_next io" "a \<noteq> io_next_array io"
    using p arrays_okD(1,3) [OF inv(2), of a] io_inv_fresh [OF inv(1)] by (auto simp: holds_array_def)
  show ?thesis
  proof (cases "is_submit e")
    case True
    with submit_push [OF e] obtain io1 k q where k: "io_push k q io1 = Inr io'" "same_ops io1 io" by blast
    from io_push_state [OF k(1)] k(2) pa True show ?thesis by (auto simp: same_ops_def)
  next
    case False
    then show ?thesis
    proof (cases e)
      case (Submit_write gd cs)
      with e have "submit_write_some gd cs io = Inr io'" by simp
      from io_push_state [OF this [unfolded submit_write_push]] Submit_write pa show ?thesis by auto
    next
      case Flush
      with e pa show ?thesis by (auto simp: io_flush_def)
    next
      case (Complete k r data)
      with e obtain rs where c: "complete_one (k, r, data) io = Inr (io', rs)" "k \<in> set (io_flight io)"
        by (auto simp: rbind_eq_Inr split: if_splits)
      obtain q where q: "io_heap io k = Some q"
        using flight_live [OF inv(1) c(2)] by blast
      have "k \<noteq> p \<Longrightarrow> \<not> holds_array io k a"
        using arrays_okD(2) [OF inv(2) pa(1)] by blast
      with complete_one_frame [OF inv(2) q c(1)] Complete p pa q show ?thesis
        by (cases "(q, io_arrays io)" rule: without_array.cases) (auto simp: holds_array_def)
    qed simp_all
  qed
qed

section \<open>Completing a read into a vector\<close>

lemma complete_read_vec:
  assumes "submit_read_some_vec fd vec n io = Inr (io1, h)" and "length (io_vecs io vec) + unat n < 2 ^ 63"
    and "length data \<le> unat n" and "w = io_vecs io vec @ data @ replicate (unat n - length data) 0"
  shows "\<exists>io2. io_vecs io2 vec = w \<and> complete_one (io_next io, r, data) io1 =
     (if r = -104 then Inr (io2, [])
      else rbind (vector_resize w (of_nat (length (io_vecs io vec)) + of_int r)) (\<lambda>v.
        Inr (io2\<lparr>io_vecs := (io_vecs io2)(vec := v)\<rparr>, [Set_size h (of_int r)])))"
proof -
  let ?v = "io_vecs io vec" and ?p = "io_next io"
  note st = submit_read_some_vec_state [OF assms(1,2)]
  let ?io = "io1\<lparr>io_flight := remove1 ?p (io_flight io1), io_vecs := (io_vecs io1)(vec := w), io_heap := (io_heap io1)(?p := None)\<rparr>"
  have v: "unat (of_nat (length ?v) :: sz) = length ?v"
    using assms(2) by (intro unat_of_nat_64) simp
  have "overwrite (?v @ replicate (unat n) 0) (length ?v) data = w"
    using assms(3,4) by simp
  then have "complete_one (?p, r, data) io1 =
     (if r = -104 then Inr (?io, [])
      else rbind (vector_resize w (of_nat (length ?v) + of_int r)) (\<lambda>v. Inr (?io\<lparr>io_vecs := (io_vecs ?io)(vec := v)\<rparr>, [Set_size h (of_int r)])))"
    using st v by (simp add: complete_one_def kernel_store_def handle_pending_def vector_resize_def)
  then show ?thesis
    by (intro exI [of _ ?io]) simp
qed

text \<open>When the kernel delivers data, the vector ends as it was with exactly the data appended.\<close>

lemma read_some_vec_appends:
  assumes "submit_read_some_vec fd vec n io = Inr (io1, h)" and "length (io_vecs io vec) + unat n < 2 ^ 63"
    and "length data \<le> unat n"
  shows "\<exists>io2. complete_one (io_next io, int (length data), data) io1 = Inr (io2, [Set_size h (of_nat (length data))]) \<and>
     io_vecs io2 vec = io_vecs io vec @ data"
proof -
  let ?v = "io_vecs io vec"
  have "unat (of_nat (length ?v) + of_nat (length data) :: sz) = length ?v + length data"
    using assms(2,3) unat_of_nat_64 [of "length ?v + length data"] by simp
  with complete_read_vec [OF assms(1-3) refl, of "int (length data)"] assms(2,3) show ?thesis
    by (auto simp: vector_resize_def vector_max_size_def)
qed

section \<open>Properties\<close>



text \<open>
  C30: the kernel may read the array of a write as long as it needs to. Submitting a write stores
  a copy of the data in an array of its own; whatever happens to the context, the array keeps
  exactly that data until the write's own completion is handled, which deletes it.
\<close>

theorem write_array_lifetime:
  assumes "io_reachable n io"
  shows "(submit_write_some fd bs io = Inr io' \<longrightarrow>
       (\<exists>a. io_heap io' (io_next io) = Some (PendingWriteSome fd (Some a)) \<and> io_arrays io a = None \<and> io_arrays io' a = Some bs)) \<and>
     (io_heap io p = Some (PendingWriteSome fd (Some a)) \<and> io_step e io = Some (Inr io') \<longrightarrow>
       (if \<exists>r data. e = Complete p r data then io_arrays io' a = None \<and> io_heap io' p = None
        else io_arrays io' a = io_arrays io a \<and> io_arrays io a \<noteq> None \<and> io_heap io' p = io_heap io p))"
proof -
  have inv: "io_inv io" "arrays_ok io"
    using io_reachable_inv [OF assms] by auto
  have sub: "\<exists>a. io_heap io' (io_next io) = Some (PendingWriteSome fd (Some a)) \<and> io_arrays io a = None \<and> io_arrays io' a = Some bs"
    if "submit_write_some fd bs io = Inr io'"
    using io_push_state [OF that [unfolded submit_write_push]] arrays_fresh [OF inv(2)] by auto
  show ?thesis
    using sub step_keeps_array [OF inv] by blast
qed

theorem write_array_lifetime_witness:
  "\<exists>io' a. submit_write_some 5 [1, 2, 3] (IOContext_new 8 [] (\<lambda>_. [])) = Inr io' \<and> io_arrays io' a = Some [1, 2, 3]"
proof -
  obtain io' where s: "submit_write_some 5 [1, 2, 3] (IOContext_new 8 [] (\<lambda>_. [])) = Inr io'"
    by (simp add: submit_write_push io_push_def IOContext_new_def)
  with write_array_lifetime [OF io_reachable.start, of 5 "[1, 2, 3]" 8 "[]" "\<lambda>_. []" io'] show ?thesis by blast
qed

text \<open>
  C31: a read into a fresh buffer, from its submission to its completion. When the kernel delivers
  up to the requested number of bytes, the future gets a well-formed buffer that holds exactly
  those bytes, or nothing at the end of the stream. When the kernel reports an error instead, the
  future gets a buffer whose size is the error code as an unsigned 64-bit number, far outside
  its allocation.
\<close>

theorem read_some_delivers:
  assumes "submit_read_some fd n io = Inr (io1, h)" and "unat n < 2 ^ 63"
    and "length data \<le> unat n" and "length data < 2 ^ 31" and "- (2 ^ 31) \<le> err" and "err < 0"
  shows "(\<exists>io2 r. complete_one (io_next io, int (length data), data) io1 = Inr (io2, [Set_opt_buffer h r]) \<and>
       (case r of None \<Rightarrow> data = [] | Some b \<Rightarrow> buffer_ok (io_mem io2, b) \<and> data \<noteq> [] \<and> buffer_bytes (io_mem io2, b) = data)) \<and>
     (\<exists>io2 b. complete_one (io_next io, err, []) io1 = Inr (io2, [Set_opt_buffer h (Some b)]) \<and>
       unat (buf_size b) = 2 ^ 64 - nat (- err) \<and> \<not> buffer_ok (io_mem io2, b))"
proof -
  let ?B = "Buffer_sized (io_mem io) n"
  have ok: "buffer_ok (fst ?B, snd ?B)" and size: "buf_size (snd ?B) = n"
    using Buffer_sized_ok [OF assms(2), of "io_mem io"] by (simp_all add: Buffer_sized_def)
  have io1: "io_heap io1 (io_next io) = Some (PendingReadSome fd h (snd ?B))" "io_mem io1 = fst ?B"
    using assms(1) by (auto simp: submit_read_some_def io_submit_def io_push_def Let_def case_prod_beta rbind_eq_Inr split: if_splits)
  obtain m where m: "mem_store (fst ?B) (buf_shared (snd ?B)) (unat (buf_offset (snd ?B))) data = Some m" "buffer_ok (m, snd ?B)"
      "buffer_bytes (m, snd ?B) = data @ drop (length data) (buffer_bytes (fst ?B, snd ?B))"
    using buffer_store_start [OF ok, of data] assms(3) size by auto
  have len: "of_nat (length data) \<le> n" "unat (of_nat (length data) :: sz) = length data"
    using assms(3,4) by (simp_all add: word_le_nat_alt unat_of_nat_64)
  have sl: "buffer_ok (m, slice_to (snd ?B) (of_nat (length data)))"
      "buffer_bytes (m, slice_to (snd ?B) (of_nat (length data))) = data"
    using slice_ok [OF m(2), of 0 "of_nat (length data)"] slice_bytes [OF m(2), of 0 "of_nat (length data)"] len size m(3)
    by (simp_all add: slice_to_def)
  have "\<exists>io2 r. complete_one (io_next io, int (length data), data) io1 = Inr (io2, [Set_opt_buffer h r]) \<and>
       (case r of None \<Rightarrow> data = [] | Some b \<Rightarrow> buffer_ok (io_mem io2, b) \<and> data \<noteq> [] \<and> buffer_bytes (io_mem io2, b) = data)"
    using io1 m(1) sl by (simp add: complete_one_def kernel_store_def handle_pending_def)
  moreover have "\<exists>io2 b. complete_one (io_next io, err, []) io1 = Inr (io2, [Set_opt_buffer h (Some b)]) \<and>
       buf_size b = of_int err"
    using io1 assms(6) by (simp add: complete_one_def handle_pending_def slice_to_def slice_def Let_def)
  ultimately show ?thesis
    using unat_neg_res [OF assms(6,5)] assms(5) buffer_ok_small by (fastforce dest: buffer_ok_small)
qed

theorem read_some_delivers_witness:
  "\<exists>io1 h io2 r. submit_read_some 5 4 (IOContext_new 8 [] (\<lambda>_. [])) = Inr (io1, h) \<and>
     complete_one (0, 2, [7, 8]) io1 = Inr (io2, [Set_opt_buffer h (Some r)]) \<and> buffer_bytes (io_mem io2, r) = [7, 8]"
proof -
  obtain io1 h where s: "submit_read_some 5 4 (IOContext_new 8 [] (\<lambda>_. [])) = Inr (io1, h)"
    by (simp add: submit_read_some_def io_submit_def io_push_def IOContext_new_def Buffer_sized_def)
  from read_some_delivers [OF s, of "[7, 8]" "-1"] s show ?thesis
    by (fastforce simp: IOContext_new_def split: option.splits)
qed

text \<open>
  C39: a read that appends to a vector, when it fails. After a connection reset (-104) the future is
  never resolved and the vector keeps the room made for the data as zero bytes. After any other
  error \<open>e\<close> the error code is taken for a length: if the vector held fewer than \<open>-e\<close> bytes, \<^verbatim>\<open>resize\<close> throws;
  otherwise the last \<open>-e\<close> bytes received earlier are cut off and the future gets \<open>2\<^sup>6\<^sup>4 + e\<close> as the
  number of bytes read.
\<close>

theorem read_some_vec_errors:
  assumes "submit_read_some_vec fd vec n io = Inr (io1, h)" and "length (io_vecs io vec) + unat n < 2 ^ 63"
    and "err < 0" and "- (2 ^ 31) \<le> err"
  shows "if err = -104
     then \<exists>io2. complete_one (io_next io, err, []) io1 = Inr (io2, []) \<and> io_vecs io2 vec = io_vecs io vec @ replicate (unat n) 0
     else if length (io_vecs io vec) < nat (- err)
     then complete_one (io_next io, err, []) io1 = Inl Length_error
     else \<exists>io2 k. complete_one (io_next io, err, []) io1 = Inr (io2, [Set_size h k]) \<and> unat k = 2 ^ 64 - nat (- err) \<and>
       io_vecs io2 vec = take (length (io_vecs io vec) - nat (- err)) (io_vecs io vec)"
proof -
  let ?v = "io_vecs io vec" and ?n = "of_nat (length (io_vecs io vec)) :: sz"
  obtain io2 where io2: "io_vecs io2 vec = ?v @ replicate (unat n) 0" "complete_one (io_next io, err, []) io1 =
     (if err = -104 then Inr (io2, [])
      else rbind (vector_resize (?v @ replicate (unat n) 0) (?n + of_int err)) (\<lambda>v.
        Inr (io2\<lparr>io_vecs := (io_vecs io2)(vec := v)\<rparr>, [Set_size h (of_int err)])))"
    using complete_read_vec [OF assms(1,2) _ refl, of "[]" err] by auto
  have e: "unat (of_int err :: sz) = 2 ^ 64 - nat (- err)"
    using assms(3,4) by (rule unat_neg_res)
  have sum: "unat (?n + of_int err) = (length ?v + (2 ^ 64 - nat (- err))) mod 2 ^ 64"
    using assms(2) e unat_of_nat_64 [of "length ?v"] by (simp add: unat_word_ariths)
  have nat_le: "nat (- err) \<le> 2 ^ 31" "0 < nat (- err)"
    using assms(3,4) by auto
  show ?thesis
  proof (cases "length ?v < nat (- err)")
    case True
    then have "unat (?n + of_int err) > vector_max_size"
      using sum nat_le by (simp add: vector_max_size_def)
    then show ?thesis
      using io2 True by (cases "err = -104") (simp_all add: vector_resize_def)
  next
    case False
    then have "length ?v + (2 ^ 64 - nat (- err)) = (length ?v - nat (- err)) + 2 ^ 64"
      using nat_le by simp
    then have k: "unat (?n + of_int err) = length ?v - nat (- err)"
      using sum assms(2) by simp
    then show ?thesis
      using io2 False e assms(2) by (cases "err = -104") (simp_all add: vector_resize_def vector_max_size_def)
  qed
qed

theorem read_some_vec_errors_witness:
  "\<exists>io1 h. submit_read_some_vec 5 0 4 (IOContext_new 8 [] (\<lambda>_. [1, 2])) = Inr (io1, h) \<and>
     complete_one (0, -32, []) io1 = Inl Length_error"
proof -
  obtain io1 h where s: "submit_read_some_vec 5 0 4 (IOContext_new 8 [] (\<lambda>_. [1, 2])) = Inr (io1, h)"
    by (simp add: submit_read_some_vec_def io_submit_def io_push_def IOContext_new_def vector_resize_def vector_max_size_def)
  from read_some_vec_errors [OF s, of "-32"] s show ?thesis
    by (auto simp: IOContext_new_def)
qed

text \<open>
  Destroying the context. Every operation that was queued or in flight stays on the heap, and so does
  the array of every such write; no completion can be handled any more, so nothing deletes them
  and no future waiting for them is resolved.
\<close>

theorem IOContext_dtor_leaks:
  assumes "io_reachable n io"
  shows "{p. io_heap (IOContext_dtor io) p \<noteq> None} = set (map snd (io_sq io) @ io_flight io) \<and>
     (io_arrays (IOContext_dtor io) a \<noteq> None \<longleftrightarrow> (\<exists>p fd. io_heap io p = Some (PendingWriteSome fd (Some a)))) \<and>
     io_step (Complete p r data) (IOContext_dtor io) = None"
proof -
  have inv: "io_inv io" "arrays_ok io"
    using io_reachable_inv [OF assms] by auto
  then show ?thesis
    using arrays_okD(1) [OF inv(2)] by (simp add: IOContext_dtor_def io_inv_def io_names_def holds_array_def)
qed

theorem IOContext_dtor_leaks_witness:
  "\<exists>io a. io_step (Submit_write 5 [1, 2]) (IOContext_new 8 [] (\<lambda>_. [])) = Some (Inr io) \<and>
     io_arrays (IOContext_dtor io) a \<noteq> None \<and> io_sq (IOContext_dtor io) = []"
proof -
  let ?io = "IOContext_new 8 [] (\<lambda>_. [])"
  obtain io fd where io: "io_step (Submit_write 5 [1, 2]) ?io = Some (Inr io)" "io_heap io 0 = Some (PendingWriteSome fd (Some 0))"
    by (simp add: submit_write_push io_push_def IOContext_new_def)
  have "io_reachable 8 io"
    using io(1) io_reachable.step [OF io_reachable.start] by blast
  from IOContext_dtor_leaks [OF this, of 0 0 0 "[]"] io show ?thesis
    by (auto simp: IOContext_dtor_def)
qed

end
