(* ===== verification/Toad_Runtime.thy ===== *)
theory Toad_Runtime
  imports Toad_Join Toad_Future Toad_Iocontext
begin

text \<open>
  How the parts of \<^verbatim>\<open>include/concurrency\<close> work together. \<^verbatim>\<open>Notify\<close> and \<^verbatim>\<open>Future\<close> hand coroutines to \<^verbatim>\<open>spawn\<close>, which is the
  executor's; the end of a coroutine notifies those that await it; the event loop resolves futures
  with the results of completions. A coroutine awaits one thing at a time, so an awaiter is known
  by the handle of its coroutine.
\<close>

section \<open>What Notify and Future need of a scheduler\<close>

fun spawn_all :: "(nat \<Rightarrow> 's \<Rightarrow> 's res) \<Rightarrow> nat list \<Rightarrow> 's \<Rightarrow> 's res" where
  "spawn_all spawn [] s = Inr s"
| "spawn_all spawn (h # hs) s = rbind (spawn h s) (spawn_all spawn hs)"

lemma spawn_all_append:
  "spawn_all spawn (hs @ ks) s = rbind (spawn_all spawn hs s) (spawn_all spawn ks)"
  by (induction hs arbitrary: s) (simp_all add: rbind_def split: sum.splits)

text \<open>
  A coroutine that is ready is queued behind the others, and the other ready ones stay ready.
\<close>

locale scheduler =
  fixes spawn :: "nat \<Rightarrow> 's \<Rightarrow> 's res" and queued :: "'s \<Rightarrow> nat list" and ready :: "'s \<Rightarrow> nat \<Rightarrow> bool"
  assumes spawn_queues: "ready s h \<Longrightarrow> \<exists>s'. spawn h s = Inr s' \<and> queued s' = queued s @ [h]"
    and spawn_keeps: "ready s h \<Longrightarrow> spawn h s = Inr s' \<Longrightarrow> ready s k \<Longrightarrow> k \<noteq> h \<Longrightarrow> ready s' k"
begin

lemma spawn_all_queues:
  "distinct hs \<Longrightarrow> (\<And>h. h \<in> set hs \<Longrightarrow> ready s h) \<Longrightarrow>
     \<exists>s'. spawn_all spawn hs s = Inr s' \<and> queued s' = queued s @ hs"
proof (induction hs arbitrary: s)
  case (Cons h hs)
  then obtain s1 where s1: "spawn h s = Inr s1" "queued s1 = queued s @ [h]"
    using spawn_queues [of s h] by auto
  have "ready s1 k" if "k \<in> set hs" for k
    using Cons.prems that s1(1) spawn_keeps [of s h s1 k] by auto
  with Cons.IH [of s1] Cons.prems(1) s1 show ?case by auto
qed simp

end

lemma executor_spawn_eq:
  "spawnable s h \<Longrightarrow> executor_spawn t h s =
     Inr (s\<lparr>ex_frames := (ex_frames s)(h := (ex_frames s h)\<lparr>cf_parent_corr_id := ex_corr s t\<rparr>), ex_queue := ex_queue s @ [h]\<rparr>)"
  by (simp add: executor_spawn_def spawnable_def coro_defs queue_push_def)

interpretation exec: scheduler "executor_spawn t" ex_queue spawnable for t
  by unfold_locales (auto simp: executor_spawn_eq, auto simp: spawnable_def)

section \<open>Notify and the executor\<close>

text \<open>The coroutines an event of \<^verbatim>\<open>notify_all\<close> spawns.\<close>

fun woken_by :: "notify_event \<Rightarrow> Notify \<Rightarrow> nat list" where
  "woken_by (Spawn_current n) nf = (case nf_notify nf n of Walking (Some a) \<Rightarrow> [a] | _ \<Rightarrow> [])"
| "woken_by _ nf = []"

text \<open>Events of a \<^verbatim>\<open>Notify\<close> on thread \<open>t\<close>, with the calls of \<^verbatim>\<open>spawn\<close>.\<close>

fun notify_exec :: "nat \<Rightarrow> notify_event list \<Rightarrow> Notify \<times> Executor \<Rightarrow> (Notify \<times> Executor) res option" where
  "notify_exec t [] (nf, ex) = Some (Inr (nf, ex))"
| "notify_exec t (e # es) (nf, ex) =
     (case notify_step e nf of
        None \<Rightarrow> None
      | Some nf' \<Rightarrow>
          (case spawn_all (executor_spawn t) (woken_by e nf) ex of
             Inl f \<Rightarrow> Some (Inl f)
           | Inr ex' \<Rightarrow> notify_exec t es (nf', ex')))"

text \<open>
  \<^verbatim>\<open>final_suspend\<close> of a coroutine that ends on thread \<open>t\<close>: \<^verbatim>\<open>notify_all\<close> on the \<^verbatim>\<open>continuations\<close> in its frame, which finds
  \<open>k\<close> awaiters.
\<close>

definition final_suspend :: "nat \<Rightarrow> nat \<Rightarrow> Notify \<times> Executor \<Rightarrow> (Notify \<times> Executor) res option" where
  "final_suspend t k = notify_exec t (Fire t # Exchange t # walk_events t k)"

fun wakes :: "notify_event list \<Rightarrow> Notify \<Rightarrow> nat list" where
  "wakes [] nf = []"
| "wakes (e # es) nf = woken_by e nf @ (case notify_step e nf of None \<Rightarrow> [] | Some nf' \<Rightarrow> wakes es nf')"

lemma notify_exec_run:
  "notify_run es nf = Some nf' \<Longrightarrow> spawn_all (executor_spawn t) (wakes es nf) ex = Inr ex' \<Longrightarrow>
     notify_exec t es (nf, ex) = Some (Inr (nf', ex'))"
proof (induction es arbitrary: nf ex)
  case (Cons e es)
  then show ?case
    by (auto simp: spawn_all_append rbind_eq_Inr simp del: notify_step.simps split: option.splits)
qed simp

lemma wakes_walk:
  assumes "chain (nf_next s) p xs" and "nf_notify s n = Walking p" and "\<not> nf_fault s"
  shows "wakes (walk_events n (length xs)) s = xs"
  using assms
proof (induction xs arbitrary: s p)
  case Nil
  then show ?case by (simp add: walk_events_def)
next
  case (Cons x xs)
  let ?t = "s\<lparr>nf_await := (nf_await s)(x := Woken), nf_notify := (nf_notify s)(n := Walking (nf_next s x))\<rparr>"
  have "wakes (walk_events n (length xs)) ?t = xs"
    using Cons.prems by (intro Cons.IH) simp_all
  then show ?case
    using Cons.prems by (simp add: walk_events_Suc)
qed

section \<open>JoinSet and the executor\<close>

text \<open>
  The whole of \<^verbatim>\<open>JoinSet::spawn\<close> on thread \<open>t\<close>, where \<open>proc\<close> is the helper coroutine, and the first part of the
  helper, which spawns the child \<open>task\<close>.
\<close>

definition JoinSet_spawn :: "nat \<Rightarrow> nat \<Rightarrow> JoinSet \<times> Executor \<Rightarrow> (JoinSet \<times> Executor) res" where
  "JoinSet_spawn t proc = (\<lambda>(js, ex).
     rbind (join_spawn js) (\<lambda>js. rbind (executor_spawn t proc ex) (\<lambda>ex. Inr (js, ex))))"

definition join_proc_begin :: "nat \<Rightarrow> nat \<Rightarrow> Executor \<Rightarrow> Executor res" where
  "join_proc_begin t task ex = executor_spawn t task ex"

section \<open>Futures, the event loop and the executor\<close>

text \<open>The values of the futures that the context makes, and the futures by number.\<close>

datatype future_value = V_socket int | V_opt_socket "int option" | V_opt_buffer "Buffer option" | V_size sz

record runtime =
  rt_io :: IOContext
  rt_ex :: Executor
  rt_futures :: "nat \<Rightarrow> future_value FutureState option"

fun resolution_value :: "resolution \<Rightarrow> nat \<times> future_value" where
  "resolution_value (Set_socket h fd) = (h, V_socket fd)"
| "resolution_value (Set_opt_socket h r) = (h, V_opt_socket r)"
| "resolution_value (Set_opt_buffer h r) = (h, V_opt_buffer r)"
| "resolution_value (Set_size h n) = (h, V_size n)"

text \<open>\<^verbatim>\<open>set_value\<close> on thread \<open>t\<close>, with the \<^verbatim>\<open>spawn\<close> at its end.\<close>

definition resolve :: "nat \<Rightarrow> resolution \<Rightarrow> runtime \<Rightarrow> runtime res" where
  "resolve t r rt =
     (let (h, v) = resolution_value r in
      rbind (set_value (rt_futures rt h) v) (\<lambda>(st, spawned).
      rbind (spawn_all (executor_spawn t) spawned (rt_ex rt)) (\<lambda>ex.
      Inr (rt\<lparr>rt_ex := ex, rt_futures := (rt_futures rt)(h := st)\<rparr>))))"

fun resolve_all :: "nat \<Rightarrow> resolution list \<Rightarrow> runtime \<Rightarrow> runtime res" where
  "resolve_all t [] rt = Inr rt"
| "resolve_all t (r # rs) rt = rbind (resolve t r rt) (resolve_all t rs)"

text \<open>One round of the loop over completions, futures included.\<close>

definition runtime_complete :: "nat \<Rightarrow> nat \<times> int \<times> u8 list \<Rightarrow> runtime \<Rightarrow> runtime res" where
  "runtime_complete t c rt =
     rbind (complete_one c (rt_io rt)) (\<lambda>(io, rs). resolve_all t rs (rt\<lparr>rt_io := io\<rparr>))"

section \<open>Properties\<close>



text \<open>
  C10: the way of a read from the kernel to the coroutine. When a read into a vector completes with
  data, the vector has the data appended. If the coroutine \<open>c\<close> has suspended on the future, it is
  queued in the executor and \<^verbatim>\<open>await_resume\<close> will give it the number of bytes; if the completion is
  handled before the coroutine has suspended, nothing is queued and the future stays unresolved.
\<close>

theorem read_completion_resumes:
  assumes "submit_read_some_vec fd vec n io = Inr (io1, h)" and "length (io_vecs io vec) + unat n < 2 ^ 63"
    and "length data \<le> unat n" and "rt_io rt = io1" and "rt_futures rt h = Some (FutureState_new\<lparr>fs_cont := cont\<rparr>)"
    and "case cont of None \<Rightarrow> True | Some c \<Rightarrow> spawnable (rt_ex rt) c"
  shows "\<exists>rt' st. runtime_complete t (io_next io, int (length data), data) rt = Inr rt' \<and>
     io_vecs (rt_io rt') vec = io_vecs io vec @ data \<and> rt_futures rt' h = Some st \<and>
     (case cont of
        Some c \<Rightarrow> ex_queue (rt_ex rt') = ex_queue (rt_ex rt) @ [c] \<and>
          (\<exists>st'. future_await_resume st = Inr (st', V_size (of_nat (length data))))
      | None \<Rightarrow> ex_queue (rt_ex rt') = ex_queue (rt_ex rt) \<and> \<not> future_await_ready st)"
proof -
  obtain io2 where io2: "complete_one (io_next io, int (length data), data) io1 = Inr (io2, [Set_size h (of_nat (length data))])"
    "io_vecs io2 vec = io_vecs io vec @ data"
    using read_some_vec_appends [OF assms(1-3)] by blast
  show ?thesis
  proof (cases cont)
    case None
    with io2 assms(4,5) show ?thesis
      by (auto simp: runtime_complete_def resolve_def future_defs)
  next
    case (Some c)
    with assms(6) exec.spawn_queues [of "rt_ex rt" c t] obtain ex where
      "executor_spawn t c (rt_ex rt) = Inr ex" "ex_queue ex = ex_queue (rt_ex rt) @ [c]" by auto
    with Some io2 assms(4,5) show ?thesis
      by (auto simp: runtime_complete_def resolve_def future_defs Let_def)
  qed
qed

theorem read_completion_resumes_witness:
  "\<exists>io1 h rt'. submit_read_some_vec 5 0 4 (IOContext_new 8 [] (\<lambda>_. [1, 2])) = Inr (io1, h) \<and>
     runtime_complete 9 (0, 2, [7, 8]) \<lparr>rt_io = io1, rt_ex = Executor_new (frames_new (\<lambda>_. 0)),
         rt_futures = (\<lambda>_. Some (FutureState_new\<lparr>fs_cont := Some 3\<rparr>))\<rparr> = Inr rt' \<and>
     io_vecs (rt_io rt') 0 = [1, 2, 7, 8] \<and> ex_queue (rt_ex rt') = [3]"
proof -
  let ?rt = "\<lambda>io1. \<lparr>rt_io = io1, rt_ex = Executor_new (frames_new (\<lambda>_. 0)),
      rt_futures = (\<lambda>_. Some (FutureState_new\<lparr>fs_cont := Some 3\<rparr>))\<rparr>"
  obtain io1 h where s: "submit_read_some_vec 5 0 4 (IOContext_new 8 [] (\<lambda>_. [1, 2])) = Inr (io1, h)"
    by (simp add: submit_read_some_vec_def io_submit_def io_push_def IOContext_new_def vector_resize_def vector_max_size_def)
  have "spawnable (Executor_new (frames_new (\<lambda>_. 0))) 3"
    by (simp add: spawnable_def Executor_new_def frames_new_def)
  then have "\<exists>rt'. runtime_complete 9 (0, 2, [7, 8]) (?rt io1) = Inr rt' \<and>
      io_vecs (rt_io rt') 0 = [1, 2, 7, 8] \<and> ex_queue (rt_ex rt') = [3]"
    using read_completion_resumes [OF s, of "[7, 8]" "?rt io1" "Some 3" 9]
    by (auto simp: IOContext_new_def Executor_new_def)
  with s show ?thesis by blast
qed

text \<open>
  A \<^verbatim>\<open>JoinSet\<close> that has not fired counts the child and queues its helper, and so does the helper with the
  child; one that has fired aborts before it queues anything.
\<close>

theorem JoinSet_spawn_queues:
  assumes "spawnable ex proc"
  shows "if notify_done (js_notify js) then JoinSet_spawn t proc (js, ex) = Inl Assert_failed
     else \<exists>js' ex'. JoinSet_spawn t proc (js, ex) = Inr (js', ex') \<and> js_awaiting js' = js_awaiting js + 1 \<and>
       ex_queue ex' = ex_queue ex @ [proc] \<and>
       (\<forall>task. spawnable ex' task \<longrightarrow> (\<exists>ex''. join_proc_begin t task ex' = Inr ex'' \<and> ex_queue ex'' = ex_queue ex @ [proc, task]))"
  using assms by (auto simp: JoinSet_spawn_def join_proc_begin_def join_spawn_def executor_spawn_eq res_simps)

end
