(* ===== verification/Toad_Program.thy ===== *)
theory Toad_Program
  imports Toad_Runtime
begin

text \<open>
  The whole process: \<^verbatim>\<open>src/main.cpp\<close>, the worker threads of its executor, and the two variables through which
  code finds its surroundings, the thread-local \<^verbatim>\<open>_this_executor\<close> of \<^verbatim>\<open>executor.hpp\<close> and the static
  \<^verbatim>\<open>_this_io_context\<close> of \<^verbatim>\<open>iocontext.hpp\<close>. Both hold addresses of local variables of \<^verbatim>\<open>main\<close>. The executor has \<open>pg_num\<close>
  workers, which are the threads \<open>0, \<dots>, pg_num - 1\<close>; \<^verbatim>\<open>main\<close> runs on thread \<open>pg_num\<close>.
\<close>

section \<open>The code\<close>

text \<open>
  Where \<^verbatim>\<open>main\<close> stands: before and after the executor is made, after the context is made, in the event loop
  once the server was spawned, and, when the loop has ended, after the destructor of the context,
  while the destructor of the executor joins the workers, and at the end.
\<close>

datatype main_pc = M_start | M_executor | M_io | M_loop | M_io_gone | M_joining | M_end

datatype thread_state = Not_started | Started | Gone

record program =
  pg_num :: nat
  pg_main :: main_pc
  pg_ex :: Executor
  pg_ex_alive :: bool
  pg_this_executor :: "nat \<Rightarrow> bool"
  pg_io_alive :: bool
  pg_this_io_context :: bool
  pg_thread :: "nat \<Rightarrow> thread_state"

definition program_start :: "nat \<Rightarrow> frames \<Rightarrow> program" where
  "program_start num fs = \<lparr>pg_num = num, pg_main = M_start, pg_ex = Executor_new fs, pg_ex_alive = False,
     pg_this_executor = (\<lambda>_. False), pg_io_alive = False, pg_this_io_context = False, pg_thread = (\<lambda>_. Not_started)\<rparr>"

definition this_executor :: "nat \<Rightarrow> program \<Rightarrow> Executor res" where
  "this_executor t s =
     ASSERT (pg_this_executor s t) (if pg_ex_alive s then Inr (pg_ex s) else Inl Undefined_behaviour)"

definition this_io_context :: "program \<Rightarrow> unit res" where
  "this_io_context s = (if pg_this_io_context s \<and> pg_io_alive s then Inr () else Inl Undefined_behaviour)"

text \<open>The free function \<^verbatim>\<open>spawn\<close>.\<close>

definition spawn :: "nat \<Rightarrow> nat \<Rightarrow> program \<Rightarrow> program res" where
  "spawn t h s = rbind (this_executor t s) (\<lambda>ex. rbind (executor_spawn t h ex) (\<lambda>ex. Inr (s\<lparr>pg_ex := ex\<rparr>)))"

text \<open>
  The statements of \<^verbatim>\<open>main\<close>. The executor's constructor sets the variable of the calling thread; its destructor
  sets the flag, joins the workers, and leaves the variable as it is. Handle \<open>h\<close> is the coroutine of
  \<^verbatim>\<open>serve_socks5\<close>; \<open>ret\<close> is the result of \<^verbatim>\<open>io_uring_queue_init\<close>.
\<close>

datatype main_event = New_executor | New_io int | Spawn_server nat | Resume_awaiting nat | Loop_ends | Dtor_executor | Joined

fun main_step :: "main_event \<Rightarrow> program \<Rightarrow> program res option" where
  "main_step New_executor s =
     (if pg_main s = M_start then
        Some (Inr (s\<lparr>pg_main := M_executor, pg_ex_alive := True,
          pg_this_executor := (pg_this_executor s)(pg_num s := True)\<rparr>))
      else None)"
| "main_step (New_io ret) s =
     (if pg_main s = M_executor then
        Some (rbind (IOContext_init ret 64 [] (\<lambda>_. [])) (\<lambda>_.
          Inr (s\<lparr>pg_main := M_io, pg_io_alive := True, pg_this_io_context := True\<rparr>)))
      else None)"
| "main_step (Spawn_server h) s =
     (if pg_main s = M_io \<and> spawnable (pg_ex s) h then
        Some (rbind (executor_spawn (pg_num s) h (pg_ex s)) (\<lambda>ex. Inr (s\<lparr>pg_ex := ex, pg_main := M_loop\<rparr>)))
      else None)"
| "main_step (Resume_awaiting h) s =
     (if pg_main s = M_loop \<and> spawnable (pg_ex s) h then Some (spawn (pg_num s) h s) else None)"
| "main_step Loop_ends s =
     (if pg_main s = M_loop then Some (Inr (s\<lparr>pg_main := M_io_gone, pg_io_alive := False\<rparr>)) else None)"
| "main_step Dtor_executor s =
     (if pg_main s = M_io_gone then Some (Inr (s\<lparr>pg_main := M_joining, pg_ex := executor_shutdown (pg_ex s)\<rparr>)) else None)"
| "main_step Joined s =
     (if pg_main s = M_joining \<and> (\<forall>n<pg_num s. pg_thread s n = Gone)
      then Some (Inr (s\<lparr>pg_main := M_end, pg_ex_alive := False\<rparr>)) else None)"

text \<open>
  A worker thread sets its variable, runs the loop of \<open>Toad_Executor\<close>, and resets the variable after it. The
  body of a coroutine may spawn and use the context.
\<close>

datatype worker_event = Worker_start | Worker_take | Worker_begin | Worker_suspends | Worker_finishes | Worker_check
  | Body_spawn nat | Body_io | Worker_leave

fun executor_event_of :: "nat \<Rightarrow> worker_event \<Rightarrow> executor_event option" where
  "executor_event_of n Worker_take = Some (Take n)"
| "executor_event_of n Worker_begin = Some (Begin n)"
| "executor_event_of n Worker_suspends = Some (Body_suspends n)"
| "executor_event_of n Worker_finishes = Some (Body_finishes n)"
| "executor_event_of n Worker_check = Some (Check_done n)"
| "executor_event_of n _ = None"

definition in_body :: "program \<Rightarrow> nat \<Rightarrow> bool" where
  "in_body s n \<longleftrightarrow> (case ex_worker (pg_ex s) n of In_body h \<Rightarrow> True | _ \<Rightarrow> False)"

fun worker_step :: "nat \<Rightarrow> worker_event \<Rightarrow> program \<Rightarrow> program res option" where
  "worker_step n Worker_start s =
     (if pg_ex_alive s \<and> n < pg_num s \<and> pg_thread s n = Not_started then
        Some (Inr (s\<lparr>pg_thread := (pg_thread s)(n := Started), pg_this_executor := (pg_this_executor s)(n := True)\<rparr>))
      else None)"
| "worker_step n Worker_leave s =
     (if pg_thread s n = Started \<and> ex_worker (pg_ex s) n = Exited then
        Some (Inr (s\<lparr>pg_thread := (pg_thread s)(n := Gone), pg_this_executor := (pg_this_executor s)(n := False)\<rparr>))
      else None)"
| "worker_step n (Body_spawn h) s =
     (if pg_thread s n = Started \<and> in_body s n \<and> spawnable (pg_ex s) h then Some (spawn n h s) else None)"
| "worker_step n Body_io s =
     (if pg_thread s n = Started \<and> in_body s n then Some (rbind (this_io_context s) (\<lambda>_. Inr s)) else None)"
| "worker_step n e s =
     (if pg_thread s n = Started then
        (case executor_event_of n e of
           None \<Rightarrow> None
         | Some e \<Rightarrow> map_option (\<lambda>r. rbind r (\<lambda>ex. Inr (s\<lparr>pg_ex := ex\<rparr>))) (executor_next e (pg_ex s)))
      else None)"

datatype program_event = Main main_event | Thread nat worker_event

fun program_step :: "program_event \<Rightarrow> program \<Rightarrow> program res option" where
  "program_step (Main e) s = main_step e s"
| "program_step (Thread n e) s = worker_step n e s"

fun program_run :: "program_event list \<Rightarrow> program \<Rightarrow> program res option" where
  "program_run [] s = Some (Inr s)"
| "program_run (e # es) s =
     (case program_step e s of
        None \<Rightarrow> None
      | Some (Inl f) \<Rightarrow> Some (Inl f)
      | Some (Inr s') \<Rightarrow> program_run es s')"

inductive program_reachable :: "nat \<Rightarrow> frames \<Rightarrow> program \<Rightarrow> bool" for num fs where
  start: "program_reachable num fs (program_start num fs)"
| step: "program_reachable num fs s \<Longrightarrow> program_step e s = Some (Inr s') \<Longrightarrow> program_reachable num fs s'"

section \<open>Invariant\<close>

definition program_inv :: "program \<Rightarrow> bool" where
  "program_inv s \<longleftrightarrow>
     (pg_ex_alive s \<longleftrightarrow> pg_main s \<notin> {M_start, M_end}) \<and> (pg_io_alive s \<longleftrightarrow> pg_main s \<in> {M_io, M_loop}) \<and>
     (pg_io_alive s \<longrightarrow> pg_this_io_context s) \<and>
     (\<forall>t. pg_this_executor s t \<longleftrightarrow> pg_thread s t = Started \<or> t = pg_num s \<and> pg_main s \<noteq> M_start) \<and>
     (\<forall>n. pg_thread s n \<noteq> Not_started \<longrightarrow> n < pg_num s) \<and>
     (\<forall>n. pg_thread s n = Started \<longrightarrow> pg_ex_alive s) \<and>
     (\<forall>n. pg_thread s n = Not_started \<longrightarrow> ex_worker (pg_ex s) n = Waiting) \<and>
     (\<forall>n. pg_thread s n = Gone \<longrightarrow> ex_worker (pg_ex s) n = Exited) \<and>
     (pg_main s \<in> {M_start, M_executor, M_io} \<longrightarrow>
       ex_queue (pg_ex s) = [] \<and> \<not> ex_is_done (pg_ex s) \<and> (\<forall>n. ex_worker (pg_ex s) n = Waiting))"

lemma program_inv_start: "program_inv (program_start num fs)"
  by (simp add: program_inv_def program_start_def Executor_new_def)

text \<open>A worker's event changes its own place in the loop only, and there is none before a task is queued.\<close>

lemma worker_event_frame:
  assumes "executor_event_of n we = Some e" and "executor_next e s = Some (Inr s')"
  shows "k \<noteq> n \<Longrightarrow> ex_worker s' k = ex_worker s k"
    and "ex_worker s n \<noteq> Exited" and "ex_queue s = [] \<Longrightarrow> \<not> ex_is_done s \<Longrightarrow> ex_worker s n \<noteq> Waiting"
  using assms
  by (cases we; auto simp: worker_take_def worker_begin_def worker_check_def worker_end_def body_returns_def set_worker_def
    set_corr_def Let_def rbind_eq_Inr split: if_splits worker_pc.splits option.splits)+

lemma executor_spawn_frame:
  "executor_spawn t h ex = Inr ex' \<Longrightarrow> ex_worker ex' = ex_worker ex \<and> ex_is_done ex' = ex_is_done ex"
  by (auto simp: executor_spawn_def rbind_eq_Inr split: if_splits)

lemma spawn_inv:
  assumes "program_inv s" and "spawn t h s = Inr s'" and "pg_main s \<notin> {M_start, M_executor, M_io}"
  shows "program_inv s'"
  using assms executor_spawn_frame [of t h "pg_ex s"]
  by (auto simp: spawn_def this_executor_def ASSERT_def rbind_eq_Inr program_inv_def split: if_splits)

lemma main_step_inv:
  assumes inv: "program_inv s" and step: "main_step e s = Some (Inr s')"
  shows "program_inv s'"
proof (cases e)
  case (Resume_awaiting h)
  with assms spawn_inv [OF inv] show ?thesis
    by (auto split: if_splits)
next
  case (Spawn_server h)
  then obtain ex where ex: "executor_spawn (pg_num s) h (pg_ex s) = Inr ex" "s' = s\<lparr>pg_ex := ex, pg_main := M_loop\<rparr>" "pg_main s = M_io"
    using step by (auto simp: rbind_eq_Inr split: if_splits)
  with inv executor_spawn_frame [OF ex(1)] show ?thesis
    by (auto simp: program_inv_def)
next
  case Joined
  then have "pg_thread s n \<noteq> Started" for n
    using assms by (cases "n < pg_num s") (auto simp: program_inv_def split: if_splits)
  with Joined assms show ?thesis
    by (auto simp: program_inv_def split: if_splits)
qed (use assms in \<open>auto simp: program_inv_def rbind_eq_Inr executor_shutdown_def split: if_splits\<close>)

lemma worker_step_inv:
  assumes inv: "program_inv s" and step: "worker_step n e s = Some (Inr s')"
  shows "program_inv s'"
proof (cases "executor_event_of n e")
  case (Some ee)
  then obtain ex where ex: "executor_next ee (pg_ex s) = Some (Inr ex)" "s' = s\<lparr>pg_ex := ex\<rparr>" "pg_thread s n = Started"
    using step by (cases e) (auto simp: rbind_eq_Inr split: if_splits)
  have "pg_main s \<notin> {M_start, M_executor, M_io}"
    using worker_event_frame(3) [OF Some ex(1)] inv by (auto simp: program_inv_def)
  moreover have "ex_worker ex k = ex_worker (pg_ex s) k" if "pg_thread s k \<noteq> Started" for k
    using worker_event_frame(1) [OF Some ex(1), of k] ex(3) that by auto
  ultimately show ?thesis
    using ex(2) inv unfolding program_inv_def by (simp, blast)
next
  case None
  show ?thesis
  proof (cases e)
    case (Body_spawn h)
    then have "pg_main s \<notin> {M_start, M_executor, M_io}"
      using step inv by (auto simp: program_inv_def in_body_def split: if_splits worker_pc.splits)
    with Body_spawn step spawn_inv [OF inv, of n h s'] show ?thesis
      by (auto split: if_splits)
  next
    case Worker_start
    then have s': "pg_ex_alive s" "n < pg_num s" "pg_thread s n = Not_started"
      "s' = s\<lparr>pg_thread := (pg_thread s)(n := Started), pg_this_executor := (pg_this_executor s)(n := True)\<rparr>"
      using step by (auto split: if_splits)
    with inv show ?thesis
      unfolding program_inv_def by (elim conjE, intro conjI) simp_all
  next
    case Worker_leave
    then have s': "pg_thread s n = Started" "ex_worker (pg_ex s) n = Exited"
      "s' = s\<lparr>pg_thread := (pg_thread s)(n := Gone), pg_this_executor := (pg_this_executor s)(n := False)\<rparr>"
      using step by (auto split: if_splits)
    with inv show ?thesis
      unfolding program_inv_def by (elim conjE, intro conjI) auto
  next
    case Body_io
    with inv step show ?thesis
      by (auto simp: rbind_eq_Inr split: if_splits)
  qed (use None in simp_all)
qed

lemma program_reachable_inv: "program_reachable num fs s \<Longrightarrow> program_inv s"
proof (induction rule: program_reachable.induct)
  case (step s e s')
  then show ?case
    by (cases e) (auto intro: main_step_inv worker_step_inv)
qed (rule program_inv_start)

lemma program_run_reachable:
  "program_reachable num fs s \<Longrightarrow> program_run es s = Some (Inr s') \<Longrightarrow> program_reachable num fs s'"
  by (induction es arbitrary: s) (auto intro: program_reachable.step split: option.splits sum.splits)

lemma program_run_append: "program_run es s = Some (Inr s') \<Longrightarrow> program_run (es @ es') s = program_run es' s'"
  by (induction es arbitrary: s) (auto split: option.splits sum.splits)

section \<open>Properties\<close>

text \<open>
  C13: who can call what. In every reachable state of the process a coroutine that a worker is running
  finds the executor, so its calls of \<^verbatim>\<open>spawn\<close> queue; until the event loop ends it finds the context too, and
  the loop itself, which resolves futures on the main thread, finds the executor. A thread that is
  neither the main thread nor a worker inside \<^verbatim>\<open>worker_thread\<close> aborts. The destructor of the executor does not
  reset the main thread's variable: a later \<^verbatim>\<open>spawn\<close> there uses the destroyed object.
\<close>

theorem this_executor_valid:
  assumes "program_reachable num fs s"
  shows "(\<forall>n h. ex_worker (pg_ex s) n = In_body h \<longrightarrow>
       this_executor n s = Inr (pg_ex s) \<and> (pg_main s = M_loop \<longrightarrow> this_io_context s = Inr ()) \<and>
       (\<forall>k. spawnable (pg_ex s) k \<longrightarrow> (\<exists>s'. spawn n k s = Inr s' \<and> ex_queue (pg_ex s') = ex_queue (pg_ex s) @ [k]))) \<and>
     (pg_main s = M_loop \<longrightarrow> this_executor (pg_num s) s = Inr (pg_ex s)) \<and>
     (\<forall>t. t \<noteq> pg_num s \<longrightarrow> pg_thread s t \<noteq> Started \<longrightarrow> this_executor t s = Inl Assert_failed) \<and>
     (pg_main s = M_end \<longrightarrow> this_executor (pg_num s) s = Inl Undefined_behaviour)"
proof -
  have inv: "program_inv s"
    using program_reachable_inv [OF assms] .
  have body: "this_executor n s = Inr (pg_ex s)" "pg_main s = M_loop \<Longrightarrow> this_io_context s = Inr ()"
    if "ex_worker (pg_ex s) n = In_body h" for n h
  proof -
    have "pg_thread s n = Started"
      using inv that by (cases "pg_thread s n") (auto simp: program_inv_def)
    with inv show "this_executor n s = Inr (pg_ex s)" "pg_main s = M_loop \<Longrightarrow> this_io_context s = Inr ()"
      by (auto simp: program_inv_def this_executor_def this_io_context_def)
  qed
  moreover have "\<exists>s'. spawn n k s = Inr s' \<and> ex_queue (pg_ex s') = ex_queue (pg_ex s) @ [k]"
    if "ex_worker (pg_ex s) n = In_body h" "spawnable (pg_ex s) k" for n h k
    using body(1) [OF that(1)] that(2) by (simp add: spawn_def executor_spawn_eq)
  moreover have "pg_main s = M_loop \<Longrightarrow> this_executor (pg_num s) s = Inr (pg_ex s)"
    "t \<noteq> pg_num s \<Longrightarrow> pg_thread s t \<noteq> Started \<Longrightarrow> this_executor t s = Inl Assert_failed"
    "pg_main s = M_end \<Longrightarrow> this_executor (pg_num s) s = Inl Undefined_behaviour" for t
    using inv by (simp_all add: program_inv_def this_executor_def ASSERT_def)
  ultimately show ?thesis
    by blast
qed

theorem this_executor_valid_witness:
  "\<exists>s. program_run [Main New_executor, Main (New_io 0), Main (Spawn_server 7), Thread 0 Worker_start, Thread 0 Worker_take,
       Thread 0 Worker_begin] (program_start 1 (frames_new (\<lambda>_. 5))) = Some (Inr s) \<and>
     this_executor 0 s = Inr (pg_ex s) \<and> this_io_context s = Inr () \<and> this_executor 3 s = Inl Assert_failed"
proof -
  obtain s where r: "program_run [Main New_executor, Main (New_io 0), Main (Spawn_server 7), Thread 0 Worker_start, Thread 0 Worker_take,
       Thread 0 Worker_begin] (program_start 1 (frames_new (\<lambda>_. 5))) = Some (Inr s)"
    "ex_worker (pg_ex s) 0 = In_body 7" "pg_main s = M_loop" "pg_thread s 3 = Not_started" "pg_num s = 1"
    by (simp add: program_start_def IOContext_init_def spawnable_def executor_spawn_def executor_run_defs Executor_new_def frames_new_def)
  from this_executor_valid [OF program_run_reachable [OF program_reachable.start r(1)]] r show ?thesis
    by (intro exI [of _ s]) (auto simp del: program_run.simps)
qed

text \<open>
  The order of the local variables of \<^verbatim>\<open>main\<close> destroys the context before the destructor of the executor has
  joined the workers: once the event loop has ended on an error, a coroutine still running that
  asks for the context uses a destroyed object, whatever main does next.
\<close>

theorem main_context_gone:
  assumes "program_reachable num fs s" and "pg_main s \<in> {M_io_gone, M_joining}" and "ex_worker (pg_ex s) n = In_body h"
  shows "program_step (Thread n Body_io) s = Some (Inl Undefined_behaviour)"
proof -
  have inv: "program_inv s"
    using program_reachable_inv [OF assms(1)] .
  then have "pg_thread s n = Started"
    using assms(3) by (cases "pg_thread s n") (auto simp: program_inv_def)
  with inv assms(2,3) show ?thesis
    by (auto simp: program_inv_def in_body_def this_io_context_def)
qed

theorem main_context_gone_witness:
  "program_run [Main New_executor, Main (New_io 0), Main (Spawn_server 7), Thread 0 Worker_start, Thread 0 Worker_take,
       Thread 0 Worker_begin, Main Loop_ends, Thread 0 Body_io] (program_start 1 (frames_new (\<lambda>_. 5))) =
     Some (Inl Undefined_behaviour)"
proof -
  obtain s where r: "program_run [Main New_executor, Main (New_io 0), Main (Spawn_server 7), Thread 0 Worker_start, Thread 0 Worker_take,
       Thread 0 Worker_begin, Main Loop_ends] (program_start 1 (frames_new (\<lambda>_. 5))) = Some (Inr s)"
    "ex_worker (pg_ex s) 0 = In_body 7" "pg_main s = M_io_gone"
    by (simp add: program_start_def IOContext_init_def spawnable_def executor_spawn_def executor_run_defs Executor_new_def frames_new_def)
  from main_context_gone [OF program_run_reachable [OF program_reachable.start r(1)], of 0 7] r
    program_run_append [OF r(1), of "[Thread 0 Body_io]"] show ?thesis
    by (simp del: program_step.simps program_run.simps add: program_run.simps(2) [of "Thread 0 Body_io"])
qed

end
