(* ===== verification/Toad_Socks5.thy ===== *)
theory Toad_Socks5
  imports Toad_Iocontext
begin

text \<open>
  \<^verbatim>\<open>include/socks5/server.hpp\<close>: the SOCKS5 handshake with a client and the forwarding of data. A coroutine is
  a function of the answers to its awaits, in order; it returns the operations it submitted and
  how it ended. Values the code does not initialise itself are arguments, among them the address
  that the variant \<^verbatim>\<open>address\<close> holds after its default construction.
\<close>

section \<open>Awaiting a read\<close>

text \<open>
  How \<^verbatim>\<open>co_await io.submit_read_some(client, buffer, n)\<close> can be answered: at most \<open>n\<close> bytes (none at the end of the
  stream), a connection reset, which never resumes the coroutine, or another error code.
\<close>

datatype read_answer = Data "u8 list" | Reset | Failed int

datatype outcome = Returned | Never_resumed | Crashed fault | Forwarding

record reader =
  rd_buffer :: "u8 list"
  rd_stream :: istream
  rd_answers :: "read_answer list"

datatype action = Write "u8 list" | Connect IPv4 u16

definition await_read :: "sz \<Rightarrow> reader \<Rightarrow> (sz \<Rightarrow> reader \<Rightarrow> action list \<times> outcome) \<Rightarrow> action list \<times> outcome" where
  "await_read n st k =
     (case rd_answers st of
        [] \<Rightarrow> ([], Never_resumed)
      | Reset # as \<Rightarrow> ([], Never_resumed)
      | Data d # as \<Rightarrow> k (of_nat (length d)) (st\<lparr>rd_buffer := rd_buffer st @ d, rd_answers := as\<rparr>)
      | Failed e # as \<Rightarrow>
          (case vector_resize (rd_buffer st @ replicate (unat n) 0) (of_nat (length (rd_buffer st)) + of_int e) of
             Inl f \<Rightarrow> ([], Crashed f)
           | Inr v \<Rightarrow> k (of_int e) (st\<lparr>rd_buffer := v, rd_answers := as\<rparr>)))"

text \<open>Reads on the stream over the buffer, and an operation submitted before the rest.\<close>

definition hs_u8 :: "u8 \<Rightarrow> reader \<Rightarrow> (u8 \<Rightarrow> reader \<Rightarrow> action list \<times> outcome) \<Rightarrow> action list \<times> outcome" where
  "hs_u8 junk st k =
     (case read_u8 vector_ops (rd_buffer st) (rd_stream st) junk of
        Inl f \<Rightarrow> ([], Crashed f)
      | Inr (s, x) \<Rightarrow> k x (st\<lparr>rd_stream := s\<rparr>))"

definition hs_u16 :: "u16 \<Rightarrow> reader \<Rightarrow> (u16 \<Rightarrow> reader \<Rightarrow> action list \<times> outcome) \<Rightarrow> action list \<times> outcome" where
  "hs_u16 junk st k =
     (case read_u16 vector_ops (rd_buffer st) (rd_stream st) junk of
        Inl f \<Rightarrow> ([], Crashed f)
      | Inr (s, x) \<Rightarrow> k x (st\<lparr>rd_stream := s\<rparr>))"

definition hs_ipv4 :: "IPv4 \<Rightarrow> reader \<Rightarrow> (IPv4 \<Rightarrow> reader \<Rightarrow> action list \<times> outcome) \<Rightarrow> action list \<times> outcome" where
  "hs_ipv4 junk st k =
     (case read_array vector_ops (rd_buffer st) (rd_stream st) 4 junk of
        Inl f \<Rightarrow> ([], Crashed f)
      | Inr (s, x) \<Rightarrow> k x (st\<lparr>rd_stream := s\<rparr>))"

definition emit :: "action \<Rightarrow> action list \<times> outcome \<Rightarrow> action list \<times> outcome" where
  "emit a r = (a # fst r, snd r)"

section \<open>The handshake\<close>

text \<open>
  The loop over the offered methods runs while bytes remain; every iteration takes one, so the
  number of bytes remaining at its start bounds it.
\<close>

fun method_loop :: "nat \<Rightarrow> u8 \<Rightarrow> bool \<Rightarrow> reader \<Rightarrow> (bool \<Rightarrow> reader \<Rightarrow> action list \<times> outcome) \<Rightarrow> action list \<times> outcome" where
  "method_loop fuel junk is_ok st k =
     (if remaining vector_ops (rd_buffer st) (rd_stream st) = 0 then k is_ok st
      else
        (case fuel of
           0 \<Rightarrow> ([], Never_resumed)
         | Suc fuel \<Rightarrow> hs_u8 junk st (\<lambda>byte st. method_loop fuel junk (is_ok \<or> byte = 0x00) st k)))"

text \<open>
  After the request: the port, the connection, the final reply. \<open>connected\<close> is the answer to the
  connect. The result of reading the port is ignored.
\<close>

definition handshake_connect :: "u16 \<Rightarrow> int option \<Rightarrow> IPv4 \<Rightarrow> reader \<Rightarrow> action list \<times> outcome" where
  "handshake_connect u_port connected address st =
     await_read 2 st (\<lambda>_ st.
     hs_u16 u_port st (\<lambda>port st.
     emit (Connect address port)
       (case connected of
          None \<Rightarrow> ([], Returned)
        | Some remote \<Rightarrow> emit (Write [0x05, 0x00, 0x00, 0x01, 127, 0, 0, 1, 0xB8, 22]) ([], Forwarding))))"

text \<open>The request: version, command, reserved byte and address type, then the address.\<close>

definition handshake_request :: "u8 \<Rightarrow> IPv4 \<Rightarrow> u16 \<Rightarrow> int option \<Rightarrow> reader \<Rightarrow> action list \<times> outcome" where
  "handshake_request u8_junk u_address u_port connected st =
     await_read 4 st (\<lambda>read st.
     if read < 4 then ([], Returned)
     else
       hs_u8 u8_junk st (\<lambda>version st.
       hs_u8 u8_junk st (\<lambda>command st.
       hs_u8 u8_junk st (\<lambda>reserved st.
       hs_u8 u8_junk st (\<lambda>atype st.
       if version \<noteq> 0x05 then ([], Returned)
       else if command \<noteq> 0x01 then ([], Returned)
       else if atype = 0x01 then
         await_read 4 st (\<lambda>read st.
         if read < 4 then ([], Returned)
         else hs_ipv4 u_address st (\<lambda>addr st. handshake_connect u_port connected addr st))
       else if atype = 0x03 then handshake_connect u_port connected u_address st
       else ([], Returned))))))"

definition handle_client_handshake :: "u8 \<Rightarrow> IPv4 \<Rightarrow> u16 \<Rightarrow> int option \<Rightarrow> read_answer list \<Rightarrow> action list \<times> outcome" where
  "handle_client_handshake u8_junk u_address u_port connected answers =
     await_read 2 \<lparr>rd_buffer = [], rd_stream = ByteIStream, rd_answers = answers\<rparr> (\<lambda>read st.
     if read < 2 then ([], Returned)
     else
       hs_u8 u8_junk st (\<lambda>version st.
       hs_u8 u8_junk st (\<lambda>nmethods st.
       if version \<noteq> 5 then ([], Returned)
       else
         await_read (ucast nmethods) st (\<lambda>methods st.
         if methods < ucast nmethods then ([], Returned)
         else
           method_loop (unat (remaining vector_ops (rd_buffer st) (rd_stream st))) u8_junk False st (\<lambda>is_ok st.
           if \<not> is_ok then ([], Returned)
           else emit (Write [0x05, 0x00]) (handshake_request u8_junk u_address u_port connected st))))))"

text \<open>
  \<^verbatim>\<open>handle_connection\<close> is the operation that the action \<open>Connect\<close> stands for; \<open>sockfd\<close> is what \<^verbatim>\<open>socket\<close> returns.
\<close>

definition handle_connection :: "int \<Rightarrow> IPv4 \<Rightarrow> u16 \<Rightarrow> IOContext \<Rightarrow> (IOContext \<times> nat) res" where
  "handle_connection sockfd target port io = submit_connect_ipv4 sockfd target port io"

text \<open>
  \<^verbatim>\<open>serve_socks5\<close>: the listener, then one handshake for every client accepted. \<open>sockfd\<close>, \<open>bind_res\<close> and \<open>listen_res\<close>
  are the answers of the kernel to the calls of \<^verbatim>\<open>new_listener\<close>.
\<close>

definition serve_socks5 ::
  "int \<Rightarrow> int \<Rightarrow> int \<Rightarrow> u8 \<Rightarrow> IPv4 \<Rightarrow> u16 \<Rightarrow> (int option \<times> read_answer list) list \<Rightarrow> (action list \<times> outcome) list res" where
  "serve_socks5 sockfd bind_res listen_res u8_junk u_address u_port clients =
     rbind (new_listener sockfd bind_res listen_res 1080) (\<lambda>listener.
     Inr (map (\<lambda>(connected, answers). handle_client_handshake u8_junk u_address u_port connected answers) clients))"

section \<open>Forwarding\<close>

text \<open>
  \<^verbatim>\<open>forward_connection_data_\<close>: the loop ends only when a read is never answered or throws. The result
  of the read is not looked at.
\<close>

fun forward_connection_data :: "u8 list \<Rightarrow> read_answer list \<Rightarrow> action list \<times> outcome" where
  "forward_connection_data buffer [] = ([], Never_resumed)"
| "forward_connection_data buffer (Reset # as) = ([], Never_resumed)"
| "forward_connection_data buffer (Data d # as) =
     emit (Write (buffer @ d)) (forward_connection_data (buffer @ d) as)"
| "forward_connection_data buffer (Failed e # as) =
     (case vector_resize (buffer @ replicate 1024 0) (of_nat (length buffer) + of_int e) of
        Inl f \<Rightarrow> ([], Crashed f)
      | Inr v \<Rightarrow> emit (Write v) (forward_connection_data v as))"

section \<open>Reading from the buffer\<close>

text \<open>A reader whose stream stands at byte \<open>p\<close> of its buffer.\<close>

abbreviation reader_at :: "u8 list \<Rightarrow> nat \<Rightarrow> read_answer list \<Rightarrow> reader" where
  "reader_at buf p as \<equiv> \<lparr>rd_buffer = buf, rd_stream = istream_at p ByteIStream, rd_answers = as\<rparr>"

lemma hs_u8_at:
  "p < length buf \<Longrightarrow> length buf < 2 ^ 63 \<Longrightarrow> hs_u8 junk (reader_at buf p as) k = k (buf ! p) (reader_at buf (p + 1) as)"
  using vec.read_u8_at [of buf p ByteIStream junk] by (simp add: hs_u8_def)

lemma hs_u8_step:
  "p < length buf \<Longrightarrow> length buf < 2 ^ 63 \<Longrightarrow> q = p + 1 \<Longrightarrow> x = buf ! p \<Longrightarrow>
     hs_u8 junk (reader_at buf p as) k = k x (reader_at buf q as)"
  by (simp add: hs_u8_at)

lemma hs_u16_at:
  "p \<le> length buf \<Longrightarrow> length buf < 2 ^ 63 \<Longrightarrow> hs_u16 junk (reader_at buf p as) k =
     (if p + 2 \<le> length buf then k (be16 (buf ! p) (buf ! (p + 1))) (reader_at buf (p + 2) as)
      else k junk \<lparr>rd_buffer = buf, rd_stream = istream_at p (read_fail ByteIStream 2), rd_answers = as\<rparr>)"
  using vec.read_u16_at [of buf p ByteIStream junk] by (simp add: hs_u16_def)

lemma hs_ipv4_at:
  "p + 4 \<le> length buf \<Longrightarrow> length buf < 2 ^ 63 \<Longrightarrow>
     hs_ipv4 junk (reader_at buf p as) k = k (take 4 (drop p buf)) (reader_at buf (p + 4) as)"
  using vec.read_array_at [of buf p 4 ByteIStream junk] by (simp add: hs_ipv4_def)

lemma await_read_data:
  "await_read n (reader_at buf p (Data d # as)) k = k (of_nat (length d)) (reader_at (buf @ d) p as)"
  by (simp add: await_read_def)

text \<open>The loop over the methods takes every byte and finds out whether one of them is zero.\<close>

lemma method_loop_at:
  assumes "p \<le> length buf" and "length buf < 2 ^ 63" and "length buf - p \<le> fuel"
  shows "method_loop fuel junk b (reader_at buf p as) k = k (b \<or> 0 \<in> set (drop p buf)) (reader_at buf (length buf) as)"
  using assms
proof (induction fuel arbitrary: p b)
  case 0
  then have "p = length buf" by simp
  then show ?case
    using vec.remaining_at [of buf p ByteIStream] 0 by simp
next
  case (Suc fuel)
  have rem: "remaining vector_ops buf (istream_at p ByteIStream) = of_nat (length buf - p)"
    using Suc.prems by (intro vec.remaining_at)
  show ?case
  proof (cases "p = length buf")
    case True
    then show ?thesis using rem by simp
  next
    case False
    then have p: "p < length buf" using Suc.prems by simp
    have u: "unat (of_nat (length buf - p) :: sz) = length buf - p"
      using Suc.prems(2) by (intro unat_of_nat_64) simp
    have "of_nat (length buf - p) \<noteq> (0 :: sz)"
    proof
      assume "of_nat (length buf - p) = (0 :: sz)"
      then have "unat (of_nat (length buf - p) :: sz) = 0" by simp
      with u p show False by simp
    qed
    then have "method_loop (Suc fuel) junk b (reader_at buf p as) k =
        method_loop fuel junk (b \<or> buf ! p = 0) (reader_at buf (p + 1) as) k"
      by (subst method_loop.simps) (simp add: rem hs_u8_at [OF p Suc.prems(2)] del: method_loop.simps of_nat_diff)
    also have "\<dots> = k ((b \<or> buf ! p = 0) \<or> 0 \<in> set (drop (p + 1) buf)) (reader_at buf (length buf) as)"
      using Suc.prems p by (intro Suc.IH) simp_all
    also have "((b \<or> buf ! p = 0) \<or> 0 \<in> set (drop (p + 1) buf)) = (b \<or> 0 \<in> set (drop p buf))"
      using Cons_nth_drop_Suc [OF p, symmetric] by auto
    finally show ?thesis .
  qed
qed

declare method_loop.simps [simp del]

section \<open>The stages of the handshake\<close>

lemma less_ucast_u8: "n < 2 ^ 64 \<Longrightarrow> (of_nat n :: sz) < ucast (x :: u8) \<longleftrightarrow> n < unat x"
  by (simp add: word_less_nat_alt unat_of_nat_64 unat_ucast_u8_sz)

lemma reader_start: "\<lparr>rd_buffer = [], rd_stream = ByteIStream, rd_answers = as\<rparr> = reader_at [] 0 as"
  by (simp flip: stream_start)

lemma handshake_auth:
  assumes "length ms < 2 ^ 62"
  shows "handle_client_handshake junk a port c (Data [v, n] # Data ms # as) =
     (if v = 5 \<and> unat n \<le> length ms \<and> 0 \<in> set ms
      then emit (Write [5, 0]) (handshake_request junk a port c (reader_at ([v, n] @ ms) (2 + length ms) as))
      else ([], Returned))"
proof -
  let ?buf = "[v, n] @ ms"
  have small: "length ?buf < 2 ^ 63" "length ms < 2 ^ 64"
    using assms by simp_all
  have rem: "unat (remaining vector_ops (v # n # ms) (istream_at 2 ByteIStream)) = length ms" for v
    using vec.remaining_at [of "v # n # ms" 2 ByteIStream] small unat_of_nat_64 [of "length ms"] by simp
  have "handle_client_handshake junk a port c (Data [v, n] # Data ms # as) =
      (if v \<noteq> 5 then ([], Returned)
       else if of_nat (length ms) < (ucast n :: sz) then ([], Returned)
       else method_loop (length ms) junk False (reader_at ?buf 2 as) (\<lambda>is_ok st.
         if \<not> is_ok then ([], Returned) else emit (Write [5, 0]) (handshake_request junk a port c st)))"
    using rem
    by (simp add: handle_client_handshake_def reader_start await_read_data hs_u8_at flip: numeral_2_eq_2)
  also have "method_loop (length ms) junk False (reader_at ?buf 2 as) (\<lambda>is_ok st.
         if \<not> is_ok then ([], Returned) else emit (Write [5, 0]) (handshake_request junk a port c st)) =
      (if 0 \<notin> set ms then ([], Returned)
       else emit (Write [5, 0]) (handshake_request junk a port c (reader_at ?buf (2 + length ms) as)))"
    by (subst method_loop_at) (use small in simp_all)
  finally show ?thesis
    using less_ucast_u8 [OF small(2), of n] by (simp add: not_less)
qed

text \<open>The request, when its four bytes arrived together at the end of the buffer.\<close>

lemma handshake_request_at:
  assumes "length buf < 2 ^ 62"
  shows "handshake_request junk a port c (reader_at buf (length buf) (Data [v, cmd, rsv, atype] # as)) =
     (let st = reader_at (buf @ [v, cmd, rsv, atype]) (length buf + 4) as in
      if v \<noteq> 5 \<or> cmd \<noteq> 1 then ([], Returned)
      else if atype = 1 then
        await_read 4 st (\<lambda>read st. if read < 4 then ([], Returned)
          else hs_ipv4 a st (\<lambda>addr st. handshake_connect port c addr st))
      else if atype = 3 then handshake_connect port c a st
      else ([], Returned))"
proof -
  let ?buf = "buf @ [v, cmd, rsv, atype]"
  have rd: "hs_u8 junk (reader_at ?buf (length buf) as) k = k v (reader_at ?buf (length buf + 1) as)"
    "hs_u8 junk (reader_at ?buf (length buf + 1) as) k = k cmd (reader_at ?buf (length buf + 2) as)"
    "hs_u8 junk (reader_at ?buf (length buf + 2) as) k = k rsv (reader_at ?buf (length buf + 3) as)"
    "hs_u8 junk (reader_at ?buf (length buf + 3) as) k = k atype (reader_at ?buf (length buf + 4) as)" for k
    by (rule hs_u8_step; use assms in \<open>simp add: nth_append\<close>)+
  have "\<not> of_nat (length [v, cmd, rsv, atype]) < (4 :: sz)"
    by simp
  then show ?thesis
    unfolding handshake_request_def await_read_data Let_def by (simp only: if_False rd) simp
qed

lemma handshake_request_ipv4:
  assumes "length buf < 2 ^ 62" and "length ip = 4"
  shows "handshake_request junk a port c (reader_at buf (length buf) (Data [5, 1, rsv, 1] # Data ip # as)) =
     handshake_connect port c ip (reader_at (buf @ [5, 1, rsv, 1] @ ip) (length (buf @ [5, 1, rsv, 1] @ ip)) as)"
  using assms hs_ipv4_at [of "length buf + 4" "(buf @ [5, 1, rsv, 1]) @ ip"]
  by (simp add: handshake_request_at await_read_data Let_def add.assoc)

lemma handshake_request_domain:
  assumes "length buf < 2 ^ 62"
  shows "handshake_request junk a port c (reader_at buf (length buf) (Data [5, 1, rsv, 3] # as)) =
     handshake_connect port c a (reader_at (buf @ [5, 1, rsv, 3]) (length (buf @ [5, 1, rsv, 3])) as)"
proof -
  have "length (buf @ [5, 1, rsv, 3]) = length buf + 4"
    by simp
  then show ?thesis
    using assms by (simp only: handshake_request_at Let_def) simp
qed

text \<open>The port and the connection, at the end of the buffer.\<close>

lemma handshake_connect_at:
  assumes "length buf < 2 ^ 62" and "length d < 2 ^ 62"
  shows "handshake_connect port c addr (reader_at buf (length buf) (Data d # as)) =
     emit (Connect addr (if 2 \<le> length d then be16 (d ! 0) (d ! 1) else port))
       (case c of None \<Rightarrow> ([], Returned)
        | Some r \<Rightarrow> emit (Write [0x05, 0x00, 0x00, 0x01, 127, 0, 0, 1, 0xB8, 22]) ([], Forwarding))"
proof -
  have small: "length (buf @ d) < 2 ^ 63"
    using assms by simp
  have "(buf @ d) ! length buf = d ! 0" "(buf @ d) ! (length buf + 1) = d ! 1" if "2 \<le> length d"
    using that by (simp_all add: nth_append)
  with hs_u16_at [of "length buf" "buf @ d", OF _ small] show ?thesis
    by (simp add: handshake_connect_def await_read_data)
qed

section \<open>Answers and completions\<close>

text \<open>The result code and the data with which the kernel completes a read, and which answers it can give.\<close>

fun answer_res :: "read_answer \<Rightarrow> int" where
  "answer_res (Data d) = int (length d)"
| "answer_res Reset = -104"
| "answer_res (Failed e) = e"

fun answer_data :: "read_answer \<Rightarrow> u8 list" where
  "answer_data (Data d) = d"
| "answer_data _ = []"

fun answer_ok :: "sz \<Rightarrow> read_answer \<Rightarrow> bool" where
  "answer_ok n (Data d) = (length d \<le> unat n)"
| "answer_ok n Reset = True"
| "answer_ok n (Failed e) = (e < 0 \<and> e \<noteq> -104)"

section \<open>No crash\<close>

text \<open>
  Readers whose kernel never reports an error other than a reset and whose buffer stays within
  what a vector can hold.
\<close>

fun answer_size :: "read_answer \<Rightarrow> nat" where
  "answer_size (Data d) = length d"
| "answer_size _ = 0"

fun answer_failed :: "read_answer \<Rightarrow> bool" where
  "answer_failed (Failed e) = True"
| "answer_failed _ = False"

definition reader_ok :: "reader \<Rightarrow> bool" where
  "reader_ok st \<longleftrightarrow> unat (is_cursor (rd_stream st)) \<le> length (rd_buffer st) \<and>
     length (rd_buffer st) + sum_list (map answer_size (rd_answers st)) < 2 ^ 63 \<and>
     (\<forall>a. a \<in> set (rd_answers st) \<longrightarrow> \<not> answer_failed a)"

definition no_crash :: "action list \<times> outcome \<Rightarrow> bool" where
  "no_crash r \<longleftrightarrow> (\<forall>f. snd r \<noteq> Crashed f)"

named_theorems no_crash_rules \<open>steps of the handshake that cannot crash\<close>

lemma no_crash_return [no_crash_rules]: "no_crash ([], Returned)" "no_crash ([], Forwarding)" "no_crash ([], Never_resumed)"
  by (simp_all add: no_crash_def)

lemma no_crash_emit [no_crash_rules]: "no_crash r \<Longrightarrow> no_crash (emit a r)"
  by (simp add: no_crash_def emit_def)

lemma no_crash_if [no_crash_rules]: "(c \<Longrightarrow> no_crash r) \<Longrightarrow> (\<not> c \<Longrightarrow> no_crash r') \<Longrightarrow> no_crash (if c then r else r')"
  by simp

lemma no_crash_await [no_crash_rules]:
  assumes "reader_ok st" and "\<And>n st'. reader_ok st' \<Longrightarrow> no_crash (k n st')"
  shows "no_crash (await_read n st k)"
proof (cases "rd_answers st")
  case Nil
  then show ?thesis by (simp add: await_read_def no_crash_def)
next
  case (Cons a as)
  show ?thesis
  proof (cases a)
    case (Data d)
    have "reader_ok (st\<lparr>rd_buffer := rd_buffer st @ d, rd_answers := as\<rparr>)"
      using assms(1) Cons Data by (auto simp: reader_ok_def)
    then show ?thesis
      using Cons Data assms(2) by (simp add: await_read_def)
  qed (use Cons assms(1) in \<open>auto simp: await_read_def no_crash_def reader_ok_def\<close>)
qed

lemma no_crash_stream:
  assumes "reader_ok st" and "consumes (length (rd_buffer st)) n (rd_stream st) r"
    and "\<And>x st'. reader_ok st' \<Longrightarrow> no_crash (k x st')"
  shows "no_crash (case r of Inl f \<Rightarrow> ([], Crashed f) | Inr (s, x) \<Rightarrow> k x (st\<lparr>rd_stream := s\<rparr>))"
proof -
  obtain s x where r: "r = Inr (s, x)" "unat (is_cursor s) \<le> length (rd_buffer st)"
    using assms(2) by (auto simp: consumes_def)
  then have "reader_ok (st\<lparr>rd_stream := s\<rparr>)"
    using assms(1) by (simp add: reader_ok_def)
  with r assms(3) show ?thesis by simp
qed

lemma no_crash_reads [no_crash_rules]:
  assumes "reader_ok st"
  shows "(\<And>x st'. reader_ok st' \<Longrightarrow> no_crash (k x st')) \<Longrightarrow> no_crash (hs_u8 j st k)"
    and "(\<And>x st'. reader_ok st' \<Longrightarrow> no_crash (k2 x st')) \<Longrightarrow> no_crash (hs_u16 j2 st k2)"
    and "(\<And>x st'. reader_ok st' \<Longrightarrow> no_crash (k3 x st')) \<Longrightarrow> no_crash (hs_ipv4 j3 st k3)"
  unfolding hs_u8_def hs_u16_def hs_ipv4_def
  using assms
  by (auto intro!: no_crash_stream vec.read_u8_cost vec.read_u16_cost vec.read_array_cost simp: reader_ok_def)

lemma no_crash_loop [no_crash_rules]:
  assumes "\<And>b st'. reader_ok st' \<Longrightarrow> no_crash (k b st')"
  shows "reader_ok st \<Longrightarrow> no_crash (method_loop fuel j b st k)"
proof (induction fuel arbitrary: b st)
  case 0
  then show ?case
    using assms by (subst method_loop.simps) (simp add: no_crash_def)
next
  case (Suc fuel)
  then show ?case
    using assms by (subst method_loop.simps) (auto intro!: no_crash_rules)
qed

lemma emit_simps [simp]: "fst (emit a r) = a # fst r" "snd (emit a r) = snd r"
  by (simp_all add: emit_def)

section \<open>Writes of the forwarder\<close>

lemma forward_writes:
  "forward_connection_data buf (map Data ds) =
     (map (\<lambda>i. Write (buf @ concat (take (Suc i) ds))) [0..<length ds], Never_resumed)"
proof (induction ds arbitrary: buf)
  case (Cons d ds)
  then show ?case
    by (simp add: emit_def upt_conv_Cons map_Suc_upt [symmetric] del: upt_Suc)
qed simp

fun sent :: "action list \<Rightarrow> u8 list" where
  "sent [] = []"
| "sent (Write b # as) = b @ sent as"
| "sent (Connect a p # as) = sent as"

lemma sent_writes: "sent (map (\<lambda>i. Write (f i)) is) = concat (map f is)"
  by (induction "is") simp_all

section \<open>Properties\<close>

text \<open>
  C9: a read as a coroutine sees it is a read as the event loop does it. Submitting a read into the
  coroutine's vector and handling its completion with the result and data of an answer gives the
  same continuation as the answer: the count and the vector that the future and the loop leave,
  no resumption when the future is not resolved, a crash when the loop throws.
\<close>

theorem await_read_refines:
  assumes "submit_read_some_vec fd vec n io = Inr (io1, h)" and "length (io_vecs io vec) + unat n < 2 ^ 63"
    and "rd_buffer st = io_vecs io vec" and "rd_answers st = x # as" and "answer_ok n x"
  shows "await_read n st k =
     (case complete_one (io_next io, answer_res x, answer_data x) io1 of
        Inl f \<Rightarrow> ([], Crashed f)
      | Inr (io2, []) \<Rightarrow> ([], Never_resumed)
      | Inr (io2, r # rs) \<Rightarrow>
          (case r of
             Set_size g count \<Rightarrow> k count (st\<lparr>rd_buffer := io_vecs io2 vec, rd_answers := as\<rparr>)
           | _ \<Rightarrow> ([], Never_resumed)))"
proof -
  let ?v = "io_vecs io vec"
  have len: "length (answer_data x) \<le> unat n"
    using assms(5) by (cases x) simp_all
  obtain io2 where io2: "complete_one (io_next io, answer_res x, answer_data x) io1 =
     (if answer_res x = -104 then Inr (io2, [])
      else rbind (vector_resize (?v @ answer_data x @ replicate (unat n - length (answer_data x)) 0)
          (of_nat (length ?v) + of_int (answer_res x))) (\<lambda>v.
        Inr (io2\<lparr>io_vecs := (io_vecs io2)(vec := v)\<rparr>, [Set_size h (of_int (answer_res x))])))"
    using complete_read_vec [OF assms(1,2) len refl] by blast
  show ?thesis
  proof (cases x)
    case (Data d)
    have "unat (of_nat (length ?v) + of_nat (length d) :: sz) = length ?v + length d"
      using assms(2) len Data unat_of_nat_64 [of "length ?v + length d"] by simp
    then have "vector_resize (?v @ d @ replicate (unat n - length d) 0) (of_nat (length ?v) + of_nat (length d)) = Inr (?v @ d)"
      using assms(2) len Data by (simp add: vector_resize_def vector_max_size_def)
    then show ?thesis
      using io2 Data assms(3,4) by (simp add: await_read_def)
  qed (use io2 assms(3-5) in \<open>auto simp: await_read_def split: sum.splits\<close>)
qed

theorem await_read_refines_witness:
  "\<exists>io1 h. submit_read_some_vec 5 0 4 (IOContext_new 8 [] (\<lambda>_. [1, 2])) = Inr (io1, h) \<and>
     (case complete_one (0, 2, [7, 8]) io1 of
        Inl f \<Rightarrow> ([], Crashed f)
      | Inr (io2, []) \<Rightarrow> ([], Never_resumed)
      | Inr (io2, r # rs) \<Rightarrow>
          (case r of Set_size g count \<Rightarrow> ([Write (io_vecs io2 0)], Returned) | _ \<Rightarrow> ([], Never_resumed))) =
     ([Write [1, 2, 7, 8]], Returned)"
proof -
  obtain io1 h where s: "submit_read_some_vec 5 0 4 (IOContext_new 8 [] (\<lambda>_. [1, 2])) = Inr (io1, h)"
    by (simp add: submit_read_some_vec_def io_submit_def io_push_def IOContext_new_def vector_resize_def vector_max_size_def)
  from await_read_refines [OF s, of "\<lparr>rd_buffer = [1, 2], rd_stream = ByteIStream, rd_answers = [Data [7, 8]]\<rparr>" "Data [7, 8]" "[]"
      "\<lambda>n st. ([Write (rd_buffer st)], Returned)"] s show ?thesis
    by (simp add: IOContext_new_def await_read_def split: sum.splits list.splits prod.splits resolution.splits)
qed

text \<open>
  C7: a well-formed client is served. A client that offers the method 0 among as many methods as it
  announces and asks to connect to an IPv4 address, each message arriving in one piece, gets the
  method reply; the server connects to exactly that address and port; and if that succeeds the
  client gets the success reply and data is forwarded, otherwise the handshake ends.
\<close>

theorem handshake_serves_ipv4:
  assumes "length ms = unat n" and "0 \<in> set ms" and "length ip = 4"
  shows "handle_client_handshake junk a port c
       [Data [5, n], Data ms, Data [5, 1, rsv, 1], Data ip, Data [hi, lo]] =
     (case c of
        Some r \<Rightarrow> ([Write [5, 0], Connect ip (be16 hi lo), Write [5, 0, 0, 1, 127, 0, 0, 1, 0xB8, 22]], Forwarding)
      | None \<Rightarrow> ([Write [5, 0], Connect ip (be16 hi lo)], Returned))"
proof -
  let ?b = "[5, n] @ ms"
  have len: "length ms < 256"
    using assms(1) unat_u8_less [of n] by simp
  have req: "handshake_request junk a port c (reader_at ?b (length ?b) [Data [5, 1, rsv, 1], Data ip, Data [hi, lo]]) =
      handshake_connect port c ip (reader_at (?b @ [5, 1, rsv, 1] @ ip) (length (?b @ [5, 1, rsv, 1] @ ip)) [Data [hi, lo]])"
    by (rule handshake_request_ipv4) (use len assms(3) in simp_all)
  have con: "handshake_connect port c ip (reader_at (?b @ [5, 1, rsv, 1] @ ip) (length (?b @ [5, 1, rsv, 1] @ ip)) [Data [hi, lo]]) =
      emit (Connect ip (be16 hi lo)) (case c of None \<Rightarrow> ([], Returned)
        | Some r \<Rightarrow> emit (Write [0x05, 0x00, 0x00, 0x01, 127, 0, 0, 1, 0xB8, 22]) ([], Forwarding))"
    using len assms(3) by (subst handshake_connect_at) simp_all
  have "handle_client_handshake junk a port c [Data [5, n], Data ms, Data [5, 1, rsv, 1], Data ip, Data [hi, lo]] =
      emit (Write [5, 0]) (handshake_request junk a port c (reader_at ?b (length ?b) [Data [5, 1, rsv, 1], Data ip, Data [hi, lo]]))"
    using len assms(1,2) by (subst handshake_auth) simp_all
  then show ?thesis
    unfolding req con by (simp add: emit_def split: option.splits)
qed

theorem handshake_serves_ipv4_witness:
  "handle_client_handshake 0 [] 0 (Some 9)
     [Data [5, 2], Data [1, 0], Data [5, 1, 0, 1], Data [93, 184, 216, 34], Data [0x00, 0x50]] =
     ([Write [5, 0], Connect [93, 184, 216, 34] (be16 0 0x50), Write [5, 0, 0, 1, 127, 0, 0, 1, 0xB8, 22]], Forwarding)"
  using handshake_serves_ipv4 [of "[1, 0]" 2 "[93, 184, 216, 34]" 0 "[]" 0 "Some 9" 0 0 "0x50"] by simp

text \<open>
  C37: a connection goes where the client asked, and its outcome comes back. The entry that
  \<^verbatim>\<open>handle_connection\<close> submits has the address and, in memory, the two bytes of the port in the order in
  which they were read; completing it gives the future the socket when the kernel reports
  success and nothing when it reports an error.
\<close>

theorem connect_delivers:
  assumes "handle_connection sockfd ip (be16 hi lo) io = Inr (io1, h)"
  shows "\<exists>p. io_sq io1 = io_sq io @ [(Sqe_connect sockfd (p, ip), io_next io)] \<and> lo8 p = hi \<and> hi8 p = lo \<and>
     (\<exists>io2. complete_one (io_next io, r, []) io1 = Inr (io2, [Set_opt_socket h (if r < 0 then None else Some sockfd)]) \<and>
       io_heap io2 (io_next io) = None)"
  using assms
  by (auto simp: handle_connection_def submit_connect_ipv4_def submit_connect_def io_submit_def io_push_def htons_def Let_def
      rbind_eq_Inr complete_one_def kernel_store_def handle_pending_def split: if_splits)

theorem connect_delivers_witness:
  "\<exists>io1 h p. handle_connection 6 [10, 0, 0, 7] (be16 0x1F 0x90) (IOContext_new 4 [] (\<lambda>_. [])) = Inr (io1, h) \<and>
     io_sq io1 = [(Sqe_connect 6 (p, [10, 0, 0, 7]), 0)] \<and> lo8 p = 0x1F \<and> hi8 p = 0x90"
proof -
  obtain io1 h where s: "handle_connection 6 [10, 0, 0, 7] (be16 0x1F 0x90) (IOContext_new 4 [] (\<lambda>_. [])) = Inr (io1, h)"
    by (simp add: handle_connection_def submit_connect_ipv4_def submit_connect_def io_submit_def io_push_def IOContext_new_def)
  from connect_delivers [OF s] s show ?thesis
    by (fastforce simp: IOContext_new_def)
qed



text \<open>
  A request for a domain name is not refused. The server connects to an address it never
  read, the one the variant was constructed with, and takes the first two bytes of the name field for the port, or
  an uninitialised port when fewer arrive.
\<close>

theorem handshake_domain_name:
  assumes "length ms = unat n" and "0 \<in> set ms" and "length d \<le> 2"
  shows "fst (handle_client_handshake junk u_address u_port None
       [Data [5, n], Data ms, Data [5, 1, rsv, 3], Data d]) =
     [Write [5, 0], Connect u_address (if length d = 2 then be16 (d ! 0) (d ! 1) else u_port)]"
proof -
  let ?b = "[5, n] @ ms"
  have len: "length ms < 256"
    using assms(1) unat_u8_less [of n] by simp
  have "handle_client_handshake junk u_address u_port None [Data [5, n], Data ms, Data [5, 1, rsv, 3], Data d] =
      emit (Write [5, 0]) (handshake_request junk u_address u_port None
        (reader_at ?b (length ?b) [Data [5, 1, rsv, 3], Data d]))"
    using len assms(1,2) by (subst handshake_auth) simp_all
  also have "handshake_request junk u_address u_port None (reader_at ?b (length ?b) [Data [5, 1, rsv, 3], Data d]) =
      handshake_connect u_port None u_address (reader_at (?b @ [5, 1, rsv, 3]) (length (?b @ [5, 1, rsv, 3])) [Data d])"
    by (rule handshake_request_domain) (use len in simp)
  also have "\<dots> = emit (Connect u_address (if 2 \<le> length d then be16 (d ! 0) (d ! 1) else u_port)) ([], Returned)"
    using len assms(3) by (subst handshake_connect_at) simp_all
  finally show ?thesis
    using assms(3) by auto
qed

theorem handshake_domain_name_witness:
  "fst (handle_client_handshake 0 [192, 168, 0, 1] 0xDEAD None [Data [5, 1], Data [0], Data [5, 1, 0, 3], Data [7]]) =
     [Write [5, 0], Connect [192, 168, 0, 1] 0xDEAD]"
  using handshake_domain_name [of "[0]" 1 "[7]" 0 "[192, 168, 0, 1]" "0xDEAD" 0] by simp

text \<open>
  C33: no client can crash the handshake with what it sends. For every sequence of reads that
  deliver data or end in a reset, with less than \<open>2\<^sup>6\<^sup>3\<close> bytes in all, every access stays inside
  the buffer and no exception is thrown.
\<close>

theorem handshake_no_crash:
  assumes "\<forall>x. x \<in> set answers \<longrightarrow> \<not> answer_failed x" and "sum_list (map answer_size answers) < 2 ^ 63"
  shows "snd (handle_client_handshake junk a port c answers) \<noteq> Crashed f"
proof -
  have ok: "reader_ok \<lparr>rd_buffer = [], rd_stream = ByteIStream, rd_answers = answers\<rparr>"
    using assms by (simp add: reader_ok_def ByteIStream_def)
  have connect: "no_crash (handshake_connect port c x st)" if "reader_ok st" for x st
    unfolding handshake_connect_def using that by (cases c) (auto intro!: no_crash_rules)
  have request: "no_crash (handshake_request junk a port c st)" if "reader_ok st" for st
    unfolding handshake_request_def using that by (intro no_crash_rules connect)
  have "no_crash (handle_client_handshake junk a port c answers)"
    unfolding handle_client_handshake_def by (intro no_crash_rules request ok)
  then show ?thesis by (simp add: no_crash_def)
qed

theorem handshake_no_crash_witness:
  "snd (handle_client_handshake 0 [] 0 None [Data [5, 200], Data [1, 2, 3], Reset]) \<noteq> Crashed Undefined_behaviour"
  by (rule handshake_no_crash) auto

text \<open>
  The forwarder sends everything again. After the reads \<open>ds\<close> it has written, for each of them, all
  data received so far, because the buffer is never cleared; the bytes sent are those received
  only if nothing came before the last read. It never returns, at the end of the stream it goes
  on writing.
\<close>

theorem forward_resends:
  "fst (forward_connection_data [] (map Data ds)) = map (\<lambda>i. Write (concat (take (Suc i) ds))) [0..<length ds] \<and>
   snd (forward_connection_data [] (map Data ds)) = Never_resumed \<and>
   (sent (fst (forward_connection_data [] (map Data ds))) = concat ds \<longleftrightarrow> concat (butlast ds) = [])"
proof -
  let ?f = "\<lambda>i. concat (take (Suc i) ds)"
  have w: "forward_connection_data [] (map Data ds) = (map (\<lambda>i. Write (?f i)) [0..<length ds], Never_resumed)"
    using forward_writes [of "[]" ds] by simp
  have s: "sent (map (\<lambda>i. Write (?f i)) [0..<length ds]) = concat (map ?f [0..<length ds])"
    by (rule sent_writes)
  have "concat (map ?f [0..<length ds]) = concat ds \<longleftrightarrow> concat (butlast ds) = []"
  proof (cases ds rule: rev_cases)
    case (snoc es d)
    have "map ?f [0..<length es] = map (\<lambda>i. concat (take (Suc i) es)) [0..<length es]"
      using snoc by (intro map_cong) auto
    then have "concat (map ?f [0..<length ds]) = concat (map (\<lambda>i. concat (take (Suc i) es)) [0..<length es]) @ concat es @ d"
      using snoc by (simp del: take_append map_eq_conv)
    moreover have "concat (map (\<lambda>i. concat (take (Suc i) es)) [0..<length es]) = [] \<longleftrightarrow> concat es = []"
    proof (cases es rule: rev_cases)
      case (snoc gs g)
      then show ?thesis
        by (auto simp: concat_eq_Nil_conv dest: in_set_takeD)
    qed simp
    ultimately show ?thesis
      using snoc by auto
  qed simp
  with w s show ?thesis by simp
qed

end
