(* ===== verification/Toad_Session.thy ===== *)
theory Toad_Session
  imports Toad_Socks5 Toad_Join
begin

text \<open>
  A SOCKS5 session after its handshake, the block of \<^verbatim>\<open>handle_client_handshake\<close> with the \<^verbatim>\<open>JoinSet\<close>: two coroutines of
  \<^verbatim>\<open>forward_connection_data_\<close>, one for each direction, run side by side and the handshake's coroutine awaits the set.
  A direction is served whenever the event loop completes its read, so the two interleave
  in any order.
\<close>

section \<open>The session\<close>

datatype direction = Up | Down

text \<open>The buffer of each forwarder, \<open>None\<close> once its read was never answered; and the set.\<close>

record session =
  ss_client :: int
  ss_remote :: int
  ss_buffer :: "direction \<Rightarrow> u8 list option"
  ss_join :: JoinSet

definition session_start :: "int \<Rightarrow> int \<Rightarrow> session res" where
  "session_start client remote =
     rbind (join_spawn JoinSet_new) (\<lambda>js. rbind (join_spawn js) (\<lambda>js.
     Inr \<lparr>ss_client = client, ss_remote = remote, ss_buffer = (\<lambda>_. Some []), ss_join = js\<rparr>))"

fun session_rhs :: "session \<Rightarrow> direction \<Rightarrow> int" where
  "session_rhs s Up = ss_remote s"
| "session_rhs s Down = ss_client s"

text \<open>
  One iteration of a forwarder's loop: its read is answered, and it submits the write of its
  buffer, the socket and bytes of which are returned. The other events are the accesses of the
  awaiting coroutine to the set.
\<close>

datatype session_event = Answer direction read_answer | Await notify_event

fun session_step :: "session_event \<Rightarrow> session \<Rightarrow> (session \<times> (int \<times> u8 list) list) res option" where
  "session_step (Answer d a) s =
     (case ss_buffer s d of
        None \<Rightarrow> None
      | Some buffer \<Rightarrow>
          (case a of
             Data x \<Rightarrow>
               let buffer = buffer @ x
               in Some (Inr (s\<lparr>ss_buffer := (ss_buffer s)(d \<mapsto> buffer)\<rparr>, [(session_rhs s d, buffer)]))
           | Reset \<Rightarrow> Some (Inr (s\<lparr>ss_buffer := (ss_buffer s)(d := None)\<rparr>, []))
           | Failed e \<Rightarrow>
               Some (rbind (vector_resize (buffer @ replicate 1024 0) (of_nat (length buffer) + of_int e)) (\<lambda>buffer.
                 Inr (s\<lparr>ss_buffer := (ss_buffer s)(d \<mapsto> buffer)\<rparr>, [(session_rhs s d, buffer)])))))"
| "session_step (Await e) s = map_option (\<lambda>js. Inr (s\<lparr>ss_join := js\<rparr>, [])) (join_notify_step e (ss_join s))"

fun session_run :: "session_event list \<Rightarrow> session \<Rightarrow> (session \<times> (int \<times> u8 list) list) res option" where
  "session_run [] s = Some (Inr (s, []))"
| "session_run (e # es) s =
     (case session_step e s of
        None \<Rightarrow> None
      | Some (Inl f) \<Rightarrow> Some (Inl f)
      | Some (Inr (s', ws)) \<Rightarrow> map_option (\<lambda>r. rbind r (\<lambda>(s'', ws'). Inr (s'', ws @ ws'))) (session_run es s'))"

text \<open>The answers to the reads of one direction, and what was sent to one socket.\<close>

fun answers_to :: "direction \<Rightarrow> session_event list \<Rightarrow> read_answer list" where
  "answers_to d [] = []"
| "answers_to d (Answer d' a # es) = (if d' = d then a # answers_to d es else answers_to d es)"
| "answers_to d (Await e # es) = answers_to d es"

definition sent_to :: "int \<Rightarrow> (int \<times> u8 list) list \<Rightarrow> action list" where
  "sent_to fd ws = map (\<lambda>w. Write (snd w)) (filter (\<lambda>w. fst w = fd) ws)"

lemma sent_to_simps [simp]:
  "sent_to fd [] = []" "sent_to fd (w # ws) = (if fst w = fd then [Write (snd w)] else []) @ sent_to fd ws"
  "sent_to fd (ws @ ws') = sent_to fd ws @ sent_to fd ws'"
  by (simp_all add: sent_to_def)

section \<open>Runs\<close>

lemma session_step_frame:
  assumes "session_step e s = Some (Inr (s', ws))"
  shows "ss_client s' = ss_client s" and "ss_remote s' = ss_remote s" and "session_rhs s' d = session_rhs s d"
    and "js_awaiting (ss_join s') = js_awaiting (ss_join s)" and "js_live (ss_join s') = js_live (ss_join s)"
    and "nf_fired (js_notify (ss_join s')) = nf_fired (js_notify (ss_join s))"
proof -
  show c: "ss_client s' = ss_client s" and r: "ss_remote s' = ss_remote s"
    and "js_awaiting (ss_join s') = js_awaiting (ss_join s)" and "js_live (ss_join s') = js_live (ss_join s)"
    and "nf_fired (js_notify (ss_join s')) = nf_fired (js_notify (ss_join s))"
    using assms
    by (cases e; auto simp: Let_def rbind_eq_Inr join_notify_step_def simp del: notify_step.simps dest: notify_step_fired
      split: option.splits read_answer.splits if_splits)+
  show "session_rhs s' d = session_rhs s d"
    using c r by (cases d) simp_all
qed

lemma session_rhs_eq: "ss_client s \<noteq> ss_remote s \<Longrightarrow> session_rhs s d = session_rhs s d' \<longleftrightarrow> d = d'"
  by (cases d; cases d') auto

text \<open>What one forwarder has to do from its present buffer on.\<close>

definition forward_rest :: "session \<Rightarrow> direction \<Rightarrow> read_answer list \<Rightarrow> action list \<times> outcome" where
  "forward_rest s d as = (case ss_buffer s d of None \<Rightarrow> ([], Never_resumed) | Some b \<Rightarrow> forward_connection_data b as)"

text \<open>A step is a step of its own direction's forwarder and nothing for the other.\<close>

lemma session_step_forward:
  assumes "session_step e s = Some (Inr (s', ws))" and "ss_client s \<noteq> ss_remote s"
  shows "forward_rest s d (answers_to d (e # es)) =
     (sent_to (session_rhs s d) ws @ fst (forward_rest s' d (answers_to d es)), snd (forward_rest s' d (answers_to d es)))"
proof (cases e)
  case (Answer d' a)
  then obtain b where b: "ss_buffer s d' = Some b"
    using assms(1) by (auto split: option.splits)
  show ?thesis
  proof (cases "d' = d")
    case True
    with Answer b assms(1) show ?thesis
      by (cases a) (auto simp: forward_rest_def Let_def rbind_eq_Inr emit_def case_prod_beta)
  next
    case False
    then have "session_rhs s d' \<noteq> session_rhs s d"
      using session_rhs_eq [OF assms(2)] by simp
    with Answer b assms(1) False show ?thesis
      by (cases a) (auto simp: forward_rest_def Let_def rbind_eq_Inr split: option.splits)
  qed
next
  case (Await x)
  with assms(1) show ?thesis
    by (auto simp: forward_rest_def split: option.splits)
qed

lemma session_run_forward:
  assumes "session_run es s = Some (Inr (s', ws))" and "ss_client s \<noteq> ss_remote s"
  shows "forward_rest s d (answers_to d es) = (sent_to (session_rhs s d) ws, Never_resumed)"
  using assms
proof (induction es arbitrary: s ws)
  case Nil
  then show ?case
    by (simp add: forward_rest_def split: option.splits)
next
  case (Cons e es)
  then obtain s1 ws1 ws2 where st: "session_step e s = Some (Inr (s1, ws1))" "session_run es s1 = Some (Inr (s', ws2))" "ws = ws1 @ ws2"
    by (auto simp: rbind_eq_Inr simp del: session_step.simps split: option.splits sum.splits prod.splits)
  have "forward_rest s1 d (answers_to d es) = (sent_to (session_rhs s1 d) ws2, Never_resumed)"
    using st(2) Cons.prems(2) session_step_frame(1,2) [OF st(1)] by (intro Cons.IH) simp_all
  with session_step_forward [OF st(1) Cons.prems(2), of d es] session_step_frame(3) [OF st(1)] st(3) show ?case
    by simp
qed

lemma session_run_join:
  "session_run es s = Some (Inr (s', ws)) \<Longrightarrow> js_awaiting (ss_join s') = js_awaiting (ss_join s) \<and>
     js_live (ss_join s') = js_live (ss_join s) \<and> nf_fired (js_notify (ss_join s')) = nf_fired (js_notify (ss_join s))"
proof (induction es arbitrary: s ws)
  case (Cons e es)
  then obtain s1 ws1 ws2 where st: "session_step e s = Some (Inr (s1, ws1))" "session_run es s1 = Some (Inr (s', ws2))"
    by (auto simp: rbind_eq_Inr simp del: session_step.simps split: option.splits sum.splits prod.splits)
  with Cons.IH [OF st(2)] session_step_frame(4-6) [OF st(1)] show ?case
    by simp
qed simp

section \<open>Properties\<close>



end
