(* ===== verification/Toad_Condvar.thy ===== *)
theory Toad_Condvar
  imports Toad_Prelude
begin

text \<open>
  \<^verbatim>\<open>std::mutex\<close> with \<^verbatim>\<open>std::condition_variable\<close>, as \<^verbatim>\<open>concurrency/executor.hpp\<close> and \<^verbatim>\<open>concurrency/join.hpp\<close> use them: threads that wait with
  \<^verbatim>\<open>wait(lock, pred)\<close>, and updates of the shared state that are followed by \<^verbatim>\<open>notify_one\<close> or \<^verbatim>\<open>notify_all\<close>. A thread that finds the
  predicate false keeps the mutex until it is registered as a sleeper; a notification reaches only
  threads that sleep when it is made. What a correct use promises is a locale.
\<close>

section \<open>Monitors\<close>

text \<open>
  Where a thread stands: not in \<^verbatim>\<open>wait\<close> or about to take the mutex, with the mutex before the test of the
  predicate, with the mutex after it was false, asleep, and gone for good.
\<close>

datatype wait_pc = Outside | Testing | Blocking | Asleep | Gone_away

text \<open>
  \<open>mn_one\<close> and \<open>mn_all\<close> count the calls of \<^verbatim>\<open>notify_one\<close> and \<^verbatim>\<open>notify_all\<close> that are due: their update was made and the call is
  still to come.
\<close>

record 's monitor =
  mn_state :: 's
  mn_lock :: "nat option"
  mn_wait :: "nat \<Rightarrow> wait_pc"
  mn_one :: nat
  mn_all :: nat

datatype notify_kind = No_notify | Notify_one | Notify_all

datatype 'e monitor_event = Enter nat | Test nat | Block nat | Spurious nat | Update 'e | Signal_one "nat option" | Signal_all

definition monitor_start :: "'s \<Rightarrow> 's monitor" where
  "monitor_start s = \<lparr>mn_state = s, mn_lock = None, mn_wait = (\<lambda>_. Outside), mn_one = 0, mn_all = 0\<rparr>"

text \<open>
  The code around the condition variable, for threads \<open>0, \<dots>, num - 1\<close>: when a thread may enter (\<open>ready\<close>), the predicate (\<open>pred\<close>), what it
  does with the mutex once the predicate holds and whether it then goes away (\<open>act\<close>), and the
  updates (\<open>upd\<close>), which of them take the mutex (\<open>locked\<close>), and how they notify (\<open>kind\<close>).
\<close>

record ('s, 'e) monitor_code =
  mc_num :: nat
  mc_ready :: "nat \<Rightarrow> 's \<Rightarrow> bool"
  mc_pred :: "'s \<Rightarrow> bool"
  mc_act :: "nat \<Rightarrow> 's \<Rightarrow> 's \<times> bool"
  mc_upd :: "'e \<Rightarrow> 's \<Rightarrow> 's res option"
  mc_locked :: "'e \<Rightarrow> bool"
  mc_kind :: "'e \<Rightarrow> 's \<Rightarrow> notify_kind"

abbreviation set_wait :: "nat \<Rightarrow> wait_pc \<Rightarrow> 's monitor \<Rightarrow> 's monitor" where
  "set_wait n pc s \<equiv> s\<lparr>mn_wait := (mn_wait s)(n := pc)\<rparr>"

fun monitor_step :: "('s, 'e) monitor_code \<Rightarrow> 'e monitor_event \<Rightarrow> 's monitor \<Rightarrow> 's monitor res option" where
  "monitor_step c (Enter n) s =
     (if n < mc_num c \<and> mn_lock s = None \<and> mn_wait s n = Outside \<and> mc_ready c n (mn_state s)
      then Some (Inr (set_wait n Testing (s\<lparr>mn_lock := Some n\<rparr>))) else None)"
| "monitor_step c (Test n) s =
     (if mn_wait s n = Testing then
        if mc_pred c (mn_state s) then
          let (st, leaves) = mc_act c n (mn_state s)
          in Some (Inr (set_wait n (if leaves then Gone_away else Outside) (s\<lparr>mn_state := st, mn_lock := None\<rparr>)))
        else Some (Inr (set_wait n Blocking s))
      else None)"
| "monitor_step c (Block n) s =
     (if mn_wait s n = Blocking then Some (Inr (set_wait n Asleep (s\<lparr>mn_lock := None\<rparr>))) else None)"
| "monitor_step c (Spurious n) s = (if mn_wait s n = Asleep then Some (Inr (set_wait n Outside s)) else None)"
| "monitor_step c (Update e) s =
     (if mc_locked c e \<and> mn_lock s \<noteq> None then None
      else map_option (\<lambda>r. rbind r (\<lambda>st.
        Inr (s\<lparr>mn_state := st,
          mn_one := mn_one s + (if mc_kind c e (mn_state s) = Notify_one then 1 else 0),
          mn_all := mn_all s + (if mc_kind c e (mn_state s) = Notify_all then 1 else 0)\<rparr>))) (mc_upd c e (mn_state s)))"
| "monitor_step c (Signal_one w) s =
     (if mn_one s = 0 then None
      else
        (case w of
           Some n \<Rightarrow> if mn_wait s n = Asleep then Some (Inr (set_wait n Outside (s\<lparr>mn_one := mn_one s - 1\<rparr>))) else None
         | None \<Rightarrow> if \<forall>n<mc_num c. mn_wait s n \<noteq> Asleep then Some (Inr (s\<lparr>mn_one := mn_one s - 1\<rparr>)) else None))"
| "monitor_step c Signal_all s =
     (if mn_all s = 0 then None
      else Some (Inr (s\<lparr>mn_all := mn_all s - 1, mn_wait := (\<lambda>n. if mn_wait s n = Asleep then Outside else mn_wait s n)\<rparr>)))"

fun monitor_run :: "('s, 'e) monitor_code \<Rightarrow> 'e monitor_event list \<Rightarrow> 's monitor \<Rightarrow> 's monitor res option" where
  "monitor_run c [] s = Some (Inr s)"
| "monitor_run c (e # es) s =
     (case monitor_step c e s of
        None \<Rightarrow> None
      | Some (Inl f) \<Rightarrow> Some (Inl f)
      | Some (Inr s') \<Rightarrow> monitor_run c es s')"

inductive monitor_reachable :: "('s, 'e) monitor_code \<Rightarrow> 's \<Rightarrow> 's monitor \<Rightarrow> bool" for c init where
  start: "monitor_reachable c init (monitor_start init)"
| step: "monitor_reachable c init s \<Longrightarrow> monitor_step c e s = Some (Inr s') \<Longrightarrow> monitor_reachable c init s'"

lemma monitor_run_reachable:
  "monitor_reachable c init s \<Longrightarrow> monitor_run c es s = Some (Inr s') \<Longrightarrow> monitor_reachable c init s'"
  by (induction es arbitrary: s) (auto intro: monitor_reachable.step split: option.splits sum.splits)

lemma monitor_run_append:
  "monitor_run c es s = Some (Inr s') \<Longrightarrow> monitor_run c (es @ es') s = monitor_run c es' s'"
  by (induction es arbitrary: s) (auto split: option.splits sum.splits)

section \<open>Who holds the mutex\<close>

fun holds_mutex :: "wait_pc \<Rightarrow> bool" where
  "holds_mutex Testing = True"
| "holds_mutex Blocking = True"
| "holds_mutex _ = False"

definition lock_inv :: "('s, 'e) monitor_code \<Rightarrow> 's monitor \<Rightarrow> bool" where
  "lock_inv c s \<longleftrightarrow> (\<forall>n. holds_mutex (mn_wait s n) \<longleftrightarrow> mn_lock s = Some n) \<and> (\<forall>n. mn_wait s n \<noteq> Outside \<longrightarrow> n < mc_num c)"

lemma lock_invD:
  assumes "lock_inv c s"
  shows "holds_mutex (mn_wait s n) \<longleftrightarrow> mn_lock s = Some n" and "mn_wait s n \<noteq> Outside \<Longrightarrow> n < mc_num c"
    and "mn_wait s n = Testing \<Longrightarrow> mn_lock s = Some n" and "mn_wait s n = Blocking \<Longrightarrow> mn_lock s = Some n"
  using assms unfolding lock_inv_def by (blast, blast, metis holds_mutex.simps(1), metis holds_mutex.simps(2))

lemma lock_inv_step:
  assumes inv: "lock_inv c s" and step: "monitor_step c e s = Some (Inr s')"
  shows "lock_inv c s'"
proof -
  note h = lock_invD(1) [OF inv]
  have r: "n < mc_num c" if "mn_wait s n = pc" "pc \<noteq> Outside" for n pc
    using lock_invD(2) [OF inv, of n] that by simp
  show ?thesis
  proof (cases e)
    case (Enter n)
    with step h r show ?thesis
      by (auto simp: lock_inv_def split: if_splits)
  next
    case (Test n)
    with step have "mn_lock s = Some n"
      using lock_invD(3) [OF inv] by (auto split: if_splits)
    with Test step h r show ?thesis
      by (auto simp: lock_inv_def Let_def case_prod_beta split: if_splits)
  next
    case (Block n)
    with step have "mn_lock s = Some n"
      using lock_invD(4) [OF inv] by (auto split: if_splits)
    with Block step h r show ?thesis
      by (auto simp: lock_inv_def split: if_splits)
  next
    case (Update x)
    with step h r show ?thesis
      by (auto simp: lock_inv_def rbind_eq_Inr split: if_splits)
  next
    case Signal_all
    with step h r show ?thesis
      by (auto simp: lock_inv_def split: if_splits) (metis holds_mutex.simps(4))+
  qed (use step h r in \<open>auto simp: lock_inv_def split: if_splits option.splits\<close>, (metis holds_mutex.simps(4))+)
qed

lemma lock_inv_reachable: "monitor_reachable c init s \<Longrightarrow> lock_inv c s"
proof (induction rule: monitor_reachable.induct)
  case start
  then show ?case by (simp add: lock_inv_def monitor_start_def)
qed (rule lock_inv_step)

section \<open>What a correct use promises\<close>

text \<open>
  Updates that can make the predicate true take the mutex and notify; those that finish the work
  for good (\<open>fin\<close>) notify all, and only then may a thread go away. Nothing else touches the predicate,
  and a thread in \<^verbatim>\<open>wait\<close> stays ready whatever the others do.
\<close>

locale guarded_monitor =
  fixes c :: "('s, 'e) monitor_code" and fin :: "'s \<Rightarrow> bool"
  assumes fin_pred: "fin s \<Longrightarrow> mc_pred c s"
    and act_fin: "mc_ready c n s \<Longrightarrow> mc_pred c s \<Longrightarrow> fin (fst (mc_act c n s)) = fin s"
    and act_leaves: "mc_ready c n s \<Longrightarrow> mc_pred c s \<Longrightarrow> snd (mc_act c n s) \<Longrightarrow> fin s"
    and act_ready: "mc_ready c k s \<Longrightarrow> mc_ready c n s \<Longrightarrow> k \<noteq> n \<Longrightarrow> mc_ready c k (fst (mc_act c n s))"
    and upd_ready: "mc_upd c e s = Some (Inr s') \<Longrightarrow> mc_ready c n s \<Longrightarrow> mc_ready c n s'"
    and upd_pred: "mc_upd c e s = Some (Inr s') \<Longrightarrow> mc_pred c s' \<Longrightarrow> mc_pred c s \<or> mc_locked c e \<and> mc_kind c e s \<noteq> No_notify"
    and upd_keeps_fin: "mc_upd c e s = Some (Inr s') \<Longrightarrow> fin s \<Longrightarrow> fin s'"
    and upd_fin: "mc_upd c e s = Some (Inr s') \<Longrightarrow> fin s' \<Longrightarrow> fin s \<or> mc_locked c e \<and> mc_kind c e s = Notify_all"
begin

text \<open>Somebody will look: a notification is due, or a thread is neither asleep nor gone.\<close>

definition attended :: "'s monitor \<Rightarrow> bool" where
  "attended s \<longleftrightarrow> mn_one s > 0 \<or> mn_all s > 0 \<or> (\<exists>k<mc_num c. mn_wait s k \<noteq> Asleep \<and> mn_wait s k \<noteq> Gone_away)"

definition wait_inv :: "'s monitor \<Rightarrow> bool" where
  "wait_inv s \<longleftrightarrow> lock_inv c s \<and>
     (\<forall>n. mn_wait s n \<in> {Testing, Blocking, Asleep} \<longrightarrow> mc_ready c n (mn_state s)) \<and>
     (\<forall>n. mn_wait s n = Blocking \<longrightarrow> \<not> mc_pred c (mn_state s)) \<and>
     (\<forall>n. mn_wait s n = Asleep \<longrightarrow> fin (mn_state s) \<longrightarrow> mn_all s > 0) \<and>
     (\<forall>n. mn_wait s n = Asleep \<longrightarrow> mc_pred c (mn_state s) \<longrightarrow> attended s) \<and>
     (\<forall>n. mn_wait s n = Gone_away \<longrightarrow> fin (mn_state s))"

lemma wait_invI:
  assumes "lock_inv c s" and "\<And>n. mn_wait s n \<in> {Testing, Blocking, Asleep} \<Longrightarrow> mc_ready c n (mn_state s)"
    and "\<And>n. mn_wait s n = Blocking \<Longrightarrow> \<not> mc_pred c (mn_state s)"
    and "\<And>n. mn_wait s n = Asleep \<Longrightarrow> fin (mn_state s) \<Longrightarrow> mn_all s > 0"
    and "\<And>n. mn_wait s n = Asleep \<Longrightarrow> mc_pred c (mn_state s) \<Longrightarrow> attended s"
    and "\<And>n. mn_wait s n = Gone_away \<Longrightarrow> fin (mn_state s)"
  shows "wait_inv s"
  using assms unfolding wait_inv_def by blast

lemma wait_invD:
  assumes "wait_inv s"
  shows "lock_inv c s" and "mn_wait s n \<in> {Testing, Blocking, Asleep} \<Longrightarrow> mc_ready c n (mn_state s)"
    and "mn_wait s n = Blocking \<Longrightarrow> \<not> mc_pred c (mn_state s)"
    and "mn_wait s n = Asleep \<Longrightarrow> fin (mn_state s) \<Longrightarrow> mn_all s > 0"
    and "mn_wait s n = Asleep \<Longrightarrow> mc_pred c (mn_state s) \<Longrightarrow> attended s"
    and "mn_wait s n = Gone_away \<Longrightarrow> fin (mn_state s)"
  using assms unfolding wait_inv_def by blast+

lemma wait_inv_start: "wait_inv (monitor_start init)"
  by (simp add: wait_inv_def lock_inv_def monitor_start_def)

lemma attendedI: "k < mc_num c \<Longrightarrow> mn_wait s k = Outside \<Longrightarrow> attended s"
  by (auto simp: attended_def)

text \<open>A thread that the predicate lets through either goes on, and will look again, or goes away for good.\<close>

lemma wait_inv_through:
  assumes inv: "wait_inv s" and n: "mn_wait s n = Testing" and p: "mc_pred c (mn_state s)" and act: "mc_act c n (mn_state s) = (st, leaves)"
  shows "wait_inv (set_wait n (if leaves then Gone_away else Outside) (s\<lparr>mn_state := st, mn_lock := None\<rparr>))" (is "wait_inv ?s")
proof (rule wait_invI)
  have r: "mc_ready c n (mn_state s)" and lt: "n < mc_num c" and lock: "mn_lock s = Some n"
    using wait_invD(2) [OF inv, of n] lock_invD(2,3) [OF wait_invD(1) [OF inv], of n] n by simp_all
  have f: "fin st = fin (mn_state s)" "leaves \<Longrightarrow> fin (mn_state s)"
    using act_fin [OF r p] act_leaves [OF r p] act by simp_all
  show "lock_inv c ?s"
    using lock_inv_step [OF wait_invD(1) [OF inv], of "Test n" ?s] n p act by simp
  show "mc_ready c k (mn_state ?s)" if "mn_wait ?s k \<in> {Testing, Blocking, Asleep}" for k
    using that act_ready [of k "mn_state s" n] wait_invD(2) [OF inv, of k] r act by (auto split: if_splits)
  show "\<not> mc_pred c (mn_state ?s)" if "mn_wait ?s k = Blocking" for k
    using that lock_invD(4) [OF wait_invD(1) [OF inv], of k] lock by (auto split: if_splits)
  show all: "mn_all ?s > 0" if "mn_wait ?s k = Asleep" "fin (mn_state ?s)" for k
    using that f wait_invD(4) [OF inv, of k] by (auto split: if_splits)
  show "attended ?s" if "mn_wait ?s k = Asleep" for k
  proof (cases leaves)
    case True
    then show ?thesis
      using f that all [OF that] by (simp add: attended_def)
  next
    case False
    then show ?thesis
      using lt by (intro attendedI [of n]) simp_all
  qed
  show "fin (mn_state ?s)" if "mn_wait ?s k = Gone_away" for k
    using that f wait_invD(6) [OF inv, of k] by (auto split: if_splits)
qed

lemma wait_inv_update:
  assumes inv: "wait_inv s" and step: "monitor_step c (Update e) s = Some (Inr s')"
  shows "wait_inv s'"
proof -
  obtain st where u: "mc_upd c e (mn_state s) = Some (Inr st)" "mc_locked c e \<longrightarrow> mn_lock s = None"
    and s': "s' = s\<lparr>mn_state := st, mn_one := mn_one s + (if mc_kind c e (mn_state s) = Notify_one then 1 else 0),
        mn_all := mn_all s + (if mc_kind c e (mn_state s) = Notify_all then 1 else 0)\<rparr>"
    using step by (auto simp: rbind_eq_Inr split: if_splits)
  note pf = upd_pred [OF u(1)] upd_fin [OF u(1)]
  show ?thesis
  proof (rule wait_invI)
    show "lock_inv c s'"
      using lock_inv_step [OF wait_invD(1) [OF inv] step] .
    show "mc_ready c n (mn_state s')" if "mn_wait s' n \<in> {Testing, Blocking, Asleep}" for n
      using that upd_ready [OF u(1)] wait_invD(2) [OF inv, of n] s' by auto
    show "\<not> mc_pred c (mn_state s')" if "mn_wait s' n = Blocking" for n
      using that pf(1) wait_invD(3) [OF inv, of n] lock_invD(4) [OF wait_invD(1) [OF inv], of n] u(2) s' by auto
    show "mn_all s' > 0" if "mn_wait s' n = Asleep" "fin (mn_state s')" for n
      using that pf(2) wait_invD(4) [OF inv, of n] s' by auto
    show "attended s'" if "mn_wait s' n = Asleep" "mc_pred c (mn_state s')" for n
      using that pf(1) wait_invD(5) [OF inv, of n] s'
      by (cases "mc_kind c e (mn_state s)") (auto simp: attended_def)
    show "fin (mn_state s')" if "mn_wait s' n = Gone_away" for n
      using that upd_keeps_fin [OF u(1)] wait_invD(6) [OF inv, of n] s' by simp
  qed
qed

lemma wait_inv_wake:
  assumes inv: "wait_inv s" and n: "mn_wait s n = Asleep" "n < mc_num c" and s': "s' = set_wait n Outside (s\<lparr>mn_one := i\<rparr>)"
  shows "wait_inv s'"
proof (rule wait_invI)
  show "lock_inv c s'"
    using lock_inv_step [OF wait_invD(1) [OF inv], of "Spurious n" "set_wait n Outside s"] n s' by (simp add: lock_inv_def)
  show "attended s'"
    using n s' by (intro attendedI [of n]) simp_all
qed (use wait_invD [OF inv] s' in \<open>auto split: if_splits\<close>)

lemma wait_inv_step:
  assumes inv: "wait_inv s" and step: "monitor_step c e s = Some (Inr s')"
  shows "wait_inv s'"
proof -
  note l = lock_inv_step [OF wait_invD(1) [OF inv] step]
  note lt = lock_invD(2) [OF wait_invD(1) [OF inv]]
  note i = wait_invD [OF inv]
  show ?thesis
  proof (cases e)
    case (Enter n)
    then have s': "s' = set_wait n Testing (s\<lparr>mn_lock := Some n\<rparr>)" "mc_ready c n (mn_state s)" "n < mc_num c"
      using step by (auto split: if_splits)
    then have "attended s'"
      by (auto simp: attended_def)
    with s' i l show ?thesis
      by (intro wait_invI) (auto split: if_splits)
  next
    case (Test n)
    show ?thesis
    proof (cases "mc_pred c (mn_state s)")
      case True
      with Test step wait_inv_through [OF inv, of n] show ?thesis
        by (auto simp: Let_def split: if_splits prod.splits)
    next
      case False
      with Test step have s': "s' = set_wait n Blocking s" "mn_wait s n = Testing"
        by (auto split: if_splits)
      with i l False fin_pred show ?thesis
        by (intro wait_invI) (auto split: if_splits)
    qed
  next
    case (Block n)
    then have s': "s' = set_wait n Asleep (s\<lparr>mn_lock := None\<rparr>)" "\<not> mc_pred c (mn_state s)" "mc_ready c n (mn_state s)"
      using step i(2,3) [of n] by (auto split: if_splits)
    with i l fin_pred show ?thesis
      by (intro wait_invI) (auto split: if_splits)
  next
    case (Spurious n)
    then show ?thesis
      using step lt [of n] wait_inv_wake [OF inv, of n s' "mn_one s"] by (auto split: if_splits)
  next
    case (Update x)
    then show ?thesis
      using wait_inv_update [OF inv] step by simp
  next
    case (Signal_one w)
    show ?thesis
    proof (cases w)
      case None
      with Signal_one step have s': "s' = s\<lparr>mn_one := mn_one s - 1\<rparr>" "\<And>n. mn_wait s n \<noteq> Asleep"
        using lt by (auto split: if_splits) (metis wait_pc.distinct(5))
      with i l show ?thesis
        by (intro wait_invI) auto
    next
      case (Some n)
      with Signal_one step lt [of n] wait_inv_wake [OF inv, of n s' "mn_one s - 1"] show ?thesis
        by (auto split: if_splits)
    qed
  next
    case Signal_all
    then have s': "s' = s\<lparr>mn_all := mn_all s - 1, mn_wait := (\<lambda>n. if mn_wait s n = Asleep then Outside else mn_wait s n)\<rparr>"
      using step by (auto split: if_splits)
    with i l show ?thesis
      by (intro wait_invI) (auto split: if_splits)
  qed
qed

lemma wait_inv_reachable: "monitor_reachable c init s \<Longrightarrow> wait_inv s"
  by (induction rule: monitor_reachable.induct) (auto intro: wait_inv_start wait_inv_step)

text \<open>No wake-up is lost: while the predicate holds, threads sleep only if somebody will look.\<close>

lemma no_lost_wakeup:
  "monitor_reachable c init s \<Longrightarrow> mc_pred c (mn_state s) \<Longrightarrow> mn_wait s n = Asleep \<Longrightarrow> attended s"
  using wait_invD(5) [OF wait_inv_reachable] by blast

text \<open>When no notification is due and no thread is in the monitor, a thread enters and is let through.\<close>

lemma quiet_progress:
  assumes "monitor_reachable c init s" and "mc_pred c (mn_state s)" and "mn_one s = 0" "mn_all s = 0"
    and "\<exists>n<mc_num c. mn_wait s n \<noteq> Gone_away" and ready: "\<And>n. n < mc_num c \<Longrightarrow> mn_wait s n = Outside \<Longrightarrow> mc_ready c n (mn_state s)"
    and "mn_lock s = None"
  shows "\<exists>n s'. n < mc_num c \<and> monitor_run c [Enter n, Test n] s = Some (Inr s') \<and> mn_state s' = fst (mc_act c n (mn_state s))"
proof -
  obtain n where n: "n < mc_num c" "mn_wait s n \<noteq> Gone_away" "mn_wait s n \<noteq> Asleep"
    using no_lost_wakeup [OF assms(1,2)] assms(3-5) by (auto simp: attended_def)
  then have "mn_wait s n = Outside"
    using lock_invD(1) [OF lock_inv_reachable [OF assms(1)], of n] assms(7) by (cases "mn_wait s n") auto
  with n(1) ready assms(2,7) show ?thesis
    by (intro exI [of _ n]) (simp add: case_prod_beta)
qed

text \<open>After the end and its notifications nobody sleeps.\<close>

lemma nobody_sleeps:
  "monitor_reachable c init s \<Longrightarrow> fin (mn_state s) \<Longrightarrow> mn_all s = 0 \<Longrightarrow> mn_wait s n \<noteq> Asleep"
  using wait_invD(4) [OF wait_inv_reachable, of init s n] by auto

end

end
