(* ===== verification/Toad_Pool.thy ===== *)
theory Toad_Pool
  imports Toad_Executor Toad_Condvar
begin

text \<open>
  The mutex and the condition variable of \<^verbatim>\<open>Executor\<close> in \<^verbatim>\<open>include/concurrency/executor.hpp\<close>. \<^verbatim>\<open>Toad_Executor\<close> lets a waiting worker take a task
  whenever one is queued; here a worker has to take the mutex, test, sleep and be notified. The
  runs here are runs there, and no notification that matters is lost.
\<close>

section \<open>The code\<close>

text \<open>The predicate of \<^verbatim>\<open>_condvar.wait\<close>, and what the worker does with the mutex once it holds.\<close>

definition pool_pred :: "Executor \<Rightarrow> bool" where
  "pool_pred ex \<longleftrightarrow> ex_is_done ex \<or> ex_queue ex \<noteq> []"

definition pool_act :: "nat \<Rightarrow> Executor \<Rightarrow> Executor \<times> bool" where
  "pool_act n ex = (case worker_take n ex of None \<Rightarrow> (ex, False) | Some ex' \<Rightarrow> (ex', ex_worker ex' n = Exited))"

text \<open>
  \<^verbatim>\<open>spawn\<close> queues under the lock and calls \<^verbatim>\<open>notify_one\<close> after it; the destructor sets the flag under the lock and calls
  \<^verbatim>\<open>notify_all\<close> after it. The other steps of a worker take no lock.
\<close>

fun pool_locked :: "executor_event \<Rightarrow> bool" where
  "pool_locked (Spawn t h) = True"
| "pool_locked Shutdown = True"
| "pool_locked _ = False"

fun pool_kind :: "executor_event \<Rightarrow> Executor \<Rightarrow> notify_kind" where
  "pool_kind (Spawn t h) ex = Notify_one"
| "pool_kind Shutdown ex = Notify_all"
| "pool_kind _ ex = No_notify"

fun pool_upd :: "executor_event \<Rightarrow> Executor \<Rightarrow> Executor res option" where
  "pool_upd (Take n) ex = None"
| "pool_upd e ex = executor_next e ex"

definition pool_code :: "nat \<Rightarrow> (Executor, executor_event) monitor_code" where
  "pool_code num = \<lparr>mc_num = num, mc_ready = (\<lambda>n ex. ex_worker ex n = Waiting), mc_pred = pool_pred, mc_act = pool_act,
     mc_upd = pool_upd, mc_locked = pool_locked, mc_kind = pool_kind\<rparr>"

text \<open>
  The end of \<^verbatim>\<open>~Executor\<close>: the threads are joined once all have left their loops, then the members are
  destroyed, among them the tasks still in the queue.
\<close>

fun destroy_queue :: "nat list \<Rightarrow> frames \<Rightarrow> frames res" where
  "destroy_queue [] fs = Inr fs"
| "destroy_queue (h # hs) fs = rbind (Task_dtor fs (Some h)) (destroy_queue hs)"

definition executor_join :: "nat \<Rightarrow> Executor monitor \<Rightarrow> frames res option" where
  "executor_join num s =
     (if \<forall>n<num. mn_wait s n = Gone_away then Some (destroy_queue (ex_queue (mn_state s)) (ex_frames (mn_state s))) else None)"

section \<open>The contract of the condition variable\<close>

lemma worker_take_frame:
  assumes "worker_take n s = Some s'"
  shows "ex_is_done s' = ex_is_done s" and "k \<noteq> n \<Longrightarrow> ex_worker s' k = ex_worker s k"
    and "ex_worker s' n = Exited \<Longrightarrow> ex_queue s = [] \<and> ex_is_done s"
  using assms by (auto simp: worker_take_def queue_pop_def set_worker_def split: if_splits list.splits)

lemma worker_take_exit: "worker_take n s = Some s' \<Longrightarrow> ex_worker s' n = Exited \<Longrightarrow> ex_queue s' = []"
  by (auto simp: worker_take_def queue_pop_def set_worker_def split: if_splits list.splits)

lemma pool_upd_frame:
  assumes "pool_upd e s = Some (Inr s')"
  shows "ex_worker s n = Waiting \<Longrightarrow> ex_worker s' n = Waiting"
    and "ex_queue s' \<noteq> [] \<Longrightarrow> ex_queue s \<noteq> [] \<or> (\<exists>t h. e = Spawn t h)"
    and "ex_is_done s' \<longleftrightarrow> ex_is_done s \<or> e = Shutdown"
  using assms
  by (cases e; auto simp: executor_spawn_def executor_run_defs rbind_eq_Inr
    split: if_splits worker_pc.splits option.splits)+

interpretation pool: guarded_monitor "pool_code num" ex_is_done for num
proof unfold_locales
  fix s s' e n k
  show "ex_is_done s \<Longrightarrow> mc_pred (pool_code num) s"
    by (simp add: pool_code_def pool_pred_def)
  show "ex_is_done (fst (mc_act (pool_code num) n s)) = ex_is_done s"
    using worker_take_frame(1) [of n s] by (auto simp: pool_code_def pool_act_def split: option.splits)
  show "snd (mc_act (pool_code num) n s) \<Longrightarrow> ex_is_done s"
    using worker_take_frame(3) [of n s] by (auto simp: pool_code_def pool_act_def split: option.splits)
  show "mc_ready (pool_code num) k s \<Longrightarrow> k \<noteq> n \<Longrightarrow> mc_ready (pool_code num) k (fst (mc_act (pool_code num) n s))"
    using worker_take_frame(2) [of n s] by (auto simp: pool_code_def pool_act_def split: option.splits)
  assume u: "mc_upd (pool_code num) e s = Some (Inr s')"
  note f = pool_upd_frame [of e s s']
  show "mc_ready (pool_code num) n s \<Longrightarrow> mc_ready (pool_code num) n s'"
    using u f(1) by (simp add: pool_code_def)
  show "mc_pred (pool_code num) s' \<Longrightarrow> mc_pred (pool_code num) s \<or> mc_locked (pool_code num) e \<and> mc_kind (pool_code num) e s \<noteq> No_notify"
    using u f(2,3) by (auto simp: pool_code_def pool_pred_def)
  show "ex_is_done s \<Longrightarrow> ex_is_done s'"
    using u f(3) by (simp add: pool_code_def)
  show "ex_is_done s' \<Longrightarrow> ex_is_done s \<or> mc_locked (pool_code num) e \<and> mc_kind (pool_code num) e s = Notify_all"
    using u f(3) by (auto simp: pool_code_def)
qed

section \<open>Runs of the pool are runs of the executor\<close>

lemma executor_run_snoc:
  "executor_run s es (Inr s1) \<Longrightarrow> executor_step s1 e (Inr s2) \<Longrightarrow> executor_run s (es @ [e]) (Inr s2)"
  by (induction s es "Inr s1 :: Executor res" rule: executor_run.induct) (auto intro: executor_run.intros)

lemma pool_step_executor:
  assumes inv: "pool.wait_inv num s" and step: "monitor_step (pool_code num) e s = Some (Inr s')"
  shows "mn_state s' = mn_state s \<or> (\<exists>x. executor_step (mn_state s) x (Inr (mn_state s')))"
proof (cases e)
  case (Test n)
  with step have "mn_wait s n = Testing"
    by (auto split: if_splits)
  then have "ex_worker (mn_state s) n = Waiting"
    using pool.wait_invD(2) [OF inv, of n] by (simp add: pool_code_def)
  then have "pool_pred (mn_state s) \<Longrightarrow> \<exists>ex. worker_take n (mn_state s) = Some ex"
    by (auto simp: worker_take_def pool_pred_def queue_pop_def split: list.splits)
  then have "pool_pred (mn_state s) \<Longrightarrow> \<exists>ex. fst (pool_act n (mn_state s)) = ex \<and> executor_step (mn_state s) (Take n) (Inr ex)"
    by (auto simp: pool_act_def)
  with Test step show ?thesis
    by (auto simp: pool_code_def Let_def case_prod_beta simp del: executor_step_simps split: if_splits)
next
  case (Update x)
  with step have "executor_next x (mn_state s) = Some (Inr (mn_state s'))"
    by (cases x) (auto simp: pool_code_def rbind_eq_Inr split: if_splits)
  then show ?thesis
    unfolding executor_next_iff by blast
qed (use step in \<open>auto split: if_splits option.splits\<close>)

lemma pool_executor_run:
  "monitor_reachable (pool_code num) init s \<Longrightarrow> \<exists>es. executor_run init es (Inr (mn_state s))"
proof (induction rule: monitor_reachable.induct)
  case start
  then show ?case
    by (auto simp: monitor_start_def intro: executor_run.nil)
next
  case (step s e s')
  then show ?case
    using pool_step_executor [OF pool.wait_inv_reachable [OF step(1)] step(2)] executor_run_snoc by metis
qed

section \<open>Properties\<close>

text \<open>
  C24: the workers' condition variable. Every state that the workers reach through the mutex and the condition
  variable is reached by the executor's steps. While tasks are queued, a worker sleeps only if a
  notification is due or another worker is awake; if none is due, nobody holds the mutex and no
  worker is busy, some worker takes the first task. Once the shutdown flag was set and \<^verbatim>\<open>notify_all\<close> called, no
  worker sleeps, and one that has left its loop is never needed: the flag is set.
\<close>

theorem executor_no_lost_wakeup:
  assumes r: "monitor_reachable (pool_code num) (Executor_new fs) s"
  shows "(\<exists>es. executor_run (Executor_new fs) es (Inr (mn_state s))) \<and>
     (ex_queue (mn_state s) \<noteq> [] \<longrightarrow> (\<exists>n. mn_wait s n = Asleep) \<longrightarrow>
       mn_one s > 0 \<or> mn_all s > 0 \<or> (\<exists>k<num. mn_wait s k \<noteq> Asleep \<and> mn_wait s k \<noteq> Gone_away)) \<and>
     (ex_queue (mn_state s) \<noteq> [] \<longrightarrow> mn_one s = 0 \<longrightarrow> mn_all s = 0 \<longrightarrow> mn_lock s = None \<longrightarrow>
       (\<forall>n<num. mn_wait s n = Outside \<longrightarrow> ex_worker (mn_state s) n = Waiting) \<longrightarrow> (\<exists>n<num. mn_wait s n \<noteq> Gone_away) \<longrightarrow>
       (\<exists>n<num. \<exists>s'. monitor_run (pool_code num) [Enter n, Test n] s = Some (Inr s') \<and>
         ex_worker (mn_state s') n = Taken (hd (ex_queue (mn_state s))))) \<and>
     (ex_is_done (mn_state s) \<longrightarrow> mn_all s = 0 \<longrightarrow> (\<forall>n. mn_wait s n \<noteq> Asleep)) \<and>
     (\<forall>n. mn_wait s n = Gone_away \<longrightarrow> ex_is_done (mn_state s))"
proof -
  have num: "mc_num (pool_code num) = num" and pred: "\<And>ex. ex_queue ex \<noteq> [] \<Longrightarrow> mc_pred (pool_code num) ex"
    by (simp_all add: pool_code_def pool_pred_def)
  have "\<exists>n<num. \<exists>s'. monitor_run (pool_code num) [Enter n, Test n] s = Some (Inr s') \<and>
         ex_worker (mn_state s') n = Taken (hd (ex_queue (mn_state s)))"
    if q: "ex_queue (mn_state s) \<noteq> []" "mn_one s = 0" "mn_all s = 0" "mn_lock s = None"
      and ready: "\<forall>n<num. mn_wait s n = Outside \<longrightarrow> ex_worker (mn_state s) n = Waiting" and some: "\<exists>n<num. mn_wait s n \<noteq> Gone_away"
  proof -
    have ready': "mc_ready (pool_code num) n (mn_state s) \<longleftrightarrow> ex_worker (mn_state s) n = Waiting" for n
      by (simp add: pool_code_def)
    obtain n s' where n: "n < num" "monitor_run (pool_code num) [Enter n, Test n] s = Some (Inr s')"
      "mn_state s' = fst (mc_act (pool_code num) n (mn_state s))"
      using pool.quiet_progress [OF r pred [OF q(1)] q(2,3) _ _ q(4)] some ready unfolding num ready' by blast
    have "ex_worker (mn_state s) n = Waiting"
      using n(2) by (auto simp: pool_code_def split: if_splits)
    then have "ex_worker (fst (pool_act n (mn_state s))) n = Taken (hd (ex_queue (mn_state s)))"
      using q(1) by (auto simp: pool_act_def worker_take_def queue_pop_def set_worker_def neq_Nil_conv)
    then have "ex_worker (mn_state s') n = Taken (hd (ex_queue (mn_state s)))"
      using n(3) by (simp add: pool_code_def)
    with n(1,2) show ?thesis
      by blast
  qed
  moreover have "\<exists>es. executor_run (Executor_new fs) es (Inr (mn_state s))"
    using pool_executor_run [OF r] .
  moreover have "mn_one s > 0 \<or> mn_all s > 0 \<or> (\<exists>k<num. mn_wait s k \<noteq> Asleep \<and> mn_wait s k \<noteq> Gone_away)"
    if "ex_queue (mn_state s) \<noteq> []" "mn_wait s n = Asleep" for n
    using pool.no_lost_wakeup [OF r pred [OF that(1)] that(2)] unfolding pool.attended_def num .
  ultimately show ?thesis
    using pool.nobody_sleeps [OF r] pool.wait_invD(6) [OF pool.wait_inv_reachable [OF r]] by blast
qed

theorem executor_no_lost_wakeup_witness:
  "\<exists>s s'. monitor_run (pool_code 2) [Enter 0, Test 0, Block 0, Enter 1, Test 1, Block 1, Update (Spawn 9 7), Signal_one (Some 1)]
       (monitor_start (Executor_new (frames_new (\<lambda>_. 5)))) = Some (Inr s) \<and>
     mn_wait s 0 = Asleep \<and> monitor_run (pool_code 2) [Enter 1, Test 1] s = Some (Inr s') \<and> ex_worker (mn_state s') 1 = Taken 7"
proof -
  let ?c = "pool_code 2" and ?i = "Executor_new (frames_new (\<lambda>_. 5))"
  obtain s where r: "monitor_run ?c [Enter 0, Test 0, Block 0, Enter 1, Test 1, Block 1, Update (Spawn 9 7), Signal_one (Some 1)]
       (monitor_start ?i) = Some (Inr s)"
    and s: "mn_wait s = (\<lambda>n. if n = 0 then Asleep else Outside)" "ex_queue (mn_state s) = [7]" "mn_one s = 0" "mn_all s = 0" "mn_lock s = None"
      "ex_worker (mn_state s) = (\<lambda>_. Waiting)"
    by (simp add: pool_code_def monitor_start_def pool_pred_def Executor_new_def frames_new_def spawnable_def executor_spawn_def
      executor_run_defs fun_eq_iff)
  have "\<exists>n<2. \<exists>s'. monitor_run ?c [Enter n, Test n] s = Some (Inr s') \<and> ex_worker (mn_state s') n = Taken 7"
  proof -
    have "\<exists>n<2. mn_wait s n \<noteq> Gone_away" "\<forall>n<2. mn_wait s n = Outside \<longrightarrow> ex_worker (mn_state s) n = Waiting"
      "ex_queue (mn_state s) \<noteq> []" "hd (ex_queue (mn_state s)) = 7"
      using s by (auto intro: exI [of _ 1])
    with executor_no_lost_wakeup [OF monitor_run_reachable [OF monitor_reachable.start r]] s(3-5) show ?thesis
      by metis
  qed
  then obtain n s' where n: "n < 2" "monitor_run ?c [Enter n, Test n] s = Some (Inr s')" "ex_worker (mn_state s') n = Taken 7"
    by blast
  then have "n = 1"
    using s(1) by (auto simp: less_2_cases_iff split: if_splits)
  with n r s(1) show ?thesis
    by (intro exI [of _ s] exI [of _ s']) (simp del: monitor_run.simps)
qed

text \<open>
  A pool without threads, which \<^verbatim>\<open>std::thread::hardware_concurrency\<close> allows by returning zero: nothing is ever taken from the queue,
  and the destructor destroys every coroutine that was spawned without running it.
\<close>

lemma pool_zero_idle:
  "monitor_reachable (pool_code 0) (Executor_new fs) s \<Longrightarrow> mn_wait s = (\<lambda>_. Outside) \<and> ex_worker (mn_state s) = (\<lambda>_. Waiting)"
proof (induction rule: monitor_reachable.induct)
  case start
  then show ?case
    by (simp add: monitor_start_def Executor_new_def)
next
  case (step s e s')
  then show ?case
  proof (cases e)
    case (Update x)
    with step pool_upd_frame(1) [of x "mn_state s" "mn_state s'"] show ?thesis
      by (auto simp: pool_code_def rbind_eq_Inr fun_eq_iff split: if_splits)
  qed (auto simp: pool_code_def split: if_splits option.splits)
qed

lemma destroy_queue_frees:
  "distinct q \<Longrightarrow> (\<And>h. h \<in> set q \<Longrightarrow> cf_status (fs h) = At_suspension) \<Longrightarrow>
     \<exists>fs'. destroy_queue q fs = Inr fs' \<and> (\<forall>h. h \<in> set q \<longrightarrow> cf_status (fs' h) = Freed) \<and> (\<forall>h. h \<notin> set q \<longrightarrow> fs' h = fs h)"
proof (induction q arbitrary: fs)
  case (Cons h q)
  let ?fs = "fs(h := (fs h)\<lparr>cf_status := Freed\<rparr>)"
  have "Task_dtor fs (Some h) = Inr ?fs"
    using Cons.prems(2) [of h] by (simp add: coro_defs)
  moreover have "cf_status (?fs k) = At_suspension" if "k \<in> set q" for k
    using Cons.prems that by (cases "k = h") auto
  then obtain fs' where "destroy_queue q ?fs = Inr fs'" "\<forall>k. k \<in> set q \<longrightarrow> cf_status (fs' k) = Freed" "\<forall>k. k \<notin> set q \<longrightarrow> fs' k = ?fs k"
    using Cons.IH [of ?fs] Cons.prems(1) by (meson distinct.simps(2))
  ultimately show ?case
    using Cons.prems(1) by (intro exI [of _ fs']) auto
qed simp

theorem pool_zero_workers:
  assumes "monitor_reachable (pool_code 0) (Executor_new fs) s"
  shows "(\<forall>n h. ex_worker (mn_state s) n \<noteq> Taken h) \<and>
     (\<exists>fs'. executor_join 0 s = Some (Inr fs') \<and> (\<forall>h. h \<in> set (ex_queue (mn_state s)) \<longrightarrow> cf_status (fs' h) = Freed))"
proof -
  obtain es where "executor_run (Executor_new fs) es (Inr (mn_state s))"
    using pool_executor_run [OF assms] by blast
  then have "executor_inv (mn_state s)"
    using executor_run_inv executor_inv_new by blast
  then obtain fs' where "destroy_queue (ex_queue (mn_state s)) (ex_frames (mn_state s)) = Inr fs'"
    "\<forall>h. h \<in> set (ex_queue (mn_state s)) \<longrightarrow> cf_status (fs' h) = Freed"
    using destroy_queue_frees [of "ex_queue (mn_state s)" "ex_frames (mn_state s)"] executor_invD(1,2) by blast
  with pool_zero_idle [OF assms] show ?thesis
    by (simp add: executor_join_def)
qed

theorem pool_zero_workers_witness:
  "\<exists>s fs'. monitor_run (pool_code 0) [Update (Spawn 9 7), Signal_one None, Update Shutdown, Signal_all]
       (monitor_start (Executor_new (frames_new (\<lambda>_. 5)))) = Some (Inr s) \<and>
     executor_join 0 s = Some (Inr fs') \<and> cf_status (fs' 7) = Freed"
proof -
  obtain s where r: "monitor_run (pool_code 0) [Update (Spawn 9 7), Signal_one None, Update Shutdown, Signal_all]
       (monitor_start (Executor_new (frames_new (\<lambda>_. 5)))) = Some (Inr s)" and "7 \<in> set (ex_queue (mn_state s))"
    by (simp add: pool_code_def monitor_start_def Executor_new_def frames_new_def spawnable_def executor_spawn_def executor_run_defs)
  with pool_zero_workers [OF monitor_run_reachable [OF monitor_reachable.start r]] show ?thesis
    by blast
qed

text \<open>
  Joining the workers. When the last worker leaves its loop the queue is empty, so the destructor joins and
  destroys no coroutine. A coroutine that another thread spawns after that is destroyed without
  having run.
\<close>

theorem executor_join_last_worker:
  assumes r: "monitor_reachable (pool_code num) (Executor_new fs) s" and n: "n < num" "monitor_step (pool_code num) (Test n) s = Some (Inr s')"
    and gone: "\<forall>k<num. mn_wait s' k = Gone_away"
  shows "executor_join num s' = Some (Inr (ex_frames (mn_state s'))) \<and> ex_is_done (mn_state s') \<and>
     (\<forall>t h s''. monitor_step (pool_code num) (Update (Spawn t h)) s' = Some (Inr s'') \<longrightarrow> ex_queue (mn_state s'') \<noteq> [] \<longrightarrow>
       (\<exists>fs'. executor_join num s'' = Some (Inr fs') \<and> cf_status (fs' h) = Freed))"
proof -
  have r': "monitor_reachable (pool_code num) (Executor_new fs) s'"
    using r n(2) by (rule monitor_reachable.step)
  have act: "mn_state s' = fst (pool_act n (mn_state s))" "snd (pool_act n (mn_state s))"
    using n gone by (auto simp: pool_code_def case_prod_beta split: if_splits)
  then obtain ex where ex: "worker_take n (mn_state s) = Some ex" "mn_state s' = ex" "ex_worker ex n = Exited"
    by (auto simp: pool_act_def split: option.splits)
  then have empty: "ex_queue (mn_state s') = []" "ex_is_done (mn_state s')"
    using worker_take_frame [OF ex(1)] worker_take_exit [OF ex(1,3)] by simp_all
  have "\<exists>fs'. executor_join num s'' = Some (Inr fs') \<and> cf_status (fs' h) = Freed"
    if sp: "monitor_step (pool_code num) (Update (Spawn t h)) s' = Some (Inr s'')" "ex_queue (mn_state s'') \<noteq> []" for t h s''
  proof -
    have "monitor_reachable (pool_code num) (Executor_new fs) s''"
      using r' sp(1) by (rule monitor_reachable.step)
    then have inv: "executor_inv (mn_state s'')"
      using pool_executor_run executor_run_inv executor_inv_new by blast
    have "ex_queue (mn_state s'') = [h]" "mn_wait s'' = mn_wait s'"
      using sp empty(1) by (auto simp: pool_code_def rbind_eq_Inr executor_spawn_def executor_run_defs split: if_splits)
    with gone destroy_queue_frees [of "[h]" "ex_frames (mn_state s'')"] executor_invD(2) [OF inv] show ?thesis
      by (auto simp: executor_join_def)
  qed
  with empty gone show ?thesis
    by (simp add: executor_join_def)
qed

end
