(* ===== verification/Toad_Join_Wait.thy ===== *)
theory Toad_Join_Wait
  imports Toad_Join Toad_Condvar
begin

text \<open>
  \<^verbatim>\<open>JoinSet::wait_blocking\<close> of \<^verbatim>\<open>include/concurrency/join.hpp\<close>: a thread waits on a condition variable until no child is left. The helper
  of the last child decrements the counter and calls \<^verbatim>\<open>notify_one\<close> without ever taking the mutex, so the laws of
  \<open>guarded_monitor\<close> do not hold: a wake-up can be lost.
\<close>

section \<open>The code\<close>

definition join_wait_act :: "nat \<Rightarrow> JoinSet \<Rightarrow> JoinSet \<times> bool" where
  "join_wait_act n js = (js, True)"

fun join_wait_upd :: "join_event \<Rightarrow> JoinSet \<Rightarrow> JoinSet res option" where
  "join_wait_upd Join_spawn js = Some (join_spawn js)"
| "join_wait_upd (Child_done n) js = map_option Inr (join_child_done n js)"
| "join_wait_upd (Join_notify e) js = map_option Inr (join_notify_step e js)"

fun join_wait_kind :: "join_event \<Rightarrow> JoinSet \<Rightarrow> notify_kind" where
  "join_wait_kind (Child_done n) js = (if js_awaiting js = 1 then Notify_one else No_notify)"
| "join_wait_kind _ js = No_notify"

text \<open>\<open>num\<close> threads call \<^verbatim>\<open>wait_blocking\<close>.\<close>

definition join_wait_code :: "nat \<Rightarrow> (JoinSet, join_event) monitor_code" where
  "join_wait_code num = \<lparr>mc_num = num, mc_ready = (\<lambda>n js. True), mc_pred = join_wait_done, mc_act = join_wait_act,
     mc_upd = join_wait_upd, mc_locked = (\<lambda>e. False), mc_kind = join_wait_kind\<rparr>"

section \<open>A thread that nobody wakes\<close>

text \<open>Neither a spurious wake-up, which the standard allows but does not promise, nor a new child.\<close>

fun unaided :: "join_event monitor_event \<Rightarrow> bool" where
  "unaided (Spurious n) = False"
| "unaided (Update Join_spawn) = False"
| "unaided _ = True"

definition forgotten :: "nat \<Rightarrow> JoinSet monitor \<Rightarrow> bool" where
  "forgotten n s \<longleftrightarrow> mn_wait s n = Asleep \<and> mn_one s = 0 \<and> mn_all s = 0 \<and> js_live (mn_state s) = 0"

lemma forgotten_step:
  assumes "forgotten n s" and "unaided e" and "monitor_step (join_wait_code num) e s = Some (Inr s')"
  shows "forgotten n s'"
proof (cases e)
  case (Update x)
  with assms show ?thesis
    by (cases x) (auto simp: forgotten_def join_wait_code_def join_child_done_def join_notify_step_def split: if_splits)
qed (use assms in \<open>auto simp: forgotten_def join_wait_code_def join_wait_act_def split: if_splits option.splits\<close>)

lemma forgotten_run:
  "forgotten n s \<Longrightarrow> list_all unaided es \<Longrightarrow> monitor_run (join_wait_code num) es s = Some (Inr s') \<Longrightarrow> forgotten n s'"
  by (induction es arbitrary: s) (auto simp del: monitor_step.simps dest: forgotten_step split: option.splits sum.splits)

lemma last_child:
  assumes "join_child_done k js = Some js'" and "js_awaiting js = 1" and "js_live js = 1"
  shows "join_wait_done js'" and "js_live js' = 0" and "js_awaiting js' = 0" and "\<not> join_wait_done js"
  using assms by (auto simp: join_child_done_def join_wait_done_def Let_def split: if_splits)

section \<open>Properties\<close>

text \<open>
  C25: \<^verbatim>\<open>wait_blocking\<close> with one child left. If the child ends while the thread sleeps, or before it tests, the
  thread returns. If the child ends and notifies between the test and the moment the thread
  sleeps, the thread sleeps although no child is left, and nothing but a spurious wake-up or a
  new child can ever wake it.
\<close>

theorem join_wait_blocking_race:
  assumes child: "join_child_done k (mn_state s) = Some js" "js_awaiting (mn_state s) = 1" "js_live (mn_state s) = 1"
    and quiet: "mn_lock s = None" "mn_one s = 0" "mn_all s = 0"
  shows "(mn_wait s 0 = Asleep \<longrightarrow> (\<exists>s'. monitor_run (join_wait_code 1) [Update (Child_done k), Signal_one (Some 0), Enter 0, Test 0] s =
       Some (Inr s') \<and> mn_wait s' 0 = Gone_away)) \<and>
     (mn_wait s 0 = Outside \<longrightarrow> (\<exists>s'. monitor_run (join_wait_code 1) [Update (Child_done k), Enter 0, Test 0] s =
       Some (Inr s') \<and> mn_wait s' 0 = Gone_away)) \<and>
     (mn_wait s 0 = Outside \<longrightarrow> (\<exists>s'. monitor_run (join_wait_code 1) [Enter 0, Test 0, Update (Child_done k), Signal_one None, Block 0] s =
       Some (Inr s') \<and> join_wait_done (mn_state s') \<and>
       (\<forall>es s''. list_all unaided es \<longrightarrow> monitor_run (join_wait_code 1) es s' = Some (Inr s'') \<longrightarrow> mn_wait s'' 0 = Asleep)))"
proof -
  note l = last_child [OF child]
  have "\<exists>s'. monitor_run (join_wait_code 1) [Enter 0, Test 0, Update (Child_done k), Signal_one None, Block 0] s = Some (Inr s') \<and>
      join_wait_done (mn_state s') \<and> forgotten 0 s'" if "mn_wait s 0 = Outside"
    using that child quiet l by (simp add: join_wait_code_def forgotten_def)
  then have "mn_wait s 0 = Outside \<Longrightarrow> \<exists>s'. monitor_run (join_wait_code 1) [Enter 0, Test 0, Update (Child_done k), Signal_one None, Block 0] s =
      Some (Inr s') \<and> join_wait_done (mn_state s') \<and>
      (\<forall>es s''. list_all unaided es \<longrightarrow> monitor_run (join_wait_code 1) es s' = Some (Inr s'') \<longrightarrow> mn_wait s'' 0 = Asleep)"
    using forgotten_run unfolding forgotten_def by meson
  then show ?thesis
    using child quiet l by (auto simp: join_wait_code_def join_wait_act_def)
qed

theorem join_wait_blocking_race_witness:
  "\<exists>s s'. monitor_run (join_wait_code 1) [Update Join_spawn] (monitor_start JoinSet_new) = Some (Inr s) \<and>
     monitor_run (join_wait_code 1) [Enter 0, Test 0, Update (Child_done 4), Signal_one None, Block 0] s = Some (Inr s') \<and>
     join_wait_done (mn_state s') \<and> mn_wait s' 0 = Asleep"
proof -
  obtain s js where s: "monitor_run (join_wait_code 1) [Update Join_spawn] (monitor_start JoinSet_new) = Some (Inr s)"
    "join_child_done 4 (mn_state s) = Some js" "js_awaiting (mn_state s) = 1" "js_live (mn_state s) = 1"
    "mn_lock s = None" "mn_one s = 0" "mn_all s = 0" "mn_wait s 0 = Outside"
    by (simp add: join_wait_code_def monitor_start_def JoinSet_new_def join_spawn_def join_child_done_def Notify_new_def notify_done_def)
  from join_wait_blocking_race [OF s(2-7)] s(8) obtain s' where
    s': "monitor_run (join_wait_code 1) [Enter 0, Test 0, Update (Child_done 4), Signal_one None, Block 0] s = Some (Inr s')"
    "join_wait_done (mn_state s')"
    "\<forall>es s''. list_all unaided es \<longrightarrow> monitor_run (join_wait_code 1) es s' = Some (Inr s'') \<longrightarrow> mn_wait s'' 0 = Asleep"
    by blast
  have "mn_wait s' 0 = Asleep"
    using s'(3) [rule_format, of "[]" s'] by simp
  with s(1) s'(1,2) show ?thesis
    by blast
qed

text \<open>
  Of two threads that sleep in \<^verbatim>\<open>wait_blocking\<close> the last child wakes only one; the other is not woken by anything
  that follows.
\<close>

theorem join_wait_second_sleeper:
  assumes child: "join_child_done k (mn_state s) = Some js" "js_awaiting (mn_state s) = 1" "js_live (mn_state s) = 1"
    and quiet: "mn_one s = 0" "mn_all s = 0" and sleep: "mn_wait s 0 = Asleep" "mn_wait s 1 = Asleep"
    and run: "list_all unaided es" "monitor_run (join_wait_code 2) (Update (Child_done k) # Signal_one (Some 0) # es) s = Some (Inr s')"
  shows "mn_wait s' 1 = Asleep"
proof -
  obtain s1 where s1: "monitor_run (join_wait_code 2) [Update (Child_done k), Signal_one (Some 0)] s = Some (Inr s1)" "forgotten 1 s1"
    using child quiet sleep last_child [OF child] by (simp add: join_wait_code_def forgotten_def)
  have "monitor_run (join_wait_code 2) es s1 = Some (Inr s')"
    using run(2) monitor_run_append [OF s1(1), of es] by simp
  from forgotten_run [OF s1(2) run(1) this] show ?thesis
    by (simp add: forgotten_def)
qed

end
