(* ===== verification/Spec2Isabelle.thy ===== *)
theory Spec2Isabelle
  imports Toad_Stream_Runs Toad_Format Toad_Wire Toad_Future_Own Toad_Promise Toad_Program Toad_Session Toad_Pool Toad_Join_Wait
begin

text \<open>
  A verification of the C++ library under \<^verbatim>\<open>src/include\<close>: a user-space network stack on a TAP device,
  a coroutine runtime with asynchronous input and output, and a SOCKS5 proxy built on it.

  \<^bold>\<open>The parts and how they interact.\<close> Packets are read from and written to byte streams over shared
  buffers; Ethernet frames carry ARP or IPv4, IPv4 carries ICMP, and IPv4 and ICMP compute their
  checksums by writing themselves into a buffer. Coroutines are queued by an executor and taken
  by its worker threads; they suspend on futures, on \<^verbatim>\<open>Notify\<close> and on \<^verbatim>\<open>JoinSet\<close>, which hand them back to the
  executor. \<^verbatim>\<open>IOContext\<close> submits reads, writes, accepts and connects to the kernel and resolves futures
  when they complete. The SOCKS5 server is a coroutine for every client that reads a handshake
  from a stream over a vector the reads append to, connects, and forwards data both ways.

  \<^bold>\<open>Theories and the code they model.\<close>
  \<^item> \<^verbatim>\<open>Toad_Prelude\<close>: integer types as words, \<^verbatim>\<open>ASSERT\<close> (\<^verbatim>\<open>defs.hpp\<close>) and undefined behaviour as values of a sum
    type, the lemmas on words and lists that the others share.
  \<^item> \<^verbatim>\<open>Toad_Buffer\<close>: \<^verbatim>\<open>bytes/buffer.hpp\<close>. A store of allocations; a \<^verbatim>\<open>Buffer\<close> is a window on one. A slice is a
    window on the same bytes.
  \<^item> \<^verbatim>\<open>Toad_Bytestream\<close>, \<^verbatim>\<open>Toad_Stream_Runs\<close>: \<^verbatim>\<open>bytes/bytestream.hpp\<close>. The concept \<^verbatim>\<open>ByteBuffer\<close> is a locale, interpreted
    on vectors and on buffers. Runs of any reads or writes stay in bounds and report overflow.
  \<^item> \<^verbatim>\<open>Toad_Checksum\<close>, \<^verbatim>\<open>Toad_Packet_Checksum\<close>: \<^verbatim>\<open>nic/checksum.hpp\<close> and the computation that \<^verbatim>\<open>nic/ipv4.hpp\<close> and
    \<^verbatim>\<open>nic/icmp.hpp\<close> share, as a locale interpreted on both. The loop equals the ones' complement sum;
    storing the result makes the span verify; which changes of a word are detected.
  \<^item> \<^verbatim>\<open>Toad_Addr\<close>: \<^verbatim>\<open>nic/mac.hpp\<close>, the address of \<^verbatim>\<open>nic/ipv4.hpp\<close>, \<^verbatim>\<open>nic/typestate.hpp\<close>, and the concept of
    \<^verbatim>\<open>nic/packet.hpp\<close> as a locale.
  \<^item> \<^verbatim>\<open>Toad_Ethernet\<close>, \<^verbatim>\<open>Toad_Arp\<close>, \<^verbatim>\<open>Toad_Ipv4\<close>, \<^verbatim>\<open>Toad_Icmp\<close>: the packet types of \<^verbatim>\<open>nic\<close>. Writing and reading back give the
    same fields; responses have the right fields and checksums that verify; where parsing aborts.
  \<^item> \<^verbatim>\<open>Toad_Format\<close>: the formatters of these headers, of vectors and of correlation ids. How the library fmt prints
    numbers is a locale; the text identifies what was printed.
  \<^item> \<^verbatim>\<open>Toad_Ifreq\<close>, \<^verbatim>\<open>Toad_Device\<close>: \<^verbatim>\<open>nic/device.hpp\<close>, with the answers of the kernel as arguments. Setting the device up
    is the list of its system calls, with the request structures it passes.
  \<^item> \<^verbatim>\<open>Toad_Wire\<close>: the packet types put together. An ARP request and an echo request are answered by the right
    bytes on the wire; the operations keep packets well formed.
  \<^item> \<^verbatim>\<open>Toad_Notify\<close>: \<^verbatim>\<open>concurrency/notify.hpp\<close> as a transition system in which every access to shared memory is one
    event. It refines an abstract stack; no suspended awaiter is forgotten; a \<^verbatim>\<open>notify_all\<close> wakes the
    stack; a wake-up can be lost and a destroyed awaiter read; when \<^verbatim>\<open>wait_blocking\<close> returns.
  \<^item> \<^verbatim>\<open>Toad_Future\<close>: \<^verbatim>\<open>concurrency/future.hpp\<close>. A value reaches a suspended coroutine exactly once; a value set before
    the coroutine has suspended is lost.
  \<^item> \<^verbatim>\<open>Toad_Future_Own\<close>: the shared and weak pointers of \<^verbatim>\<open>future.hpp\<close>. When a state lives, and that it is destroyed once.
  \<^item> \<^verbatim>\<open>Toad_Ring\<close>: \<^verbatim>\<open>concurrency/ring.hpp\<close>, and the locale of first-in first-out queues, which the executor's queue
    interprets too.
  \<^item> \<^verbatim>\<open>Toad_Executor\<close>: \<^verbatim>\<open>concurrency/task.hpp\<close> and \<^verbatim>\<open>concurrency/executor.hpp\<close>. Exclusive ownership of coroutines by the
    workers, order of the queue, safety with one worker, a race with two, draining at shutdown.
  \<^item> \<^verbatim>\<open>Toad_Condvar\<close>: \<^verbatim>\<open>std::mutex\<close> with \<^verbatim>\<open>std::condition_variable\<close> for any code around them. What makes their use safe is the locale
    \<open>guarded_monitor\<close>: updates that can make the predicate true hold the mutex and notify. Then no wake-up is lost.
  \<^item> \<^verbatim>\<open>Toad_Pool\<close>: the workers of \<^verbatim>\<open>Toad_Executor\<close> on that machine, an interpretation of the locale. The runs refine those of
    \<^verbatim>\<open>Toad_Executor\<close>, no task waits while all workers sleep; what the destructor joins and destroys, also without workers.
  \<^item> \<^verbatim>\<open>Toad_Promise\<close>: \<^verbatim>\<open>prng.hpp\<close> and the promise of \<^verbatim>\<open>task.hpp\<close>. Correlation ids fit the eight digits of the log.
  \<^item> \<^verbatim>\<open>Toad_Join\<close>: \<^verbatim>\<open>concurrency/join.hpp\<close> over \<^verbatim>\<open>Toad_Notify\<close> and \<^verbatim>\<open>Toad_Executor\<close>. When a set fires, and that it wakes those
    who await it.
  \<^item> \<^verbatim>\<open>Toad_Join_Wait\<close>: \<^verbatim>\<open>JoinSet::wait_blocking\<close> on the same machine. The counter changes without the mutex, so the laws of the
    locale fail, and a thread can sleep although no child is left.
  \<^item> \<^verbatim>\<open>Toad_Sockets\<close>: \<^verbatim>\<open>net/socket.hpp\<close> and \<^verbatim>\<open>net/listener.hpp\<close>, ownership of descriptors.
  \<^item> \<^verbatim>\<open>Toad_Iocontext\<close>: \<^verbatim>\<open>concurrency/pending.hpp\<close> and \<^verbatim>\<open>concurrency/iocontext.hpp\<close>. Lifetimes of pending operations and of the
    arrays they own; what reads deliver, errors included; what the destructor leaves behind.
  \<^item> \<^verbatim>\<open>Toad_Runtime\<close>: the calls between these parts. What \<^verbatim>\<open>Notify\<close> and \<^verbatim>\<open>Future\<close> need of \<^verbatim>\<open>spawn\<close> is a locale, interpreted on
    the executor; the end of a coroutine queues those that await it, and a completed read queues
    the coroutine that waits for it.
  \<^item> \<^verbatim>\<open>Toad_Socks5\<close>: \<^verbatim>\<open>socks5/server.hpp\<close>. A read as the coroutine sees it is what \<^verbatim>\<open>Toad_Iocontext\<close> does; who is served,
    who is refused, that nothing a client sends crashes the handshake, what the forwarder sends.
  \<^item> \<^verbatim>\<open>Toad_Session\<close>: the two forwarders of a session in their \<^verbatim>\<open>JoinSet\<close>, interleaved in any order. The directions do not
    mix, and the session does not end.
  \<^item> \<^verbatim>\<open>Toad_Program\<close>: \<^verbatim>\<open>src/main.cpp\<close>, the worker threads and the variables \<^verbatim>\<open>_this_executor\<close> and \<^verbatim>\<open>_this_io_context\<close>. Who finds the
    executor and the context, and when they are gone.

  \<^bold>\<open>Conventions.\<close> A result of type \<open>fault + 'a\<close> is an aborted \<^verbatim>\<open>ASSERT\<close>, undefined behaviour or an exception on
  the left. A transition that is not possible is \<open>None\<close>. Uninitialised values and the answers of the
  kernel are arguments. Machine integers keep their width: sizes are 64-bit words, the counter of a
  \<^verbatim>\<open>JoinSet\<close> is a 32-bit word, and conversions of a negative result to a size wrap around.

  \<^bold>\<open>Bounds and fuel.\<close> Lemmas on buffers and vectors assume fewer than \<open>2\<^sup>6\<^sup>3\<close> bytes, the largest size of an
  object; those on a \<^verbatim>\<open>JoinSet\<close> fewer than \<open>2\<^sup>3\<^sup>2\<close> children, the range of its counter. The only fuel is that of
  the loop over the methods of the handshake, which is given the number of bytes remaining; each
  round takes one byte, so it is enough, and the lemma \<open>method_loop_at\<close> proves it. The event loop and
  the forwarder never end by themselves; they are functions of the finite sequence of answers the
  kernel has given so far. \<^verbatim>\<open>Notify::wait_blocking\<close> is a partial function whose termination is characterised. Runs of threads are finite sequences of events of any length.

  \<^bold>\<open>Not modelled.\<close> Memory is taken to be sequentially consistent, so behaviours that only the weaker orderings
  asked for in \<^verbatim>\<open>notify.hpp\<close> and \<^verbatim>\<open>future.hpp\<close> would allow are not covered. Access to the
  submission queue from several threads is taken to be atomic, which the code does not ensure.
  Bodies of coroutines other than those of the SOCKS5 server are arbitrary and do not throw. Left out are
  logging and its set-up in \<^verbatim>\<open>main.cpp\<close>, the formatter of \<^verbatim>\<open>EthernetFrame\<close>, which does not compile when used, the headers that
  only include others, and the tests. The generator behind \<^verbatim>\<open>prng.hpp\<close>, the number formats of fmt, the kernel and \<^verbatim>\<open>inet_pton\<close>
  are arguments.
\<close>

end
